(* ===== verification/Prelude.thy ===== *)
theory Prelude
  imports Main "HOL-Library.Word" "HOL-Library.List_Lexorder" "HOL-Library.Product_Lexorder"
    "HOL-Library.Multiset"
begin

text \<open>
  What every component shares: the machine types, the parts of Go's \<^verbatim>\<open>slices\<close> package the code
  uses (binary search, insertion, deletion, sorting by a comparator) and their laws.

  The laws are stated once, in the locale \<open>keyed\<close>: a comparator whose sign is the order of a key.
  Every comparator of the program is an interpretation of it, so the facts about sorted tables
  (\<open>put_sorted\<close>, \<open>del_sorted\<close>) and about \<open>sort_func\<close> are proved here and nowhere else.
\<close>

named_theorems blk_simps \<open>order and arithmetic of blocks\<close>
named_theorems run_simps \<open>facts on canonical lists of runs\<close>
named_theorems codec \<open>round-trip equations of the binary codecs\<close>

type_synonym u8 = "8 word"
type_synonym u32 = "32 word"
type_synonym u64 = "64 word"

text \<open>A Go \<^verbatim>\<open>int64\<close> is a 64-bit word read as two's complement (\<open>sint\<close>).\<close>

type_synonym i64 = "64 word"

text \<open>A Go \<^verbatim>\<open>[]byte\<close> or \<^verbatim>\<open>string\<close>; \<open><\<close> on it is Go's bytewise lexicographic order.\<close>

type_synonym bytes = "u8 list"

abbreviation max_u64 :: u64 where
  "max_u64 \<equiv> - 1" \<comment> \<open>\<^verbatim>\<open>math.MaxUint64\<close>\<close>

lemma unat64_bound: "unat (w :: u64) < 18446744073709551616"
  using unsigned_less[of w, where ?'a = nat] by simp

lemma word_plus_one_eq_0: "(w :: 'a::len word) + 1 = 0 \<longleftrightarrow> w = - 1"
  by (metis add.commute add_eq_0_iff add.right_inverse)

lemma unat_plus_one: "(w :: 'a::len word) \<noteq> - 1 \<Longrightarrow> unat (w + 1) = unat w + 1"
  by (metis Suc_eq_plus1 add.commute unatSuc word_plus_one_eq_0)

lemma unat_distance_decreases:
  fixes n hi :: "'a::len word"
  assumes "n \<noteq> hi" shows "unat (hi - (n + 1)) < unat (hi - n)"
proof -
  have "hi - n \<noteq> 0" using assms by simp
  then have "unat (hi - n - 1) < unat (hi - n)"
    by (metis unat_gt_0 unat_minus_one diff_less zero_less_one)
  then show ?thesis by (simp add: diff_diff_eq)
qed

text \<open>The words from \<open>n\<close> to \<open>hi\<close> inclusive, in ascending order.\<close>

definition word_range :: "'a::len word \<Rightarrow> 'a word \<Rightarrow> 'a word list" where
  "word_range n hi = map of_nat [unat n..<unat hi + 1]"

lemma word_range_set: "set (word_range n hi) = {n..hi}" for n :: "'a::len word"
proof -
  have "\<exists>x \<in> {unat n..<unat hi + 1}. w = of_nat x" if "n \<le> w" "w \<le> hi" for w
    using that by (intro bexI[of _ "unat w"]) (auto simp: word_le_nat_alt)
  moreover have "n \<le> of_nat x \<and> of_nat x \<le> hi" if "unat n \<le> x" "x \<le> unat hi" for x
  proof -
    have "x < 2 ^ LENGTH('a)" using that(2) unsigned_less[of hi, where ?'a = nat] by linarith
    then have "unat (of_nat x :: 'a word) = x" by (simp add: unat_of_nat)
    with that show ?thesis by (simp add: word_le_nat_alt)
  qed
  moreover have "set (word_range n hi) = of_nat ` {unat n..<unat hi + 1}"
    by (simp add: word_range_def del: upt_Suc)
  ultimately show ?thesis by (auto simp: image_def less_Suc_eq_le)
qed

lemma word_range_sorted: "sorted_wrt (<) (word_range n hi)" for n :: "'a::len word"
proof -
  have less: "of_nat i < (of_nat j :: 'a word)" if "i < j" "j < unat hi + 1" for i j
  proof -
    have "j < 2 ^ LENGTH('a)" using that(2) unsigned_less[of hi, where ?'a = nat] by linarith
    with that(1) have "unat (of_nat i :: 'a word) = i" "unat (of_nat j :: 'a word) = j"
      by (simp_all add: unat_of_nat)
    with that(1) show ?thesis by (simp add: word_less_nat_alt)
  qed
  show ?thesis
    unfolding word_range_def sorted_wrt_map
    by (rule sorted_wrt_mono_rel[OF _ sorted_wrt_upt]) (rule less, simp_all del: upt_Suc)
qed

lemma word_range_self: "word_range n n = [n]"
  by (simp add: word_range_def)

lemma word_range_step: "n < hi \<Longrightarrow> word_range n hi = n # word_range (n + 1) hi" for n :: "'a::len word"
proof -
  assume lt: "n < hi"
  then have "n \<noteq> - 1" by (auto simp: word_order.extremum_strict)
  then have "unat (n + 1) = unat n + 1" by (rule unat_plus_one)
  then show ?thesis using lt by (simp add: word_range_def word_less_nat_alt upt_conv_Cons)
qed

lemma word_range_card: "n \<le> hi \<Longrightarrow> card {n..hi} = unat hi - unat n + 1" for n :: "'a::len word"
proof -
  assume "n \<le> hi"
  have "card {n..hi} = length (word_range n hi)"
    using word_range_sorted[of n hi] by (metis distinct_card strict_sorted_iff word_range_set)
  then show ?thesis using \<open>n \<le> hi\<close> by (simp add: word_range_def word_le_nat_alt)
qed

subsection \<open>Comparators\<close>

text \<open>Go's \<^verbatim>\<open>cmp.Compare\<close> and \<^verbatim>\<open>strings.Compare\<close>.\<close>

definition cmp_compare :: "'a::linorder \<Rightarrow> 'a \<Rightarrow> int" where
  "cmp_compare a b = (if a < b then - 1 else if a > b then 1 else 0)"

lemma cmp_compare_sign [simp]:
  "cmp_compare a b < 0 \<longleftrightarrow> a < b"
  "cmp_compare a b = 0 \<longleftrightarrow> a = b"
  "0 < cmp_compare a b \<longleftrightarrow> b < a"
  by (auto simp: cmp_compare_def)

subsection \<open>The slices package\<close>

text \<open>
  \<^verbatim>\<open>slices.BinarySearchFunc\<close>: the loop of the standard library, over the half-open range
  \<open>[i, j)\<close>, with \<open>c x\<close> standing for \<^verbatim>\<open>cmp(x, target)\<close>.
\<close>

function bsearch_loop :: "('e \<Rightarrow> int) \<Rightarrow> 'e list \<Rightarrow> nat \<Rightarrow> nat \<Rightarrow> nat" where
  "bsearch_loop c xs i j =
     (if i < j then
        (let h = (i + j) div 2
         in if c (xs ! h) < 0 then bsearch_loop c xs (h + 1) j else bsearch_loop c xs i h)
      else i)"
  by pat_completeness auto
termination
  by (relation "measure (\<lambda>(c, xs, i, j). j - i)") auto

declare bsearch_loop.simps [simp del]

definition binary_search_func :: "('e \<Rightarrow> 't \<Rightarrow> int) \<Rightarrow> 'e list \<Rightarrow> 't \<Rightarrow> nat \<times> bool" where
  "binary_search_func cmp xs t =
     (let i = bsearch_loop (\<lambda>x. cmp x t) xs 0 (length xs)
      in (i, i < length xs \<and> cmp (xs ! i) t = 0))"

definition slices_insert :: "'e list \<Rightarrow> nat \<Rightarrow> 'e \<Rightarrow> 'e list" where
  "slices_insert xs i v = take i xs @ v # drop i xs"

definition slices_delete :: "'e list \<Rightarrow> nat \<Rightarrow> nat \<Rightarrow> 'e list" where
  "slices_delete xs i j = take i xs @ drop j xs"

text \<open>
  The upsert and the removal every sorted table of the index is kept by: search, then replace in
  place or insert at the search position; search, then delete.
\<close>

definition put_sorted :: "('e \<Rightarrow> 'e \<Rightarrow> int) \<Rightarrow> 'e list \<Rightarrow> 'e \<Rightarrow> 'e list" where
  "put_sorted cmp xs e =
     (case binary_search_func cmp xs e of (i, found) \<Rightarrow>
        if found then xs[i := e] else slices_insert xs i e)"

definition del_sorted :: "('e \<Rightarrow> 'e \<Rightarrow> int) \<Rightarrow> 'e list \<Rightarrow> 'e \<Rightarrow> 'e list \<times> bool" where
  "del_sorted cmp xs probe =
     (case binary_search_func cmp xs probe of (i, found) \<Rightarrow>
        if \<not> found then (xs, False) else (slices_delete xs i (i + 1), True))"

text \<open>
  \<^verbatim>\<open>slices.SortFunc\<close> and \<^verbatim>\<open>slices.SortStableFunc\<close>: an insertion sort by the comparator. It is the
  stable sort; the library's unstable one agrees with it wherever no two elements compare equal.
\<close>

fun insert_func :: "('e \<Rightarrow> 'e \<Rightarrow> int) \<Rightarrow> 'e \<Rightarrow> 'e list \<Rightarrow> 'e list" where
  "insert_func cmp x [] = [x]"
| "insert_func cmp x (y # ys) = (if cmp x y \<le> 0 then x # y # ys else y # insert_func cmp x ys)"

definition sort_func :: "('e \<Rightarrow> 'e \<Rightarrow> int) \<Rightarrow> 'e list \<Rightarrow> 'e list" where
  "sort_func cmp xs = foldr (insert_func cmp) xs []"

text \<open>\<^verbatim>\<open>slices.CompactFunc\<close>: of each run of equal neighbours only the first stays.\<close>

fun compact_func :: "('e \<Rightarrow> 'e \<Rightarrow> bool) \<Rightarrow> 'e list \<Rightarrow> 'e list" where
  "compact_func eq [] = []"
| "compact_func eq [x] = [x]"
| "compact_func eq (x # y # ys) =
     (if eq x y then compact_func eq (x # ys) else x # compact_func eq (y # ys))"

subsection \<open>Binary search on a list split by the comparator\<close>

lemma length_takeWhile_eqI:
  assumes "i \<le> length xs" and "\<forall>k < i. P (xs ! k)" and "i < length xs \<Longrightarrow> \<not> P (xs ! i)"
  shows "length (takeWhile P xs) = i"
proof (cases "i < length xs")
  case True
  have "takeWhile P xs = take i xs"
    using assms(2,3) True by (intro takeWhile_eq_take_P_nth) auto
  with True show ?thesis by simp
next
  case False
  with assms(1) have "i = length xs" by simp
  with assms(2) have "\<forall>x \<in> set xs. P x" by (auto simp: in_set_conv_nth)
  then show ?thesis using \<open>i = length xs\<close> by (metis takeWhile_eq_all_conv)
qed

lemma bsearch_loop_takeWhile:
  assumes "i \<le> j" and "j \<le> length xs"
    and "\<forall>a b. a < b \<longrightarrow> b < length xs \<longrightarrow> c (xs ! b) < 0 \<longrightarrow> c (xs ! a) < 0"
    and "\<forall>k < i. c (xs ! k) < 0" and "\<forall>k. j \<le> k \<longrightarrow> k < length xs \<longrightarrow> \<not> c (xs ! k) < 0"
  shows "bsearch_loop c xs i j = length (takeWhile (\<lambda>x. c x < 0) xs)"
  using assms
proof (induction c xs i j rule: bsearch_loop.induct)
  case (1 c xs i j)
  show ?case
  proof (cases "i < j")
    case True
    let ?h = "(i + j) div 2"
    have h: "i \<le> ?h" "?h < j" "?h < length xs" using True 1(4) by auto
    show ?thesis
    proof (cases "c (xs ! ?h) < 0")
      case lt: True
      have "\<forall>k < ?h + 1. c (xs ! k) < 0"
        using 1(5) lt h by (metis Suc_eq_plus1 less_Suc_eq)
      then have "bsearch_loop c xs (?h + 1) j = length (takeWhile (\<lambda>x. c x < 0) xs)"
        using 1(1)[OF True refl lt] 1(4,5,7) h by simp
      then show ?thesis using True lt by (simp add: bsearch_loop.simps[of c xs i j] Let_def)
    next
      case ge: False
      have "\<forall>k. ?h \<le> k \<longrightarrow> k < length xs \<longrightarrow> \<not> c (xs ! k) < 0"
        using 1(5) ge h by (metis le_eq_less_or_eq)
      then have "bsearch_loop c xs i ?h = length (takeWhile (\<lambda>x. c x < 0) xs)"
        using 1(2)[OF True refl ge] 1(5,6) h by simp
      then show ?thesis using True ge by (simp add: bsearch_loop.simps[of c xs i j] Let_def)
    qed
  next
    case False
    then have "i = j" using 1(3) by simp
    have "length (takeWhile (\<lambda>x. c x < 0) xs) = i"
      using 1(4,6,7) \<open>i = j\<close> by (intro length_takeWhile_eqI) auto
    then show ?thesis using False by (simp add: bsearch_loop.simps[of c xs i j])
  qed
qed

lemma binary_search_takeWhile:
  assumes "sorted_wrt R xs" and "\<And>x y. R x y \<Longrightarrow> cmp y t < 0 \<Longrightarrow> cmp x t < 0"
  shows "binary_search_func cmp xs t =
           (let i = length (takeWhile (\<lambda>x. cmp x t < 0) xs)
            in (i, i < length xs \<and> cmp (xs ! i) t = 0))"
proof -
  have mono: "\<forall>a b. a < b \<longrightarrow> b < length xs \<longrightarrow> cmp (xs ! b) t < 0 \<longrightarrow> cmp (xs ! a) t < 0"
    using assms(2) sorted_wrt_nth_less[OF assms(1)] by blast
  have "bsearch_loop (\<lambda>x. cmp x t) xs 0 (length xs) = length (takeWhile (\<lambda>x. cmp x t < 0) xs)"
    using mono by (intro bsearch_loop_takeWhile) auto
  then show ?thesis by (simp add: binary_search_func_def)
qed

subsection \<open>Comparators that order by a key\<close>

text \<open>What a sort needs of its comparator: not above zero exactly where the keys are in order.\<close>

locale cmp_order =
  fixes key :: "'e \<Rightarrow> 'k::linorder" and cmp :: "'e \<Rightarrow> 'e \<Rightarrow> int"
  assumes cmp_le: "cmp a b \<le> 0 \<longleftrightarrow> key a \<le> key b"
begin

lemma insert_func_mset: "mset (insert_func cmp x ys) = add_mset x (mset ys)"
  by (induction ys) auto

lemma insert_func_set: "set (insert_func cmp x ys) = insert x (set ys)"
  by (induction ys) auto

lemma insert_func_sorted: "sorted (map key ys) \<Longrightarrow> sorted (map key (insert_func cmp x ys))"
  by (induction ys) (auto simp: cmp_le insert_func_set)

lemma sort_func_mset: "mset (sort_func cmp xs) = mset xs"
  by (induction xs) (auto simp: sort_func_def insert_func_mset)

lemma sort_func_set: "set (sort_func cmp xs) = set xs"
  by (metis set_mset_mset sort_func_mset)

lemma sort_func_length: "length (sort_func cmp xs) = length xs"
  by (metis size_mset sort_func_mset)

lemma sort_func_sorted: "sorted (map key (sort_func cmp xs))"
  by (induction xs) (auto simp: sort_func_def insert_func_sorted)

lemma sort_func_id: "sorted (map key xs) \<Longrightarrow> sort_func cmp xs = xs"
proof (induction xs)
  case (Cons x xs)
  then show ?case by (cases xs) (auto simp: sort_func_def cmp_le)
qed (simp add: sort_func_def)

lemma sort_func_asc: "distinct (map key xs) \<Longrightarrow> sorted_wrt (<) (map key (sort_func cmp xs))"
  using sort_func_sorted[of xs] mset_eq_imp_distinct_iff[of "map key (sort_func cmp xs)" "map key xs"]
  by (simp add: sort_func_mset strict_sorted_iff)

text \<open>A prefix of the sorted list holds the smallest keys.\<close>

lemma sort_func_take_least:
  assumes "x \<in> set (take n (sort_func cmp xs))" "y \<in> set xs" "y \<notin> set (take n (sort_func cmp xs))"
  shows "key x \<le> key y"
proof -
  let ?s = "sort_func cmp xs"
  have "y \<in> set (drop n ?s)"
    using assms(2,3) by (metis UnE append_take_drop_id set_append sort_func_set)
  moreover have "sorted (map key (take n ?s @ drop n ?s))" using sort_func_sorted by simp
  ultimately show ?thesis using assms(1) unfolding map_append sorted_append by auto
qed

end

text \<open>
  The contract of the comparators that also drive searches: the sign is the order of a key. Under
  it the tables are partial maps from keys to elements (\<open>tab\<close>), kept strictly ascending.
\<close>

locale keyed =
  fixes key :: "'e \<Rightarrow> 'k::linorder" and cmp :: "'e \<Rightarrow> 'e \<Rightarrow> int"
  assumes cmp_neg: "cmp a b < 0 \<longleftrightarrow> key a < key b"
    and cmp_zero: "cmp a b = 0 \<longleftrightarrow> key a = key b"
begin

sublocale cmp_order key cmp
proof
  fix a b show "cmp a b \<le> 0 \<longleftrightarrow> key a \<le> key b"
    using cmp_neg[of a b] cmp_zero[of a b] by auto
qed

abbreviation asc :: "'e list \<Rightarrow> bool" where
  "asc xs \<equiv> sorted_wrt (<) (map key xs)"

definition tab :: "'e list \<Rightarrow> 'k \<Rightarrow> 'e option" where
  "tab xs k = map_of (map (\<lambda>e. (key e, e)) xs) k"

lemma tab_Nil [simp]: "tab [] k = None"
  by (simp add: tab_def)

lemma tab_Cons [simp]: "tab (x # xs) k = (if k = key x then Some x else tab xs k)"
  by (auto simp: tab_def)

lemma tab_append: "tab (xs @ ys) k = (case tab xs k of Some e \<Rightarrow> Some e | None \<Rightarrow> tab ys k)"
  by (induction xs) auto

lemma tab_None: "tab xs k = None \<longleftrightarrow> k \<notin> key ` set xs"
  by (induction xs) auto

lemma tab_Some: "tab xs k = Some e \<Longrightarrow> e \<in> set xs \<and> key e = k"
  by (induction xs) (auto split: if_splits)

lemma asc_distinct: "asc xs \<Longrightarrow> distinct (map key xs)"
  by (metis strict_sorted_iff)

lemma tab_in: "asc xs \<Longrightarrow> e \<in> set xs \<Longrightarrow> tab xs (key e) = Some e"
  unfolding tab_def by (rule map_of_is_SomeI) (auto simp: comp_def asc_distinct)

lemma asc_ext:
  assumes "asc xs" and "asc ys" and "tab xs = tab ys"
  shows "xs = ys"
proof -
  have sub: "set as \<subseteq> set bs" if "asc as" "tab as = tab bs" for as bs
    using tab_in[OF that(1)] tab_Some[of bs] that(2) by auto
  then have "set xs = set ys" using assms by (metis subset_antisym)
  then have "set (map key xs) = set (map key ys)" by simp
  then have keys: "map key xs = map key ys"
    using assms(1,2) by (meson strict_sorted_equal)
  show ?thesis
  proof (rule nth_equalityI)
    show "length xs = length ys" using keys by (metis length_map)
    fix i assume i: "i < length xs"
    then have "key (xs ! i) = key (ys ! i)" using keys by (metis length_map nth_map)
    then show "xs ! i = ys ! i"
      using tab_in[OF assms(1), of "xs ! i"] tab_in[OF assms(2), of "ys ! i"] assms(3) i keys
      by (metis length_map nth_mem option.inject)
  qed
qed

text \<open>Where the search splits an ascending table: smaller keys, then the key itself if present.\<close>

lemma search_split:
  assumes "asc xs"
  obtains us vs where "xs = us @ vs" and "\<forall>u \<in> set us. key u < key t"
    and "\<forall>v \<in> set vs. key t \<le> key v"
    and "binary_search_func cmp xs t = (length us, vs \<noteq> [] \<and> key (hd vs) = key t)"
proof
  let ?P = "\<lambda>x. cmp x t < 0"
  let ?us = "takeWhile ?P xs" and ?vs = "dropWhile ?P xs"
  show xs: "xs = ?us @ ?vs" by simp
  show "\<forall>u \<in> set ?us. key u < key t" by (auto simp: cmp_neg dest: set_takeWhileD)
  have sorted: "sorted_wrt (\<lambda>a b. key a < key b) xs" using assms by (simp add: sorted_wrt_map)
  show "\<forall>v \<in> set ?vs. key t \<le> key v"
  proof
    fix v assume v: "v \<in> set ?vs"
    then have ne: "?vs \<noteq> []" by (metis list.set(1) empty_iff)
    then have hd: "key t \<le> key (hd ?vs)"
      using hd_dropWhile[of ?P xs] by (simp add: cmp_neg not_less)
    have "sorted_wrt (\<lambda>a b. key a < key b) ?vs"
      using sorted by (metis sorted_wrt_append takeWhile_dropWhile_id)
    then have "key (hd ?vs) \<le> key v"
      using v ne by (cases ?vs) (auto simp: less_imp_le)
    with hd show "key t \<le> key v" by simp
  qed
  define us vs where "us = ?us" and "vs = ?vs"
  have eq: "xs = us @ vs" by (simp add: us_def vs_def)
  have "binary_search_func cmp xs t =
          (let i = length us in (i, i < length xs \<and> cmp (xs ! i) t = 0))"
    unfolding us_def by (rule binary_search_takeWhile[OF sorted]) (auto simp: cmp_neg)
  then have "binary_search_func cmp xs t = (length us, vs \<noteq> [] \<and> key (hd vs) = key t)"
    unfolding eq by (cases vs) (auto simp: cmp_zero)
  then show "binary_search_func cmp xs t = (length ?us, ?vs \<noteq> [] \<and> key (hd ?vs) = key t)"
    unfolding us_def vs_def .
qed

lemma put_sorted_split:
  assumes "asc xs"
  obtains us vs ws where "xs = us @ ws @ vs" and "put_sorted cmp xs e = us @ e # vs"
    and "\<forall>u \<in> set us. key u < key e" and "\<forall>v \<in> set vs. key e < key v"
    and "\<forall>w \<in> set ws. key w = key e"
proof -
  obtain us vs where s: "xs = us @ vs" "\<forall>u \<in> set us. key u < key e" "\<forall>v \<in> set vs. key e \<le> key v"
    "binary_search_func cmp xs e = (length us, vs \<noteq> [] \<and> key (hd vs) = key e)"
    using search_split[OF assms] by blast
  show ?thesis
  proof (cases "vs \<noteq> [] \<and> key (hd vs) = key e")
    case True
    then obtain v vs' where v: "vs = v # vs'" "key v = key e" by (cases vs) auto
    have "\<forall>w \<in> set vs'. key e < key w"
      using assms s(1) v by (auto simp: sorted_wrt_append)
    then show ?thesis
      using that[of us "[v]" vs'] s v by (simp add: put_sorted_def)
  next
    case False
    have "\<forall>v \<in> set vs. key e < key v"
      using False s(3) assms s(1) by (cases vs) (auto simp: sorted_wrt_append less_le intro: order_trans)
    then show ?thesis
      using that[of us "[]" vs] s False by (simp add: put_sorted_def slices_insert_def)
  qed
qed

text \<open>The upsert adds its key and loses none, even on a list that is not sorted; so does a repeated one.\<close>

lemma put_sorted_cases:
  obtains (found) i where "i < length xs" "key (xs ! i) = key e" "put_sorted cmp xs e = xs[i := e]"
  | (new) i where "put_sorted cmp xs e = take i xs @ e # drop i xs"
proof -
  obtain i f where b: "binary_search_func cmp xs e = (i, f)" by (rule prod.exhaust)
  show ?thesis
  proof (cases f)
    case True
    then have "i < length xs" "key (xs ! i) = key e" using b by (auto simp: binary_search_func_def Let_def cmp_zero)
    then show ?thesis using found True b by (simp add: put_sorted_def)
  next
    case False
    then show ?thesis using new b by (simp add: put_sorted_def slices_insert_def)
  qed
qed

lemma take_drop_set: "set (take i xs) \<union> set (drop i xs) = set xs"
  by (metis append_take_drop_id set_append)

lemma put_sorted_keys: "key ` set (put_sorted cmp xs e) = insert (key e) (key ` set xs)"
proof (cases rule: put_sorted_cases[of xs e])
  case (found i)
  then have "map key (put_sorted cmp xs e) = map key xs" by (simp add: map_update list_update_same_conv)
  then have "key ` set (put_sorted cmp xs e) = key ` set xs" by (metis set_map)
  then show ?thesis using found(2) nth_mem[OF found(1)] by (metis imageI insert_absorb)
next
  case (new i)
  then show ?thesis using take_drop_set[of i xs, symmetric] by auto
qed

lemma put_sorted_sub: "set (put_sorted cmp xs e) \<subseteq> insert e (set xs)"
proof (cases rule: put_sorted_cases[of xs e])
  case (found i)
  then show ?thesis by (simp add: set_update_subset_insert)
next
  case (new i)
  then show ?thesis using take_drop_set[of i xs] by auto
qed

lemma put_sorted_mem: "e \<in> set (put_sorted cmp xs e)"
  by (cases rule: put_sorted_cases[of xs e]) (simp_all add: set_update_memI)

lemma put_sorted_asc: "asc xs \<Longrightarrow> asc (put_sorted cmp xs e)"
  by (rule put_sorted_split[of xs e]) (auto simp: sorted_wrt_append intro: less_trans)

lemma put_sorted_tab: "asc xs \<Longrightarrow> tab (put_sorted cmp xs e) = (tab xs)(key e \<mapsto> e)"
proof (rule put_sorted_split[of xs e])
  fix us vs ws
  assume s: "xs = us @ ws @ vs" "put_sorted cmp xs e = us @ e # vs"
    "\<forall>u \<in> set us. key u < key e" "\<forall>w \<in> set ws. key w = key e"
  have "tab us (key e) = None" using s(3) by (auto simp: tab_None)
  moreover have "tab ws k = None" if "k \<noteq> key e" for k using s(4) that by (auto simp: tab_None)
  ultimately show ?thesis
    unfolding s(2) unfolding s(1) by (auto simp: tab_append fun_eq_iff split: option.splits)
qed

lemma del_sorted_props:
  assumes "asc xs"
  shows "asc (fst (del_sorted cmp xs p))"
    and "tab (fst (del_sorted cmp xs p)) = (tab xs)(key p := None)"
    and "snd (del_sorted cmp xs p) \<longleftrightarrow> tab xs (key p) \<noteq> None"
proof -
  obtain us vs where s: "xs = us @ vs" "\<forall>u \<in> set us. key u < key p" "\<forall>v \<in> set vs. key p \<le> key v"
    "binary_search_func cmp xs p = (length us, vs \<noteq> [] \<and> key (hd vs) = key p)"
    using search_split[OF assms] by blast
  have us: "tab us (key p) = None" using s(2) by (auto simp: tab_None)
  have "asc (fst (del_sorted cmp xs p)) \<and> tab (fst (del_sorted cmp xs p)) = (tab xs)(key p := None) \<and>
        (snd (del_sorted cmp xs p) \<longleftrightarrow> tab xs (key p) \<noteq> None)"
  proof (cases "vs \<noteq> [] \<and> key (hd vs) = key p")
    case True
    then obtain v vs' where v: "vs = v # vs'" "key v = key p" by (cases vs) auto
    have "\<forall>w \<in> set vs'. key p < key w" using assms s(1) v by (auto simp: sorted_wrt_append)
    then have "tab vs' (key p) = None" by (auto simp: tab_None)
    moreover have "del_sorted cmp xs p = (us @ vs', True)"
      using s v True by (simp add: del_sorted_def slices_delete_def)
    ultimately show ?thesis
      using assms s(1) v us by (auto simp: sorted_wrt_append tab_append fun_eq_iff split: option.splits)
  next
    case False
    have "\<forall>v \<in> set vs. key p < key v"
      using False s(3) assms s(1) by (cases vs) (auto simp: sorted_wrt_append less_le intro: order_trans)
    then have "tab vs (key p) = None" by (auto simp: tab_None)
    moreover have "del_sorted cmp xs p = (xs, False)" using s False by (auto simp: del_sorted_def)
    ultimately show ?thesis using assms us s(1) by (auto simp: tab_append)
  qed
  then show "asc (fst (del_sorted cmp xs p))"
    and "tab (fst (del_sorted cmp xs p)) = (tab xs)(key p := None)"
    and "snd (del_sorted cmp xs p) \<longleftrightarrow> tab xs (key p) \<noteq> None" by simp_all
qed

lemma search_found:
  assumes "asc xs"
  shows "tab xs (key t) = (case binary_search_func cmp xs t of (i, found) \<Rightarrow>
           if found then Some (xs ! i) else None)"
proof -
  obtain us vs where s: "xs = us @ vs" "\<forall>u \<in> set us. key u < key t" "\<forall>v \<in> set vs. key t \<le> key v"
    "binary_search_func cmp xs t = (length us, vs \<noteq> [] \<and> key (hd vs) = key t)"
    using search_split[OF assms] by blast
  have us: "tab us (key t) = None" using s(2) by (auto simp: tab_None)
  show ?thesis
  proof (cases "vs \<noteq> [] \<and> key (hd vs) = key t")
    case True
    then show ?thesis using s us by (cases vs) (auto simp: tab_append)
  next
    case False
    have "\<forall>v \<in> set vs. key t < key v"
      using False s(3) assms s(1) by (cases vs) (auto simp: sorted_wrt_append less_le intro: order_trans)
    then have "tab vs (key t) = None" by (auto simp: tab_None)
    then show ?thesis using s us False by (auto simp: tab_append)
  qed
qed

text \<open>Sorting and compacting is the canonical list of a set of keys.\<close>

lemma compact_props:
  assumes "sorted (map key xs)"
  shows "asc (compact_func (\<lambda>a b. cmp a b = 0) xs)"
    and "key ` set (compact_func (\<lambda>a b. cmp a b = 0) xs) = key ` set xs"
    and "set (compact_func (\<lambda>a b. cmp a b = 0) xs) \<subseteq> set xs"
proof -
  have "asc (compact_func (\<lambda>a b. cmp a b = 0) xs) \<and> key ` set (compact_func (\<lambda>a b. cmp a b = 0) xs) = key ` set xs
      \<and> set (compact_func (\<lambda>a b. cmp a b = 0) xs) \<subseteq> set xs"
    using assms
  proof (induction "\<lambda>a b. cmp a b = 0" xs rule: compact_func.induct)
    case (3 x y ys)
    show ?case
    proof (cases "cmp x y = 0")
      case True
      then show ?thesis using 3(1)[OF True] 3(3) by (auto simp: cmp_zero)
    next
      case False
      then have "key x < key y" using 3(3) by (auto simp: cmp_zero order_less_le)
      moreover have "\<forall>z \<in> set (y # ys). key y \<le> key z" using 3(3) by auto
      ultimately have lt: "\<forall>k \<in> key ` set (y # ys). key x < k" by (auto intro: less_le_trans)
      have IH: "asc (compact_func (\<lambda>a b. cmp a b = 0) (y # ys))"
        "key ` set (compact_func (\<lambda>a b. cmp a b = 0) (y # ys)) = key ` set (y # ys)"
        "set (compact_func (\<lambda>a b. cmp a b = 0) (y # ys)) \<subseteq> set (y # ys)"
        using 3(2)[OF False] 3(3) by auto
      have "\<forall>z \<in> set (compact_func (\<lambda>a b. cmp a b = 0) (y # ys)). key x < key z"
        using lt unfolding IH(2)[symmetric] by blast
      then show ?thesis using False IH lt by auto
    qed
  qed simp_all
  then show "asc (compact_func (\<lambda>a b. cmp a b = 0) xs)"
    "key ` set (compact_func (\<lambda>a b. cmp a b = 0) xs) = key ` set xs"
    "set (compact_func (\<lambda>a b. cmp a b = 0) xs) \<subseteq> set xs" by blast+
qed

lemma compact_id: "asc xs \<Longrightarrow> compact_func (\<lambda>a b. cmp a b = 0) xs = xs"
proof (induction "\<lambda>a b. cmp a b = 0" xs rule: compact_func.induct)
  case (3 x y ys)
  then have "cmp x y \<noteq> 0" by (auto simp: cmp_zero)
  then show ?case using 3 by simp
qed simp_all

lemma search_mem: "asc xs \<Longrightarrow> snd (binary_search_func cmp xs e) \<longleftrightarrow> key e \<in> key ` set xs"
  using search_found[of xs e] tab_None[of xs "key e"] by (auto split: prod.splits if_splits)

end

end
