(* ===== verification/Blocks.thy ===== *)
theory Blocks
  imports Prelude
begin

text \<open>
  Block identities (\<^verbatim>\<open>backend/bucketindex/block.go\<close>): a block is a term and a number, an interval
  is the exact set of blocks a part covers, stored as its bounds and the gaps between its runs.

  The definitions follow the code; \<open>blocks\<close> reads an interval as the set it stands for. A valid
  interval and a list of separated runs determine each other (\<open>of_runs_runs\<close>, \<open>runs_of_runs\<close>), so
  every operation is proved on run lists and read back as an operation on sets.
\<close>

subsection \<open>Blocks\<close>

datatype Block = Block (bTerm: u64) (bN: u64)

definition block_Compare :: "Block \<Rightarrow> Block \<Rightarrow> int" where
  "block_Compare b c =
     (if bTerm b \<noteq> bTerm c then cmp_compare (bTerm b) (bTerm c) else cmp_compare (bN b) (bN c))"

definition block_next :: "Block \<Rightarrow> Block" where
  "block_next b = (if bN b = max_u64 then Block (bTerm b + 1) 0 else Block (bTerm b) (bN b + 1))"

definition block_prev :: "Block \<Rightarrow> Block" where
  "block_prev b = (if bN b = 0 then Block (bTerm b - 1) max_u64 else Block (bTerm b) (bN b - 1))"

definition block_less :: "Block \<Rightarrow> Block \<Rightarrow> bool" where
  "block_less b c \<longleftrightarrow> block_Compare b c < 0"

definition minBlock :: "Block \<Rightarrow> Block \<Rightarrow> Block" where
  "minBlock a b = (if block_less a b then a else b)"

definition MaxBlock :: "Block \<Rightarrow> Block \<Rightarrow> Block" where
  "MaxBlock a b = (if block_less a b then b else a)"

text \<open>Blocks order by term, then number: the order of the pair.\<close>

instantiation Block :: linorder
begin

definition less_eq_Block :: "Block \<Rightarrow> Block \<Rightarrow> bool" where
  "less_eq_Block a b \<longleftrightarrow> (bTerm a, bN a) \<le> (bTerm b, bN b)"

definition less_Block :: "Block \<Rightarrow> Block \<Rightarrow> bool" where
  "less_Block a b \<longleftrightarrow> (bTerm a, bN a) < (bTerm b, bN b)"

instance
  by standard (auto simp: less_eq_Block_def less_Block_def Block.expand)

end

lemma block_less_iff [simp]: "block_less a b \<longleftrightarrow> a < b"
  by (auto simp: block_less_def block_Compare_def less_Block_def)

lemma block_Compare_sign:
  "block_Compare a b < 0 \<longleftrightarrow> a < b" "block_Compare a b = 0 \<longleftrightarrow> a = b" "0 < block_Compare a b \<longleftrightarrow> b < a"
  by (auto simp: block_Compare_def less_Block_def Block.expand)

lemma min_max_block [simp]: "minBlock a b = min a b" "MaxBlock a b = max a b"
  by (auto simp: minBlock_def MaxBlock_def min_def max_def)

interpretation blk: keyed "\<lambda>b. b" block_Compare
  by unfold_locales (simp_all add: block_Compare_sign)

text \<open>The position of a block in block order, as a number below \<open>2 ^ 128\<close>.\<close>

definition addr :: "Block \<Rightarrow> nat" where
  "addr b = unat (bTerm b) * 2 ^ 64 + unat (bN b)"

lemma addr_less [blk_simps]: "a < b \<longleftrightarrow> addr a < addr b"
  using unat64_bound[of "bN a"] unat64_bound[of "bN b"]
  by (auto simp: less_Block_def addr_def word_less_nat_alt word_le_nat_alt)

lemma addr_le [blk_simps]: "a \<le> b \<longleftrightarrow> addr a \<le> addr b"
  by (simp add: blk_simps flip: not_less)

lemma addr_inj [simp]: "addr a = addr b \<longleftrightarrow> a = b"
  by (metis addr_le order_antisym order_refl)

lemma block_next_prev [simp]: "block_next (block_prev b) = b" "block_prev (block_next b) = b"
  by (auto simp: block_next_def block_prev_def word_plus_one_eq_0 Block.expand)

lemma addr_next:
  assumes "b < c" shows "addr (block_next b) = addr b + 1"
proof (cases "bN b = max_u64")
  case True
  have "bTerm b \<noteq> max_u64"
  proof
    assume "bTerm b = max_u64"
    with True assms show False
      by (auto simp: less_Block_def)
  qed
  then have "unat (bTerm b + 1) = unat (bTerm b) + 1"
    by (rule unat_plus_one)
  then show ?thesis using True by (simp add: block_next_def addr_def unsigned_minus_1_eq_mask mask_eq_exp_minus_1)
next
  case False
  then have "unat (bN b + 1) = unat (bN b) + 1"
    by (rule unat_plus_one)
  then show ?thesis using False by (simp add: block_next_def addr_def)
qed

lemma addr_prev: "c < b \<Longrightarrow> addr (block_prev b) = addr b - 1"
proof -
  assume c: "c < b"
  have "block_prev b \<noteq> Block max_u64 max_u64"
  proof
    assume "block_prev b = Block max_u64 max_u64"
    then have "b = Block 0 0" by (metis block_next_prev(1) block_next_def Block.sel
        add.left_inverse)
    with c show False by (auto simp: less_Block_def)
  qed
  then have "block_prev b < Block max_u64 max_u64"
    by (auto simp: less_Block_def Block.expand order_less_le)
  then have "addr (block_next (block_prev b)) = addr (block_prev b) + 1" by (rule addr_next)
  then show ?thesis by simp
qed

subsection \<open>Intervals\<close>

datatype Gap = Gap (gMin: Block) (gMax: Block)

record Interval =
  iMin :: Block
  iMax :: Block
  iGaps :: "Gap list"

text \<open>The zero value, which is the unset interval.\<close>

definition unset :: Interval where
  "unset = \<lparr>iMin = Block 0 0, iMax = Block 0 0, iGaps = []\<rparr>"

definition Range :: "u64 \<Rightarrow> u64 \<Rightarrow> u64 \<Rightarrow> Interval" where
  "Range t lo hi = \<lparr>iMin = Block t lo, iMax = Block t hi, iGaps = []\<rparr>"

definition Single :: "Block \<Rightarrow> Interval" where
  "Single b = \<lparr>iMin = b, iMax = b, iGaps = []\<rparr>"

definition validRun :: "Block \<Rightarrow> Block \<Rightarrow> bool" where
  "validRun lo hi \<longleftrightarrow> bN lo \<ge> 1 \<and> bTerm lo = bTerm hi \<and> \<not> block_less hi lo"

text \<open>The loop of \<open>Valid\<close>: \<open>lo\<close> is where the current held run starts.\<close>

fun valid_loop :: "Block \<Rightarrow> Block \<Rightarrow> Gap list \<Rightarrow> bool" where
  "valid_loop mx lo [] = validRun lo mx"
| "valid_loop mx lo (g # gs) =
     (if block_less (gMax g) (gMin g) \<or> \<not> block_less lo (gMin g) \<or> \<not> block_less (gMax g) mx
      then False
      else if \<not> validRun lo (block_prev (gMin g)) then False
      else valid_loop mx (block_next (gMax g)) gs)"

definition Valid :: "Interval \<Rightarrow> bool" where
  "Valid iv = (if block_less (iMax iv) (iMin iv) then False
               else valid_loop (iMax iv) (iMin iv) (iGaps iv))"

definition nruns :: "Interval \<Rightarrow> nat" where
  "nruns iv = length (iGaps iv) + 1"

definition run :: "Interval \<Rightarrow> nat \<Rightarrow> Gap" where
  "run iv i = Gap (if i > 0 then block_next (gMax (iGaps iv ! (i - 1))) else iMin iv)
                  (if i < length (iGaps iv) then block_prev (gMin (iGaps iv ! i)) else iMax iv)"

definition appendRuns :: "Gap list \<Rightarrow> Interval \<Rightarrow> Gap list" where
  "appendRuns dst iv = dst @ map (run iv) [0..<nruns iv]"

abbreviation runs :: "Interval \<Rightarrow> Gap list" where
  "runs iv \<equiv> appendRuns [] iv"

definition compareRuns :: "Gap \<Rightarrow> Gap \<Rightarrow> int" where
  "compareRuns a b =
     (let c = block_Compare (gMin a) (gMin b)
      in if c \<noteq> 0 then c else block_Compare (gMax a) (gMax b))"

text \<open>The coalescing loop of \<open>fromRuns\<close>: \<open>m\<close> is the run being extended.\<close>

fun merge_runs :: "Gap \<Rightarrow> Gap list \<Rightarrow> Gap list" where
  "merge_runs m [] = [m]"
| "merge_runs m (r # rs) =
     (if \<not> block_less (gMax m) (block_prev (gMin r))
      then merge_runs (Gap (gMin m) (MaxBlock (gMax m) (gMax r))) rs
      else m # merge_runs r rs)"

fun gaps_between :: "Gap list \<Rightarrow> Gap list" where
  "gaps_between (r # s # rs) =
     Gap (block_next (gMax r)) (block_prev (gMin s)) # gaps_between (s # rs)"
| "gaps_between _ = []"

text \<open>The interval of a list of merged runs, the last step of \<open>fromRuns\<close>.\<close>

definition of_runs :: "Gap list \<Rightarrow> Interval" where
  "of_runs rs = \<lparr>iMin = gMin (hd rs), iMax = gMax (last rs), iGaps = gaps_between rs\<rparr>"

definition fromRuns :: "Gap list \<Rightarrow> Interval" where
  "fromRuns rs =
     (if rs = [] then unset
      else let rs' = sort_func compareRuns rs
           in if \<exists>r \<in> set rs'. bN (gMin r) = 0 then unset
              else of_runs (merge_runs (hd rs') (tl rs')))"

definition TermBlocks :: "u64 \<Rightarrow> u64 list \<Rightarrow> Interval" where
  "TermBlocks t nums =
     (if \<exists>n \<in> set nums. n = 0 then unset
      else fromRuns (map (\<lambda>n. Gap (Block t n) (Block t n)) nums))"

definition Blocks_of :: "u64 list \<Rightarrow> Interval" where
  "Blocks_of nums = TermBlocks 0 nums"

text \<open>
  The loop of \<open>Contains\<close>: the held runs not yet passed, and the runs still to be found. Advancing
  the index past the runs that end too early is \<open>dropWhile\<close>.
\<close>

fun contains_loop :: "Gap list \<Rightarrow> Gap list \<Rightarrow> bool" where
  "contains_loop hs [] = True"
| "contains_loop hs (r # rs) =
     (case dropWhile (\<lambda>h. block_less (gMax h) (gMin r)) hs of
        [] \<Rightarrow> False
      | h # hs' \<Rightarrow>
          if block_less (gMin r) (gMin h) \<or> block_less (gMax h) (gMax r) then False
          else contains_loop (h # hs') rs)"

definition Contains :: "Interval \<Rightarrow> Interval \<Rightarrow> bool" where
  "Contains iv w = (if \<not> Valid iv \<or> \<not> Valid w then False else contains_loop (runs iv) (runs w))"

definition Interval_Union :: "Interval \<Rightarrow> Interval \<Rightarrow> Interval" where
  "Interval_Union iv w =
     (if \<not> Valid w then iv
      else if \<not> Valid iv then w
      else fromRuns (appendRuns (appendRuns [] iv) w))"

definition Equal :: "Interval \<Rightarrow> Interval \<Rightarrow> bool" where
  "Equal iv w \<longleftrightarrow> iMin iv = iMin w \<and> iMax iv = iMax w \<and> iGaps iv = iGaps w"

definition Len :: "Interval \<Rightarrow> u64" where
  "Len iv =
     (if \<not> Valid iv then 0
      else foldl (\<lambda>n r. n + (bN (gMax r) - bN (gMin r) + 1)) 0 (runs iv))"

text \<open>
  \<open>Each\<close> hands the blocks to a callback until it returns false; the callback is a function on a
  state, paired with whether to go on. The inner loop runs from \<open>n\<close> to \<open>hi\<close> inclusive.
\<close>

function each_run :: "u64 \<Rightarrow> u64 \<Rightarrow> u64 \<Rightarrow> (Block \<Rightarrow> 's \<Rightarrow> 's \<times> bool) \<Rightarrow> 's \<Rightarrow> 's \<times> bool" where
  "each_run t n hi fn s =
     (case fn (Block t n) s of (s', go) \<Rightarrow>
        if \<not> go then (s', False)
        else if n = hi then (s', True)
        else each_run t (n + 1) hi fn s')"
  by pat_completeness auto
termination
  by (relation "measure (\<lambda>(t, n, hi, fn, s). unat (hi - n))") (auto simp: unat_distance_decreases)

declare each_run.simps [simp del]

fun each_runs :: "Gap list \<Rightarrow> (Block \<Rightarrow> 's \<Rightarrow> 's \<times> bool) \<Rightarrow> 's \<Rightarrow> 's" where
  "each_runs [] fn s = s"
| "each_runs (r # rs) fn s =
     (case each_run (bTerm (gMin r)) (bN (gMin r)) (bN (gMax r)) fn s of (s', go) \<Rightarrow>
        if go then each_runs rs fn s' else s')"

definition Each :: "Interval \<Rightarrow> (Block \<Rightarrow> 's \<Rightarrow> 's \<times> bool) \<Rightarrow> 's \<Rightarrow> 's" where
  "Each iv fn s = (if \<not> Valid iv then s else each_runs (runs iv) fn s)"

text \<open>The two-pointer loop of \<open>intersect\<close> (\<^verbatim>\<open>lineage.go\<close>).\<close>

fun intersect_loop :: "Gap list \<Rightarrow> Gap list \<Rightarrow> Gap list" where
  "intersect_loop (ra # as) (rb # bs) =
     (let lo = MaxBlock (gMin ra) (gMin rb); hi = minBlock (gMax ra) (gMax rb);
          rest = (if block_less (gMax ra) (gMax rb) then intersect_loop as (rb # bs)
                  else intersect_loop (ra # as) bs)
      in if \<not> block_less hi lo then Gap lo hi # rest else rest)"
| "intersect_loop _ _ = []"

definition intersect :: "Interval \<Rightarrow> Interval \<Rightarrow> Interval" where
  "intersect a b =
     (if \<not> Valid a \<or> \<not> Valid b then unset else fromRuns (intersect_loop (runs a) (runs b)))"

definition meets :: "Interval \<Rightarrow> Interval \<Rightarrow> bool" where
  "meets a b \<longleftrightarrow> Valid (intersect a b)"

subsection \<open>Valid intervals are lists of separated runs\<close>

definition okrun :: "Gap \<Rightarrow> bool" where
  "okrun r \<longleftrightarrow> validRun (gMin r) (gMax r)"

definition apart :: "Gap \<Rightarrow> Gap \<Rightarrow> bool" where
  "apart r s \<longleftrightarrow> addr (gMax r) + 1 < addr (gMin s)"

definition sep :: "Gap list \<Rightarrow> bool" where
  "sep rs \<longleftrightarrow> (\<forall>r \<in> set rs. okrun r) \<and> sorted_wrt apart rs"

definition rset :: "Gap list \<Rightarrow> Block set" where
  "rset rs = (\<Union>r \<in> set rs. {gMin r..gMax r})"

text \<open>The set of blocks an interval covers; an invalid one covers none.\<close>

definition blocks :: "Interval \<Rightarrow> Block set" where
  "blocks iv = (if Valid iv then rset (runs iv) else {})"

lemma rset_simps [simp]:
  "rset [] = {}" "rset (r # rs) = {gMin r..gMax r} \<union> rset rs" "rset (rs @ ss) = rset rs \<union> rset ss"
  by (auto simp: rset_def)

lemma okrun_le: "okrun r \<Longrightarrow> gMin r \<le> gMax r"
  by (auto simp: okrun_def validRun_def)

lemma okrun_alt: "okrun r \<longleftrightarrow> bN (gMin r) \<noteq> 0 \<and> bTerm (gMin r) = bTerm (gMax r) \<and> gMin r \<le> gMax r"
  by (auto simp: okrun_def validRun_def word_le_nat_alt Suc_le_eq unat_gt_0)

lemma sep_simps [simp]:
  "sep []" "sep (r # rs) \<longleftrightarrow> okrun r \<and> (\<forall>s \<in> set rs. apart r s) \<and> sep rs"
  "sep (rs @ ss) \<longleftrightarrow> sep rs \<and> sep ss \<and> (\<forall>r \<in> set rs. \<forall>s \<in> set ss. apart r s)"
  by (auto simp: sep_def sorted_wrt_append)

lemma apart_trans: "apart r s \<Longrightarrow> okrun s \<Longrightarrow> apart s t \<Longrightarrow> apart r t"
  by (auto simp: apart_def okrun_alt blk_simps)

lemma sep_Cons2: "sep (r # s # rs) \<longleftrightarrow> okrun r \<and> apart r s \<and> sep (s # rs)"
  by (auto intro: apart_trans)

fun runs_from :: "Block \<Rightarrow> Block \<Rightarrow> Gap list \<Rightarrow> Gap list" where
  "runs_from lo mx [] = [Gap lo mx]"
| "runs_from lo mx (g # gs) = Gap lo (block_prev (gMin g)) # runs_from (block_next (gMax g)) mx gs"

lemma runs_eq_runs_from: "runs iv = runs_from (iMin iv) (iMax iv) (iGaps iv)"
proof -
  have "map (run \<lparr>iMin = lo, iMax = mx, iGaps = gs\<rparr>) [0..<length gs + 1] = runs_from lo mx gs"
    for lo mx gs
  proof (induction gs arbitrary: lo)
    case Nil
    show ?case by (simp add: run_def)
  next
    case (Cons g gs)
    have "map (run \<lparr>iMin = lo, iMax = mx, iGaps = g # gs\<rparr>) [0..<length (g # gs) + 1] =
          run \<lparr>iMin = lo, iMax = mx, iGaps = g # gs\<rparr> 0 #
          map (run \<lparr>iMin = lo, iMax = mx, iGaps = g # gs\<rparr> \<circ> Suc) [0..<length gs + 1]"
      by (simp del: upt_Suc add: upt_conv_Cons map_Suc_upt[symmetric])
    also have "map (run \<lparr>iMin = lo, iMax = mx, iGaps = g # gs\<rparr> \<circ> Suc) [0..<length gs + 1] =
          map (run \<lparr>iMin = block_next (gMax g), iMax = mx, iGaps = gs\<rparr>) [0..<length gs + 1]"
      by (rule map_cong) (auto simp: run_def nth_Cons')
    finally show ?case unfolding Cons.IH by (simp add: run_def)
  qed
  from this[of "iMin iv" "iMax iv" "iGaps iv"] show ?thesis
    by (cases iv) (simp add: appendRuns_def nruns_def)
qed

lemma runs_from_ends [simp]:
  "runs_from lo mx gs \<noteq> []" "gMin (hd (runs_from lo mx gs)) = lo" "gMax (last (runs_from lo mx gs)) = mx"
  by (induction gs arbitrary: lo) auto

lemma runs_ends [simp]:
  "runs iv \<noteq> []" "gMin (hd (runs iv)) = iMin iv" "gMax (last (runs iv)) = iMax iv"
  by (simp_all add: runs_eq_runs_from)

lemma gaps_between_runs_from: "gaps_between (runs_from lo mx gs) = gs"
proof (induction gs arbitrary: lo)
  case (Cons g gs)
  obtain r rs where r: "runs_from (block_next (gMax g)) mx gs = r # rs"
    by (metis list.exhaust runs_from_ends(1))
  then have "gMin r = block_next (gMax g)" by (metis list.sel(1) runs_from_ends(2))
  then show ?case using Cons[of "block_next (gMax g)"] r by simp
qed simp

lemma of_runs_runs [simp]: "of_runs (runs iv) = iv"
  by (simp add: of_runs_def runs_eq_runs_from gaps_between_runs_from)

lemma runs_from_gaps_between:
  "rs \<noteq> [] \<Longrightarrow> runs_from (gMin (hd rs)) (gMax (last rs)) (gaps_between rs) = rs"
  by (induction rs rule: gaps_between.induct) auto

lemma runs_of_runs [simp]: "rs \<noteq> [] \<Longrightarrow> runs (of_runs rs) = rs"
  by (simp add: of_runs_def runs_eq_runs_from runs_from_gaps_between)

lemma sep_hd_le_last: "sep rs \<Longrightarrow> rs \<noteq> [] \<Longrightarrow> gMin (hd rs) \<le> gMax (last rs)"
proof (induction rs rule: rev_induct)
  case (snoc x xs)
  show ?case
  proof (cases "xs = []")
    case False
    then have "apart (last xs) x" "okrun x" "gMin (hd xs) \<le> gMax (last xs)" using snoc by auto
    then show ?thesis
      using False by (simp add: apart_def okrun_alt blk_simps hd_append)
  qed (use snoc in \<open>auto simp: okrun_alt\<close>)
qed simp

lemma valid_loop_sep: "valid_loop mx lo gs \<longleftrightarrow> sep (runs_from lo mx gs)"
proof (induction gs arbitrary: lo)
  case Nil
  show ?case by (simp add: okrun_def)
next
  case (Cons g gs)
  obtain s rs where s: "runs_from (block_next (gMax g)) mx gs = s # rs"
    by (metis list.exhaust runs_from_ends(1))
  then have smin: "gMin s = block_next (gMax g)" by (metis list.sel(1) runs_from_ends(2))
  have smax: "sep (s # rs) \<Longrightarrow> block_next (gMax g) \<le> mx"
    using sep_hd_le_last[of "s # rs"] smin s by (metis list.distinct(1) list.sel(1) runs_from_ends(3))
  show ?case (is "?L \<longleftrightarrow> ?R")
  proof
    assume L: ?L
    then have g: "gMin g \<le> gMax g" "lo < gMin g" "gMax g < mx" "validRun lo (block_prev (gMin g))"
      "sep (s # rs)" using Cons.IH[of "block_next (gMax g)"] s by (auto split: if_splits)
    have "apart (Gap lo (block_prev (gMin g))) s"
      using g addr_next[OF g(3)] addr_prev[OF g(2)] smin by (auto simp: apart_def blk_simps)
    with g s show ?R by (auto simp: sep_Cons2 okrun_def simp del: sep_simps(2))
  next
    assume R: ?R
    then have r: "validRun lo (block_prev (gMin g))" "apart (Gap lo (block_prev (gMin g))) s" "sep (s # rs)"
      using s by (auto simp: okrun_def)
    have "addr (block_prev (gMin g)) + 1 < addr (block_next (gMax g))"
      using r(2) smin by (simp add: apart_def)
    then have lt: "addr (block_prev (gMin g)) < addr (block_next (gMax g))" by simp
    have p: "addr (gMin g) = addr (block_prev (gMin g)) + 1"
      using addr_next[of "block_prev (gMin g)"] lt by (metis addr_less block_next_prev(1))
    have n: "addr (block_next (gMax g)) = addr (gMax g) + 1"
    proof -
      have "addr (block_prev (block_next (gMax g))) = addr (block_next (gMax g)) - 1"
        using lt addr_prev by (metis addr_less)
      with lt show ?thesis by simp
    qed
    have "addr lo \<le> addr (block_prev (gMin g))" using r(1) by (auto simp: validRun_def blk_simps)
    moreover have "block_next (gMax g) \<le> mx" using r(3) by (rule smax)
    ultimately have "gMin g \<le> gMax g" "lo < gMin g" "gMax g < mx"
      using p n \<open>addr (block_prev (gMin g)) + 1 < _\<close> by (auto simp: blk_simps)
    then show ?L using r(1,3) Cons.IH[of "block_next (gMax g)"] s by auto
  qed
qed

lemma Valid_iff_sep: "Valid iv \<longleftrightarrow> sep (runs iv)"
  using sep_hd_le_last[of "runs iv"]
  by (auto simp: Valid_def valid_loop_sep runs_eq_runs_from simp del: sep_simps)

lemma Valid_of_runs: "rs \<noteq> [] \<Longrightarrow> Valid (of_runs rs) \<longleftrightarrow> sep rs"
  by (simp add: Valid_iff_sep)

lemma blocks_of_runs: "rs \<noteq> [] \<Longrightarrow> sep rs \<Longrightarrow> blocks (of_runs rs) = rset rs"
  by (simp add: blocks_def Valid_of_runs)

lemma unset_invalid [simp]: "\<not> Valid unset" "blocks unset = {}"
  by (auto simp: unset_def blocks_def Valid_def validRun_def)

subsection \<open>Contains is inclusion\<close>

lemma rset_bounds:
  assumes "sep (r # rs)" and "b \<in> rset (r # rs)"
  shows "gMin r \<le> b"
  using assms by (auto simp: rset_def apart_def okrun_alt blk_simps)

lemma rset_apart:
  assumes "sep (r # rs)" and "b \<in> rset rs"
  shows "addr (gMax r) + 1 < addr b"
  using assms by (fastforce simp: rset_def apart_def blk_simps)

lemma rset_minI: "okrun r \<Longrightarrow> gMin r \<in> {gMin r..gMax r}"
  by (simp add: okrun_le)

lemma contains_loop_correct:
  "sep hs \<Longrightarrow> sep rs \<Longrightarrow> contains_loop hs rs \<longleftrightarrow> rset rs \<subseteq> rset hs"
proof (induction rs arbitrary: hs)
  case (Cons r rs)
  let ?P = "\<lambda>h. block_less (gMax h) (gMin r)"
  define ds ks where "ds = takeWhile ?P hs" and "ks = dropWhile ?P hs"
  have hs: "hs = ds @ ks" by (simp add: ds_def ks_def)
  have ds: "\<forall>b \<in> rset ds. b < gMin r"
    by (auto simp: ds_def rset_def dest!: set_takeWhileD)
  have r: "okrun r" "gMin r \<le> gMax r" using Cons.prems(2) by (auto simp: okrun_le)
  have rset_r: "\<forall>b \<in> rset (r # rs). gMin r \<le> b" using rset_bounds[OF Cons.prems(2)] by blast
  have sub: "rset (r # rs) \<subseteq> rset hs \<longleftrightarrow> rset (r # rs) \<subseteq> rset ks"
    using ds rset_r unfolding hs by fastforce
  have step: "contains_loop hs (r # rs) \<longleftrightarrow>
      (case ks of [] \<Rightarrow> False | h # hs' \<Rightarrow>
         if gMin r < gMin h \<or> gMax h < gMax r then False else contains_loop (h # hs') rs)"
    by (simp add: ks_def cong: list.case_cong)
  show ?case
  proof (cases ks)
    case Nil
    then have "\<not> rset (r # rs) \<subseteq> rset ks" using r by auto
    then show ?thesis unfolding step sub by (simp add: Nil)
  next
    case (Cons h hs')
    have h: "gMin r \<le> gMax h"
      using hd_dropWhile[of ?P hs] Cons unfolding ks_def by (metis block_less_iff list.distinct(1) list.sel(1) not_less)
    have seph: "sep (h # hs')" using Cons.prems(1) hs Cons by simp
    then have after: "\<forall>b \<in> rset hs'. addr (gMax h) + 1 < addr b" using rset_apart by blast
    show ?thesis
    proof (cases "gMin r < gMin h \<or> gMax h < gMax r")
      case True
      have "\<not> rset (r # rs) \<subseteq> rset ks"
      proof
        assume inc: "rset (r # rs) \<subseteq> rset ks"
        from True show False
        proof
          assume "gMin r < gMin h"
          moreover have "gMin r \<in> rset ks" using inc r by auto
          ultimately show False using Cons seph rset_bounds[OF seph, of "gMin r"] by auto
        next
          assume lt: "gMax h < gMax r"
          let ?n = "block_next (gMax h)"
          have n: "addr ?n = addr (gMax h) + 1" by (rule addr_next[OF lt])
          then have "?n \<in> rset (r # rs)" using lt h by (auto simp: blk_simps)
          then have "?n \<in> rset (h # hs')" using inc Cons by auto
          then show False using n after by (auto simp: blk_simps)
        qed
      qed
      then show ?thesis unfolding step sub using True by (simp add: Cons)
    next
      case False
      then have rh: "{gMin r..gMax r} \<subseteq> {gMin h..gMax h}" by auto
      have "contains_loop (h # hs') rs \<longleftrightarrow> rset rs \<subseteq> rset (h # hs')"
        using Cons.IH[OF seph] Cons.prems(2) by simp
      also have "\<dots> \<longleftrightarrow> rset (r # rs) \<subseteq> rset ks" using rh Cons by auto
      finally show ?thesis unfolding step sub using False by (simp add: Cons)
    qed
  qed
qed simp

lemma Contains_iff: "Contains iv w \<longleftrightarrow> Valid iv \<and> Valid w \<and> blocks w \<subseteq> blocks iv"
  by (auto simp: Contains_def blocks_def Valid_iff_sep contains_loop_correct)

subsection \<open>fromRuns builds the canonical interval of a union of runs\<close>

interpretation rk: keyed "\<lambda>r. (gMin r, gMax r)" compareRuns
  by unfold_locales (auto simp: compareRuns_def Let_def block_Compare_sign)

lemma okrun_merge:
  assumes "okrun m" "okrun r" "gMin m \<le> gMin r" "\<not> gMax m < block_prev (gMin r)"
  shows "okrun (Gap (gMin m) (max (gMax m) (gMax r)))"
    and "{gMin m..max (gMax m) (gMax r)} = {gMin m..gMax m} \<union> {gMin r..gMax r}"
proof -
  have prev: "block_prev (gMin r) = Block (bTerm (gMin r)) (bN (gMin r) - 1)"
    using assms(2) by (auto simp: okrun_alt block_prev_def)
  have "bTerm (gMax m) = bTerm (gMin r)"
    using assms prev by (auto simp: okrun_alt less_Block_def less_eq_Block_def)
  then show "okrun (Gap (gMin m) (max (gMax m) (gMax r)))"
    using assms(1,2) by (simp add: okrun_alt max_def blk_simps)
  have "Block (bTerm (gMin r)) 0 < gMin r"
    using assms(2) by (cases "gMin r") (auto simp: okrun_alt less_Block_def word_gt_0)
  then have "addr (gMin r) \<le> addr (gMax m) + 1"
    using addr_prev[of _ "gMin r"] assms(4) by (fastforce simp: blk_simps)
  then show "{gMin m..max (gMax m) (gMax r)} = {gMin m..gMax m} \<union> {gMin r..gMax r}"
    using assms(3) okrun_le[OF assms(1)] okrun_le[OF assms(2)]
    by (auto simp: blk_simps max_def)
qed

lemma merge_runs_ne [simp]: "merge_runs m rs \<noteq> []"
  by (induction m rs rule: merge_runs.induct) auto

lemma merge_runs_correct:
  assumes "okrun m" "\<forall>r \<in> set rs. okrun r" "sorted (map gMin (m # rs))"
  shows "sep (merge_runs m rs) \<and> rset (merge_runs m rs) = rset (m # rs) \<and>
         gMin (hd (merge_runs m rs)) = gMin m"
  using assms
proof (induction m rs rule: merge_runs.induct)
  case (2 m r rs)
  show ?case
  proof (cases "gMax m < block_prev (gMin r)")
    case True
    have IH: "sep (merge_runs r rs)" "rset (merge_runs r rs) = rset (r # rs)"
      "gMin (hd (merge_runs r rs)) = gMin r" using 2 True by auto
    have "Block (bTerm (gMin r)) 0 < gMin r"
      using 2(4) by (cases "gMin r") (auto simp: okrun_alt less_Block_def word_gt_0)
    then have "addr (block_prev (gMin r)) + 1 = addr (gMin r)"
      using addr_prev[of "Block (bTerm (gMin r)) 0" "gMin r"] by (simp add: blk_simps)
    then have gap: "addr (gMax m) + 1 < addr (gMin r)" using True by (simp add: blk_simps)
    obtain x xs where x: "merge_runs r rs = x # xs" by (metis list.exhaust merge_runs_ne)
    then have "apart m x" using gap IH(3) by (simp add: apart_def)
    then show ?thesis using True IH x 2(3) by (auto simp: sep_Cons2 simp del: sep_simps(2))
  next
    case False
    have le: "gMin m \<le> gMin r" using 2(5) by simp
    note ok = okrun_merge[OF 2(3) _ le False]
    have "sep (merge_runs (Gap (gMin m) (max (gMax m) (gMax r))) rs) \<and>
      rset (merge_runs (Gap (gMin m) (max (gMax m) (gMax r))) rs) =
        rset (Gap (gMin m) (max (gMax m) (gMax r)) # rs) \<and>
      gMin (hd (merge_runs (Gap (gMin m) (max (gMax m) (gMax r))) rs)) = gMin m"
      using 2(1) 2(4,5) False ok(1) by auto
    then show ?thesis using False ok(2) 2(4) by auto
  qed
qed auto

lemma fromRuns_correct:
  assumes "rs \<noteq> []" "\<forall>r \<in> set rs. okrun r"
  shows "Valid (fromRuns rs)" and "blocks (fromRuns rs) = rset rs"
proof -
  define ss where "ss = sort_func compareRuns rs"
  have set: "set ss = set rs" by (simp add: ss_def rk.sort_func_set)
  then obtain m ms where ss: "ss = m # ms" using assms(1) by (cases ss) auto
  have "sorted (map (\<lambda>r. (gMin r, gMax r)) ss)" by (simp add: ss_def rk.sort_func_sorted)
  then have "sorted_wrt (\<lambda>a b. (gMin a, gMax a) \<le> (gMin b, gMax b)) (m # ms)"
    unfolding ss sorted_map .
  then have "sorted_wrt (\<lambda>a b. gMin a \<le> gMin b) (m # ms)"
    by (rule sorted_wrt_mono_rel[rotated]) auto
  then have "sorted (map gMin (m # ms))" unfolding sorted_map .
  then have m: "sep (merge_runs m ms)" "rset (merge_runs m ms) = rset (m # ms)"
    using merge_runs_correct[of m ms] assms(2) set ss by auto
  have "fromRuns rs = of_runs (merge_runs m ms)"
    using assms set ss by (auto simp: fromRuns_def ss_def[symmetric] okrun_alt)
  moreover have "rset ss = rset rs" using set by (simp add: rset_def)
  ultimately show "Valid (fromRuns rs)" and "blocks (fromRuns rs) = rset rs"
    using m ss by (simp_all add: Valid_of_runs blocks_of_runs)
qed

lemma fromRuns_Nil [simp]: "fromRuns [] = unset"
  by (simp add: fromRuns_def)

lemma appendRuns_app: "appendRuns dst iv = dst @ runs iv"
  by (simp add: appendRuns_def)

lemma Valid_runs_ok: "Valid iv \<Longrightarrow> r \<in> set (runs iv) \<Longrightarrow> okrun r"
  by (simp add: Valid_iff_sep sep_def)

lemma Union_correct:
  shows "Valid (Interval_Union a b) \<longleftrightarrow> Valid a \<or> Valid b"
    and "blocks (Interval_Union a b) = blocks a \<union> blocks b"
proof -
  have "Valid (fromRuns (runs a @ runs b)) \<and> blocks (fromRuns (runs a @ runs b)) = blocks a \<union> blocks b"
    if "Valid a" "Valid b"
  proof -
    have "\<forall>r \<in> set (runs a @ runs b). okrun r" using that Valid_runs_ok by auto
    from fromRuns_correct[OF _ this] show ?thesis using that by (simp add: blocks_def)
  qed
  moreover have "\<not> Valid x \<Longrightarrow> blocks x = {}" for x by (simp add: blocks_def)
  ultimately show "Valid (Interval_Union a b) \<longleftrightarrow> Valid a \<or> Valid b"
    and "blocks (Interval_Union a b) = blocks a \<union> blocks b"
    by (simp_all add: Interval_Union_def appendRuns_app[of "runs a"])
qed

subsection \<open>The canonical form is unique\<close>

lemma sep_unique_max:
  assumes "sep (r # rs)" "sep (s # ss)" "rset (r # rs) \<supseteq> rset (s # ss)" "gMin r = gMin s"
  shows "gMax s \<le> gMax r"
proof (rule ccontr)
  assume "\<not> gMax s \<le> gMax r"
  then have lt: "gMax r < gMax s" by simp
  let ?n = "block_next (gMax r)"
  have n: "addr ?n = addr (gMax r) + 1" by (rule addr_next[OF lt])
  moreover have "gMin r \<le> gMax r" using assms(1) by (simp add: okrun_le)
  ultimately have "?n \<in> {gMin s..gMax s}" using lt assms(4) by (auto simp: blk_simps)
  then have "?n \<in> rset (r # rs)" using assms(3) by auto
  then show False using n rset_apart[OF assms(1), of ?n] by (auto simp: blk_simps)
qed

lemma sep_unique: "sep rs \<Longrightarrow> sep ss \<Longrightarrow> rset rs = rset ss \<Longrightarrow> rs = ss"
proof (induction rs arbitrary: ss)
  case Nil
  then show ?case by (cases ss) (auto dest: okrun_le)
next
  case (Cons r rs)
  have "gMin r \<in> rset ss" using Cons.prems(1,3) by (auto simp: okrun_le)
  then obtain s ss' where ss: "ss = s # ss'" by (cases ss) auto
  have smin: "gMin s \<in> rset (r # rs)" using Cons.prems(2,3) ss by (auto simp: okrun_le)
  have sep2: "sep (s # ss')" and eq: "rset (r # rs) = rset (s # ss')"
    using Cons.prems ss by (simp_all only:)
  have min: "gMin r = gMin s"
    using rset_bounds[OF Cons.prems(1) smin] rset_bounds[OF sep2, of "gMin r"] ss
      \<open>gMin r \<in> rset ss\<close> by simp
  have "gMax r = gMax s"
    using sep_unique_max[OF Cons.prems(1) sep2 _ min] sep_unique_max[OF sep2 Cons.prems(1) _ min[symmetric]]
    by (simp only: eq order_refl order_antisym)
  with min have rs: "r = s" by (simp add: Gap.expand)
  have rest: "rset xs = rset (x # xs) - {..gMax x}" if "sep (x # xs)" for x xs
    using rset_apart[OF that] by (fastforce simp: blk_simps)
  have "rset rs = rset ss'" using rest[OF Cons.prems(1)] rest[of s ss'] Cons.prems ss rs by simp
  then show ?case using Cons.IH[of ss'] Cons.prems ss rs by simp
qed

lemma blocks_inj: "Valid a \<Longrightarrow> Valid b \<Longrightarrow> blocks a = blocks b \<longleftrightarrow> a = b"
  by (metis Valid_iff_sep blocks_def of_runs_runs sep_unique)

lemma Equal_iff [simp]: "Equal a b \<longleftrightarrow> a = b"
  by (cases a; cases b) (simp add: Equal_def)

lemma blocks_empty_iff: "blocks iv = {} \<longleftrightarrow> \<not> Valid iv"
proof -
  have "Valid iv \<Longrightarrow> iMin iv \<in> blocks iv"
    using sep_hd_le_last runs_ends(1,2)[of iv]
    by (cases "runs iv") (auto simp: blocks_def Valid_iff_sep dest: okrun_le)
  then show ?thesis by (auto simp: blocks_def)
qed

subsection \<open>Intersection\<close>

lemma okrun_intersect:
  assumes "okrun r" "okrun s" "max (gMin r) (gMin s) \<le> min (gMax r) (gMax s)"
  shows "okrun (Gap (max (gMin r) (gMin s)) (min (gMax r) (gMax s)))"
proof -
  have "gMin r \<le> gMax s" "gMin s \<le> gMax r" using assms(3) by simp_all
  then have "bTerm (gMin r) = bTerm (gMin s)"
    using assms(1,2) by (auto simp: okrun_alt less_eq_Block_def)
  then have "bTerm (max (gMin r) (gMin s)) = bTerm (min (gMax r) (gMax s))"
    using assms(1,2) by (auto simp: okrun_alt min_def max_def)
  then show ?thesis using assms by (auto simp: okrun_alt max_def)
qed

lemma intersect_loop_correct:
  "sep as \<Longrightarrow> sep bs \<Longrightarrow>
   (\<forall>r \<in> set (intersect_loop as bs). okrun r) \<and> rset (intersect_loop as bs) = rset as \<inter> rset bs"
proof (induction as bs rule: intersect_loop.induct)
  case (1 ra as rb bs)
  have aft: "\<forall>b \<in> rset as. gMax ra < b" "\<forall>b \<in> rset bs. gMax rb < b"
    using rset_apart[OF 1(3)] rset_apart[OF 1(4)] by (auto simp: blk_simps dest: Suc_lessD)
  let ?lo = "max (gMin ra) (gMin rb)" and ?hi = "min (gMax ra) (gMax rb)"
  have ok: "?lo \<le> ?hi \<Longrightarrow> okrun (Gap ?lo ?hi)" using okrun_intersect 1(3,4) by simp
  define rest where "rest = (if gMax ra < gMax rb then intersect_loop as (rb # bs)
                             else intersect_loop (ra # as) bs)"
  have loop: "intersect_loop (ra # as) (rb # bs) = (if ?lo \<le> ?hi then Gap ?lo ?hi # rest else rest)"
    by (simp add: rest_def Let_def not_less)
  have rest: "(\<forall>r \<in> set rest. okrun r) \<and>
      rset rest = (if gMax ra < gMax rb then rset as \<inter> rset (rb # bs) else rset (ra # as) \<inter> rset bs)"
    using 1 by (auto simp: rest_def)
  have "{?lo..?hi} \<union> rset rest = rset (ra # as) \<inter> rset (rb # bs)"
    using rest aft by (cases "gMax ra < gMax rb") (auto simp: not_less, (force simp: not_less)+)
  then show ?case unfolding loop using ok rest by (cases "?lo \<le> ?hi") auto
qed auto

lemma intersect_correct:
  shows "blocks (intersect a b) = blocks a \<inter> blocks b"
    and "Valid (intersect a b) \<longleftrightarrow> blocks a \<inter> blocks b \<noteq> {}"
proof -
  show blocks: "blocks (intersect a b) = blocks a \<inter> blocks b"
  proof (cases "Valid a \<and> Valid b")
    case True
    then have loop: "\<forall>r \<in> set (intersect_loop (runs a) (runs b)). okrun r"
      "rset (intersect_loop (runs a) (runs b)) = blocks a \<inter> blocks b"
      using intersect_loop_correct[of "runs a" "runs b"] by (auto simp: Valid_iff_sep blocks_def)
    then show ?thesis
      using True fromRuns_correct(2)[OF _ loop(1)]
      by (cases "intersect_loop (runs a) (runs b) = []") (auto simp: intersect_def)
  qed (auto simp: intersect_def blocks_def)
  then show "Valid (intersect a b) \<longleftrightarrow> blocks a \<inter> blocks b \<noteq> {}"
    by (metis blocks_empty_iff)
qed

lemma meets_iff: "meets a b \<longleftrightarrow> blocks a \<inter> blocks b \<noteq> {}"
  by (simp add: meets_def intersect_correct)

subsection \<open>Size and enumeration\<close>

text \<open>The blocks of one run, in order.\<close>

definition run_list :: "Gap \<Rightarrow> Block list" where
  "run_list r = map (Block (bTerm (gMin r))) (word_range (bN (gMin r)) (bN (gMax r)))"

lemma run_list_set: "okrun r \<Longrightarrow> set (run_list r) = {gMin r..gMax r}"
proof -
  assume "okrun r"
  then have t: "bTerm (gMin r) = bTerm (gMax r)" by (simp add: okrun_alt)
  have "b \<in> Block (bTerm (gMin r)) ` {bN (gMin r)..bN (gMax r)}" if "gMin r \<le> b" "b \<le> gMax r" for b
    using that t by (cases b) (auto simp: less_eq_Block_def)
  moreover have "gMin r \<le> Block (bTerm (gMin r)) n \<and> Block (bTerm (gMin r)) n \<le> gMax r"
    if "bN (gMin r) \<le> n" "n \<le> bN (gMax r)" for n
    using that t by (auto simp: less_eq_Block_def)
  ultimately show ?thesis by (auto simp: run_list_def word_range_set)
qed

lemma run_list_sorted: "sorted_wrt (<) (run_list r)"
  unfolding run_list_def sorted_wrt_map
  by (rule sorted_wrt_mono_rel[OF _ word_range_sorted]) (simp add: less_Block_def)

lemma run_list_concat:
  assumes "sep rs"
  shows "concat (map run_list rs) = sorted_list_of_set (rset rs)"
proof -
  have "set (concat (map run_list rs)) = rset rs"
    using assms run_list_set by (auto simp: sep_def rset_def)
  moreover have "sorted_wrt (<) (concat (map run_list rs))"
    using assms
  proof (induction rs)
    case (Cons r rs)
    have "a < b" if "a \<in> set (run_list r)" "b \<in> set (concat (map run_list rs))" for a b
    proof -
      have "b \<in> rset rs" using that(2) Cons.prems run_list_set by (auto simp: sep_def rset_def)
      then have "gMax r < b" using rset_apart[OF Cons.prems] by (auto simp: blk_simps dest: Suc_lessD)
      moreover have "a \<le> gMax r" using that(1) Cons.prems run_list_set by auto
      ultimately show ?thesis by simp
    qed
    then show ?case using Cons run_list_sorted by (auto simp: sorted_wrt_append)
  qed simp
  ultimately show ?thesis
    by (metis List.finite_set sorted_list_of_set.set_sorted_key_list_of_set
        strict_sorted_equal sorted_list_of_set.strict_sorted_key_list_of_set)
qed

lemma blocks_finite [simp]: "finite (blocks iv)"
  using run_list_set Valid_runs_ok by (auto simp: blocks_def rset_def) (metis List.finite_set)

lemma each_run_fold:
  "n \<le> hi \<Longrightarrow> each_run t n hi (\<lambda>b s. (f b s, True)) s = (fold f (map (Block t) (word_range n hi)) s, True)"
proof (induction t n hi "\<lambda>b s. (f b s, True)" s rule: each_run.induct)
  case (1 t n hi s)
  show ?case
  proof (cases "n = hi")
    case True
    then show ?thesis by (simp add: each_run.simps[of t hi hi] word_range_self)
  next
    case False
    then have lt: "n < hi" using 1(2) by simp
    then have "n + 1 \<le> hi" by (metis inc_le)
    then show ?thesis
      using 1(1)[OF refl] False by (simp add: each_run.simps[of t n] word_range_step[OF lt])
  qed
qed

lemma Each_fold: "Each iv (\<lambda>b s. (f b s, True)) s = fold f (sorted_list_of_set (blocks iv)) s"
proof (cases "Valid iv")
  case True
  have "each_runs rs (\<lambda>b s. (f b s, True)) s = fold f (concat (map run_list rs)) s"
    if "\<forall>r \<in> set rs. okrun r" for rs s
    using that
  proof (induction rs arbitrary: s)
    case (Cons r rs)
    have "bN (gMin r) \<le> bN (gMax r)" using Cons.prems by (auto simp: okrun_alt less_eq_Block_def)
    then show ?case using Cons by (simp add: each_run_fold run_list_def)
  qed simp
  from this[of "runs iv"] show ?thesis
    using True run_list_concat[of "runs iv"] Valid_runs_ok
    by (simp add: Each_def blocks_def Valid_iff_sep)
qed (simp add: Each_def blocks_def)

lemma Len_card: "Len iv = of_nat (card (blocks iv))"
proof (cases "Valid iv")
  case True
  have one: "(bN (gMax r) - bN (gMin r) + 1 :: u64) = of_nat (length (run_list r))" if "okrun r" for r
  proof -
    have le: "bN (gMin r) \<le> bN (gMax r)" using that by (auto simp: okrun_alt less_eq_Block_def)
    then have "unat (bN (gMax r)) - unat (bN (gMin r)) = unat (bN (gMax r) - bN (gMin r))"
      by (simp add: unat_sub)
    then show ?thesis using le by (simp add: run_list_def word_range_def word_le_nat_alt Suc_diff_le)
  qed
  have "foldl (\<lambda>n r. n + (bN (gMax r) - bN (gMin r) + 1)) a rs = a + of_nat (length (concat (map run_list rs)))"
    if "\<forall>r \<in> set rs. okrun r" for rs and a :: u64
    using that by (induction rs arbitrary: a) (simp_all add: one add.assoc)
  moreover have "length (concat (map run_list (runs iv))) = card (blocks iv)"
    using run_list_concat[of "runs iv"] True by (simp add: Valid_iff_sep blocks_def)
  ultimately show ?thesis
    using True Valid_runs_ok by (simp add: Len_def)
qed (simp add: Len_def blocks_def)

lemma Single_props:
  "bN b \<noteq> 0 \<Longrightarrow> Valid (Single b)" "bN b \<noteq> 0 \<Longrightarrow> blocks (Single b) = {b}"
  by (auto simp: Single_def Valid_iff_sep blocks_def runs_eq_runs_from okrun_alt)

lemma Range_props:
  assumes "lo \<noteq> 0" "lo \<le> hi"
  shows "Valid (Range t lo hi)" "blocks (Range t lo hi) = Block t ` {lo..hi}"
proof -
  have ok: "okrun (Gap (Block t lo) (Block t hi))" using assms by (simp add: okrun_alt less_eq_Block_def)
  then show "Valid (Range t lo hi)" by (simp add: Range_def Valid_iff_sep runs_eq_runs_from)
  then show "blocks (Range t lo hi) = Block t ` {lo..hi}"
    using run_list_set[OF ok] by (simp add: Range_def blocks_def runs_eq_runs_from run_list_def word_range_set)
qed

lemma TermBlocks_props:
  assumes "nums \<noteq> []" "0 \<notin> set nums"
  shows "Valid (TermBlocks t nums)" "blocks (TermBlocks t nums) = Block t ` set nums"
proof -
  have "\<forall>r \<in> set (map (\<lambda>n. Gap (Block t n) (Block t n)) nums). okrun r"
    using assms(2) by (auto simp: okrun_alt)
  from fromRuns_correct[OF _ this] show "Valid (TermBlocks t nums)" "blocks (TermBlocks t nums) = Block t ` set nums"
    using assms by (auto simp: TermBlocks_def rset_def)
qed


subsection \<open>Properties of intervals\<close>


text \<open>C26. The bounds-and-gaps form is canonical: two valid intervals that cover the same blocks are
  the same value, so identities can be compared field by field and used as cache keys.\<close>

theorem interval_canonical:
  assumes "Valid a" "Valid b" "blocks a = blocks b"
  shows "a = b \<and> Equal a b"
  using blocks_inj[OF assms(1,2)] assms(3) by simp

theorem interval_canonical_witness:
  "TermBlocks 3 [2, 1, 2] = Interval_Union (Single (Block 3 1)) (Single (Block 3 2)) \<and>
   Equal (TermBlocks 3 [2, 1, 2]) (Interval_Union (Single (Block 3 1)) (Single (Block 3 2)))"
proof -
  have V: "Valid (TermBlocks 3 [2, 1, 2])" "Valid (Interval_Union (Single (Block 3 1)) (Single (Block 3 2)))"
    by (simp_all add: Union_correct TermBlocks_props Single_props)
  have "blocks (TermBlocks 3 [2, 1, 2]) = blocks (Interval_Union (Single (Block 3 1)) (Single (Block 3 2)))"
    by (simp add: Union_correct TermBlocks_props Single_props insert_commute)
  from interval_canonical[OF V this] show ?thesis by simp
qed

text \<open>\<open>Each\<close> visits every covered block once, in ascending order, and \<open>Len\<close> is their number
  (modulo the width of the counter it is returned in).\<close>

lemma interval_enumeration:
  "Each iv (\<lambda>b seen. (seen @ [b], True)) [] = sorted_list_of_set (blocks iv) \<and>
   Len iv = of_nat (card (blocks iv))"
proof -
  have "fold (\<lambda>b seen. seen @ [b]) xs acc = acc @ xs" for xs acc :: "Block list"
    by (induction xs arbitrary: acc) simp_all
  then show ?thesis by (simp add: Each_fold Len_card)
qed

end
