(* ===== verification/Index_Model.thy ===== *)
theory Index_Model
  imports Blocks
begin

text \<open>
  The index a prefix's writers share (\<^verbatim>\<open>backend/bucketindex\<close>): its records, and the operations on
  its four sorted tables (entries, tombstones, writer watermarks, wants).

  Each table is kept by binary search. The interpretations of \<open>keyed\<close> below read a table as a
  partial map, and \<open>index_sorted\<close> is the invariant every operation keeps.
\<close>

subsection \<open>Generations (generation.go)\<close>

datatype Generation = Generation (gTerm: u64) (gCounter: u64)

definition gen_Compare :: "Generation \<Rightarrow> Generation \<Rightarrow> int" where
  "gen_Compare g h =
     (if gTerm g \<noteq> gTerm h then (if gTerm g > gTerm h then 1 else - 1)
      else if gCounter g \<noteq> gCounter h then (if gCounter g > gCounter h then 1 else - 1)
      else 0)"

definition gen_Zero :: "Generation \<Rightarrow> bool" where
  "gen_Zero g \<longleftrightarrow> g = Generation 0 0"

definition gen_Next :: "Generation \<Rightarrow> u64 \<Rightarrow> Generation" where
  "gen_Next g t = (if t > gTerm g then Generation t 1 else Generation (gTerm g) (gCounter g + 1))"

instantiation Generation :: linorder
begin

definition less_eq_Generation :: "Generation \<Rightarrow> Generation \<Rightarrow> bool" where
  "less_eq_Generation a b \<longleftrightarrow> (gTerm a, gCounter a) \<le> (gTerm b, gCounter b)"

definition less_Generation :: "Generation \<Rightarrow> Generation \<Rightarrow> bool" where
  "less_Generation a b \<longleftrightarrow> (gTerm a, gCounter a) < (gTerm b, gCounter b)"

instance
  by standard (auto simp: less_eq_Generation_def less_Generation_def Generation.expand)

end

subsection \<open>Claims, layouts, entries (block.go, rollup.go, bucketindex.go)\<close>

record Claim =
  cBlocks :: Interval
  cGroup :: Interval

definition no_claim :: Claim where
  "no_claim = \<lparr>cBlocks = unset, cGroup = unset\<rparr>"

definition claim_Valid :: "Claim \<Rightarrow> bool" where
  "claim_Valid c \<longleftrightarrow> Valid (cBlocks c) \<and> Valid (cGroup c)"

definition claim_Equal :: "Claim \<Rightarrow> Claim \<Rightarrow> bool" where
  "claim_Equal c d \<longleftrightarrow> Equal (cBlocks c) (cBlocks d) \<and> Equal (cGroup c) (cGroup d)"

datatype RollupTier = RollupTier (tBefore: i64) (tInterval: i64) (tAgg: u8)

datatype Rollup = Rollup (Tiers: "RollupTier list")

record Entry =
  ePrefix :: bytes
  eMinTime :: i64
  eMaxTime :: i64
  eBlocks :: Interval
  eLevel :: u32
  eClaim :: Claim
  eTerm :: u64
  eRollup :: "Rollup option"
  eHole :: bool

definition Data :: "Entry \<Rightarrow> bool" where
  "Data e \<longleftrightarrow> \<not> eHole e"

text \<open>The zero \<^verbatim>\<open>Entry{}\<close>, which the lookups that find nothing return.\<close>

definition no_entry :: Entry where
  "no_entry = \<lparr>ePrefix = [], eMinTime = 0, eMaxTime = 0, eBlocks = unset, eLevel = 0,
     eClaim = no_claim, eTerm = 0, eRollup = None, eHole = False\<rparr>"

subsection \<open>Removals, watermarks, wants (removal.go, epoch.go, want.go)\<close>

record Removal =
  rPrefix :: bytes
  rGen :: Generation

record WriterEpoch =
  wWriter :: bytes
  wEpoch :: u64
  wGen :: Generation

record Want =
  wPrefix :: bytes
  wBlocks :: Interval
  wClaim :: Claim
  wLevel :: u32
  wTerm :: u64
  wMinTime :: i64
  wMaxTime :: i64
  wGeneration :: Generation

record Index =
  Entries :: "Entry list"
  FlushedEpoch :: u64
  IGeneration :: Generation
  Removed :: "Removal list"
  Epochs :: "WriterEpoch list"
  Wanted :: "Want list"
  LostParts :: u64
  AllocatedBlocks :: Block
  Catalog :: "Claim list"

definition empty_index :: Index where
  "empty_index = \<lparr>Entries = [], FlushedEpoch = 0, IGeneration = Generation 0 0, Removed = [],
     Epochs = [], Wanted = [], LostParts = 0, AllocatedBlocks = Block 0 0, Catalog = []\<rparr>"

subsection \<open>The entry table\<close>

definition compareEntryPrefix :: "Entry \<Rightarrow> Entry \<Rightarrow> int" where
  "compareEntryPrefix a b = cmp_compare (ePrefix a) (ePrefix b)"

definition Add :: "Index \<Rightarrow> Entry \<Rightarrow> Index" where
  "Add ix e = ix\<lparr>Entries := put_sorted compareEntryPrefix (Entries ix) e\<rparr>"

definition Remove :: "Index \<Rightarrow> bytes \<Rightarrow> Index \<times> bool" where
  "Remove ix p =
     (case del_sorted compareEntryPrefix (Entries ix) (no_entry\<lparr>ePrefix := p\<rparr>) of (es, ok) \<Rightarrow>
        (ix\<lparr>Entries := es\<rparr>, ok))"

definition Overlapping :: "Index \<Rightarrow> i64 \<Rightarrow> i64 \<Rightarrow> Entry list" where
  "Overlapping ix start end' =
     filter (\<lambda>e. sint (eMinTime e) \<le> sint end' \<and> sint (eMaxTime e) \<ge> sint start) (Entries ix)"

definition Holes :: "Index \<Rightarrow> Entry list" where
  "Holes ix = filter eHole (Entries ix)"

subsection \<open>Tombstones\<close>

definition MaxRemovals :: nat where "MaxRemovals = 4096"

definition compareRemovalPrefix :: "Removal \<Rightarrow> Removal \<Rightarrow> int" where
  "compareRemovalPrefix a b =
     (if rPrefix a < rPrefix b then - 1 else if rPrefix a > rPrefix b then 1 else 0)"

definition Tombstone :: "Index \<Rightarrow> Removal \<Rightarrow> Index" where
  "Tombstone ix r = ix\<lparr>Removed := put_sorted compareRemovalPrefix (Removed ix) r\<rparr>"

definition Removals :: "Index \<Rightarrow> bytes set" where
  "Removals ix = rPrefix ` set (Removed ix)"

definition RecordsRemovals :: "Index \<Rightarrow> bool" where
  "RecordsRemovals ix \<longleftrightarrow> \<not> gen_Zero (IGeneration ix)"

definition compareRemovalNewest :: "Removal \<Rightarrow> Removal \<Rightarrow> int" where
  "compareRemovalNewest a b = gen_Compare (rGen b) (rGen a)"

definition TrimRemovals :: "Removal list \<Rightarrow> bytes set \<Rightarrow> nat \<Rightarrow> Removal list" where
  "TrimRemovals removals live keep =
     (let out = filter (\<lambda>r. rPrefix r \<notin> live) removals;
          out' = (if length out > keep then take keep (sort_func compareRemovalNewest out) else out)
      in sort_func compareRemovalPrefix out')"

subsection \<open>Writer watermarks\<close>

definition MaxWriters :: nat where "MaxWriters = 64"

definition compareWriter :: "WriterEpoch \<Rightarrow> WriterEpoch \<Rightarrow> int" where
  "compareWriter a b =
     (if wWriter a < wWriter b then - 1 else if wWriter a > wWriter b then 1 else 0)"

definition Writer_Epoch :: "Index \<Rightarrow> bytes \<Rightarrow> u64" where
  "Writer_Epoch ix writer =
     (if writer = [] then FlushedEpoch ix
      else case binary_search_func compareWriter (Epochs ix)
                  \<lparr>wWriter = writer, wEpoch = 0, wGen = Generation 0 0\<rparr> of (i, found) \<Rightarrow>
             if \<not> found then 0 else wEpoch (Epochs ix ! i))"

definition SetWriterEpoch :: "Index \<Rightarrow> bytes \<Rightarrow> u64 \<Rightarrow> Generation \<Rightarrow> Index" where
  "SetWriterEpoch ix writer epoch gen =
     (if writer = [] then ix\<lparr>FlushedEpoch := epoch\<rparr>
      else ix\<lparr>Epochs := put_sorted compareWriter (Epochs ix)
                          \<lparr>wWriter = writer, wEpoch = epoch, wGen = gen\<rparr>\<rparr>)"

definition compareWriterAge :: "bytes \<Rightarrow> WriterEpoch \<Rightarrow> WriterEpoch \<Rightarrow> int" where
  "compareWriterAge self a b =
     (if wWriter a = self then - 1
      else if wWriter b = self then 1
      else gen_Compare (wGen b) (wGen a))"

definition TrimWriters :: "WriterEpoch list \<Rightarrow> bytes \<Rightarrow> nat \<Rightarrow> WriterEpoch list" where
  "TrimWriters epochs self keep =
     (if length epochs \<le> keep then epochs
      else sort_func compareWriter (take keep (sort_func (compareWriterAge self) epochs)))"

subsection \<open>Wants and holes\<close>

definition WantOf :: "Entry \<Rightarrow> Generation \<Rightarrow> Want" where
  "WantOf e g = \<lparr>wPrefix = ePrefix e, wBlocks = eBlocks e, wClaim = eClaim e, wLevel = eLevel e,
     wTerm = eTerm e, wMinTime = eMinTime e, wMaxTime = eMaxTime e, wGeneration = g\<rparr>"

definition want_Entry :: "Want \<Rightarrow> Entry" where
  "want_Entry w = \<lparr>ePrefix = wPrefix w, eMinTime = wMinTime w, eMaxTime = wMaxTime w,
     eBlocks = wBlocks w, eLevel = wLevel w, eClaim = wClaim w, eTerm = wTerm w,
     eRollup = None, eHole = False\<rparr>"

definition compareWantPrefix :: "Want \<Rightarrow> Want \<Rightarrow> int" where
  "compareWantPrefix a b =
     (if wPrefix a < wPrefix b then - 1 else if wPrefix a > wPrefix b then 1 else 0)"

definition RecordWant :: "Index \<Rightarrow> Want \<Rightarrow> Index" where
  "RecordWant ix w = ix\<lparr>Wanted := put_sorted compareWantPrefix (Wanted ix) w\<rparr>"

definition SatisfyWant :: "Index \<Rightarrow> bytes \<Rightarrow> Index \<times> bool" where
  "SatisfyWant ix p =
     (case del_sorted compareWantPrefix (Wanted ix) (WantOf (no_entry\<lparr>ePrefix := p\<rparr>) (Generation 0 0)) of
        (ws, ok) \<Rightarrow> (ix\<lparr>Wanted := ws\<rparr>, ok))"

definition Wants :: "Index \<Rightarrow> bytes \<rightharpoonup> Want" where
  "Wants ix = foldl (\<lambda>m w. m(wPrefix w \<mapsto> w)) Map.empty (Wanted ix)"

definition want_Overlaps :: "Want \<Rightarrow> i64 \<Rightarrow> i64 \<Rightarrow> bool" where
  "want_Overlaps w start end' =
     (if wMinTime w = 0 \<and> wMaxTime w = 0 then True
      else sint (wMinTime w) \<le> sint end' \<and> sint start \<le> sint (wMaxTime w))"

definition WantsOverlap :: "Want list \<Rightarrow> i64 \<Rightarrow> i64 \<Rightarrow> bool" where
  "WantsOverlap wants start end' = list_ex (\<lambda>w. want_Overlaps w start end') wants"

definition RecordHole :: "Index \<Rightarrow> Want \<Rightarrow> Index \<times> Entry" where
  "RecordHole ix w =
     (let hole = (want_Entry w)\<lparr>eHole := True\<rparr>;
          ix1 = Add ix hole;
          ix2 = fst (SatisfyWant ix1 (wPrefix w))
      in (ix2\<lparr>LostParts := LostParts ix2 + 1\<rparr>, hole))"

subsection \<open>The commit fence (tenure.go)\<close>

datatype Superseded = NoClaim | TermChanged u64 u64 | IndexAhead u64 u64

definition CheckTenure :: "u64 \<Rightarrow> u64 \<Rightarrow> u64 \<Rightarrow> Superseded + unit" where
  "CheckTenure stamped current indexed =
     (if current = 0 then Inl NoClaim
      else if stamped \<noteq> current then Inl (TermChanged stamped current)
      else if indexed > current then Inl (IndexAhead indexed current)
      else Inr ())"

subsection \<open>The tables as maps\<close>

lemma gen_Compare_sign:
  "gen_Compare a b < 0 \<longleftrightarrow> a < b" "gen_Compare a b = 0 \<longleftrightarrow> a = b" "gen_Compare a b \<le> 0 \<longleftrightarrow> a \<le> b"
  by (auto simp: gen_Compare_def less_Generation_def less_eq_Generation_def Generation.expand)

interpretation ent: keyed ePrefix compareEntryPrefix
  by unfold_locales (simp_all add: compareEntryPrefix_def)

interpretation rem: keyed rPrefix compareRemovalPrefix
  by unfold_locales (auto simp: compareRemovalPrefix_def)

interpretation wri: keyed wWriter compareWriter
  by unfold_locales (auto simp: compareWriter_def)

interpretation wan: keyed wPrefix compareWantPrefix
  by unfold_locales (auto simp: compareWantPrefix_def)

text \<open>A generation's rank and, for the sorts that put the newest first, its age.\<close>

definition grank :: "Generation \<Rightarrow> nat" where
  "grank g = unat (gTerm g) * 2 ^ 64 + unat (gCounter g)"

definition age :: "Generation \<Rightarrow> int" where
  "age g = - int (grank g)"

lemma grank_le: "a \<le> b \<longleftrightarrow> grank a \<le> grank b"
  using unat64_bound[of "gCounter a"] unat64_bound[of "gCounter b"]
  by (auto simp: grank_def less_eq_Generation_def word_le_nat_alt word_less_nat_alt)

lemma age_le: "age a \<le> age b \<longleftrightarrow> b \<le> a"
  by (simp add: age_def grank_le)

interpretation remage: cmp_order "\<lambda>r. age (rGen r)" compareRemovalNewest
  by unfold_locales (simp add: compareRemovalNewest_def gen_Compare_sign age_le)

interpretation wriage: cmp_order "\<lambda>w. (wWriter w \<noteq> self, if wWriter w = self then 0 else age (wGen w))"
  "compareWriterAge self" for self
  by unfold_locales (auto simp: compareWriterAge_def gen_Compare_sign age_le)

definition index_sorted :: "Index \<Rightarrow> bool" where
  "index_sorted ix \<longleftrightarrow> ent.asc (Entries ix) \<and> rem.asc (Removed ix) \<and> wri.asc (Epochs ix) \<and>
     wan.asc (Wanted ix)"

lemma Add_props:
  assumes "index_sorted ix"
  shows "index_sorted (Add ix e)" and "ent.tab (Entries (Add ix e)) = (ent.tab (Entries ix))(ePrefix e \<mapsto> e)"
  using assms by (auto simp: Add_def index_sorted_def ent.put_sorted_asc ent.put_sorted_tab)

lemma Remove_props:
  assumes "index_sorted ix"
  shows "index_sorted (fst (Remove ix p))"
    and "ent.tab (Entries (fst (Remove ix p))) = (ent.tab (Entries ix))(p := None)"
    and "snd (Remove ix p) \<longleftrightarrow> ent.tab (Entries ix) p \<noteq> None"
  using assms ent.del_sorted_props[of "Entries ix" "no_entry\<lparr>ePrefix := p\<rparr>"]
  by (auto simp: Remove_def index_sorted_def split: prod.splits)

lemma Tombstone_props:
  assumes "index_sorted ix"
  shows "index_sorted (Tombstone ix r)"
    and "rem.tab (Removed (Tombstone ix r)) = (rem.tab (Removed ix))(rPrefix r \<mapsto> r)"
  using assms by (auto simp: Tombstone_def index_sorted_def rem.put_sorted_asc rem.put_sorted_tab)

lemma RecordWant_props:
  assumes "index_sorted ix"
  shows "index_sorted (RecordWant ix w)"
    and "wan.tab (Wanted (RecordWant ix w)) = (wan.tab (Wanted ix))(wPrefix w \<mapsto> w)"
  using assms by (auto simp: RecordWant_def index_sorted_def wan.put_sorted_asc wan.put_sorted_tab)

lemma SatisfyWant_props:
  assumes "index_sorted ix"
  shows "index_sorted (fst (SatisfyWant ix p))"
    and "wan.tab (Wanted (fst (SatisfyWant ix p))) = (wan.tab (Wanted ix))(p := None)"
    and "snd (SatisfyWant ix p) \<longleftrightarrow> wan.tab (Wanted ix) p \<noteq> None"
  using assms wan.del_sorted_props[of "Wanted ix" "WantOf (no_entry\<lparr>ePrefix := p\<rparr>) (Generation 0 0)"]
  by (auto simp: SatisfyWant_def index_sorted_def WantOf_def split: prod.splits)

lemma SatisfyWant_frame [simp]:
  "Entries (fst (SatisfyWant ix p)) = Entries ix" "Removed (fst (SatisfyWant ix p)) = Removed ix"
  "Epochs (fst (SatisfyWant ix p)) = Epochs ix" "LostParts (fst (SatisfyWant ix p)) = LostParts ix"
  by (auto simp: SatisfyWant_def split: prod.splits)

lemma Add_frame [simp]:
  "Wanted (Add ix e) = Wanted ix" "Removed (Add ix e) = Removed ix" "Epochs (Add ix e) = Epochs ix"
  "LostParts (Add ix e) = LostParts ix"
  by (simp_all add: Add_def)

text \<open>Watermarks: a writer reads back what it set, and nobody else's slot moves.\<close>

lemma Writer_Epoch_tab:
  assumes "index_sorted ix"
  shows "Writer_Epoch ix w =
    (if w = [] then FlushedEpoch ix else case wri.tab (Epochs ix) w of None \<Rightarrow> 0 | Some s \<Rightarrow> wEpoch s)"
  using assms wri.search_found[of "Epochs ix" "\<lparr>wWriter = w, wEpoch = 0, wGen = Generation 0 0\<rparr>"]
  by (auto simp: Writer_Epoch_def index_sorted_def split: prod.splits if_splits)

lemma SetWriterEpoch_sorted: "index_sorted ix \<Longrightarrow> index_sorted (SetWriterEpoch ix w e g)"
  by (auto simp: SetWriterEpoch_def index_sorted_def wri.put_sorted_asc)

lemma SetWriterEpoch_tab:
  "index_sorted ix \<Longrightarrow> w \<noteq> [] \<Longrightarrow>
   wri.tab (Epochs (SetWriterEpoch ix w e g)) =
     (wri.tab (Epochs ix))(w \<mapsto> \<lparr>wWriter = w, wEpoch = e, wGen = g\<rparr>)"
  by (auto simp: SetWriterEpoch_def index_sorted_def wri.put_sorted_tab)

text \<open>The trims.\<close>

lemma set_take_sub: "x \<in> set (take n xs) \<Longrightarrow> x \<in> set xs"
  by (rule in_set_takeD)

lemma distinct_map_take: "distinct (map f xs) \<Longrightarrow> distinct (map f (take n xs))"
  by (simp add: distinct_take flip: take_map)

lemma TrimRemovals_mem:
  "r \<in> set (TrimRemovals rs live keep) \<Longrightarrow> r \<in> set rs \<and> rPrefix r \<notin> live"
  by (auto simp: TrimRemovals_def Let_def rem.sort_func_set remage.sort_func_set
      dest!: in_set_takeD split: if_splits)

lemma TrimRemovals_asc:
  assumes "rem.asc rs"
  shows "rem.asc (TrimRemovals rs live keep)"
proof -
  let ?out = "filter (\<lambda>r. rPrefix r \<notin> live) rs"
  have d: "distinct (map rPrefix ?out)"
    using rem.asc_distinct[OF assms] by (simp add: distinct_map_filter)
  have "mset (map rPrefix (sort_func compareRemovalNewest ?out)) = mset (map rPrefix ?out)"
    by (simp add: remage.sort_func_mset)
  then have "distinct (map rPrefix (sort_func compareRemovalNewest ?out))"
    using d by (metis mset_eq_imp_distinct_iff)
  then show ?thesis using d
    by (auto simp: TrimRemovals_def Let_def intro!: rem.sort_func_asc distinct_map_take)
qed

lemma TrimRemovals_newest:
  assumes "r \<in> set rs" "rPrefix r \<notin> live" "r \<notin> set (TrimRemovals rs live keep)"
    and "k \<in> set (TrimRemovals rs live keep)"
  shows "rGen r \<le> rGen k"
proof -
  let ?out = "filter (\<lambda>r. rPrefix r \<notin> live) rs"
  have "length ?out > keep"
    using assms(1-3) by (auto simp: TrimRemovals_def Let_def rem.sort_func_set split: if_splits)
  then have "r \<notin> set (take keep (sort_func compareRemovalNewest ?out))"
    "k \<in> set (take keep (sort_func compareRemovalNewest ?out))"
    using assms(3,4) by (simp_all add: TrimRemovals_def rem.sort_func_set)
  then have "age (rGen k) \<le> age (rGen r)"
    using assms(1,2) by (intro remage.sort_func_take_least) auto
  then show ?thesis by (simp add: age_le)
qed

lemma TrimWriters_self:
  assumes "s \<in> set epochs" "wWriter s = self" "0 < keep" "wri.asc epochs"
  shows "s \<in> set (TrimWriters epochs self keep)"
proof (cases "length epochs \<le> keep")
  case False
  let ?srt = "sort_func (compareWriterAge self) epochs"
  have "s \<in> set (take keep ?srt)"
  proof (rule ccontr)
    assume not: "s \<notin> set (take keep ?srt)"
    have "?srt \<noteq> []"
      using assms(1) wriage.sort_func_set[of self epochs] by (metis empty_iff empty_set)
    then have "take keep ?srt \<noteq> []" using assms(3) by simp
    then obtain x where x: "x \<in> set (take keep ?srt)" by (meson last_in_set)
    have "(wWriter x \<noteq> self, if wWriter x = self then 0 else age (wGen x)) \<le>
          (wWriter s \<noteq> self, if wWriter s = self then 0 else age (wGen s))"
      by (rule wriage.sort_func_take_least[OF x assms(1) not])
    then have "wWriter x = wWriter s" using assms(2) by (auto split: if_splits)
    moreover have "x \<in> set epochs" using x by (metis in_set_takeD wriage.sort_func_set)
    ultimately have "x = s" using wri.asc_distinct[OF assms(4)] assms(1) by (auto simp: distinct_map inj_on_def)
    then show False using x not by simp
  qed
  then show ?thesis using False by (simp add: TrimWriters_def wri.sort_func_set)
qed (use assms in \<open>simp add: TrimWriters_def\<close>)


lemma RecordHole_props:
  assumes "index_sorted ix"
  shows "index_sorted (fst (RecordHole ix w))"
    and "ent.tab (Entries (fst (RecordHole ix w))) = (ent.tab (Entries ix))(wPrefix w \<mapsto> snd (RecordHole ix w))"
    and "wan.tab (Wanted (fst (RecordHole ix w))) = (wan.tab (Wanted ix))(wPrefix w := None)"
    and "LostParts (fst (RecordHole ix w)) = LostParts ix + 1" and "eHole (snd (RecordHole ix w))"
proof -
  let ?h = "(want_Entry w)\<lparr>eHole := True\<rparr>"
  note A = Add_props[OF assms, of ?h] and S = SatisfyWant_props[OF Add_props(1)[OF assms, of ?h], of "wPrefix w"]
  have pre: "ePrefix ?h = wPrefix w" by (simp add: want_Entry_def)
  show "index_sorted (fst (RecordHole ix w))"
    using S(1) by (simp add: RecordHole_def Let_def index_sorted_def)
  show "ent.tab (Entries (fst (RecordHole ix w))) = (ent.tab (Entries ix))(wPrefix w \<mapsto> snd (RecordHole ix w))"
    using A(2) pre by (simp add: RecordHole_def Let_def)
  show "wan.tab (Wanted (fst (RecordHole ix w))) = (wan.tab (Wanted ix))(wPrefix w := None)"
    using S(2) by (simp add: RecordHole_def Let_def)
qed (simp_all add: RecordHole_def Let_def)

lemma TrimWriters_props:
  assumes "wri.asc epochs"
  shows "wri.asc (TrimWriters epochs self keep)" "set (TrimWriters epochs self keep) \<subseteq> set epochs"
    "length (TrimWriters epochs self keep) \<le> keep"
proof -
  let ?srt = "sort_func (compareWriterAge self) epochs"
  have "mset (map wWriter ?srt) = mset (map wWriter epochs)" by (simp add: wriage.sort_func_mset)
  then have "distinct (map wWriter (take keep ?srt))"
    using wri.asc_distinct[OF assms] by (metis distinct_map_take mset_eq_imp_distinct_iff)
  then show "wri.asc (TrimWriters epochs self keep)"
    using assms wri.sort_func_asc by (simp add: TrimWriters_def)
  show "set (TrimWriters epochs self keep) \<subseteq> set epochs"
    using set_take_subset[of keep ?srt] by (auto simp: TrimWriters_def wri.sort_func_set wriage.sort_func_set)
  show "length (TrimWriters epochs self keep) \<le> keep"
    by (simp add: TrimWriters_def wri.sort_func_length)
qed

subsection \<open>Properties of the index tables\<close>

text \<open>C27. Every operation on the index keeps its four tables strictly sorted by key, which is what
  the binary searches of all of them rely on.\<close>

theorem index_tables_sorted:
  assumes "index_sorted ix"
  shows "index_sorted (Add ix e) \<and> index_sorted (fst (Remove ix p)) \<and> index_sorted (Tombstone ix r) \<and>
    index_sorted (SetWriterEpoch ix p n g) \<and> index_sorted (RecordWant ix w) \<and>
    index_sorted (fst (SatisfyWant ix p)) \<and> index_sorted (fst (RecordHole ix w)) \<and>
    rem.asc (TrimRemovals (Removed ix) live keep) \<and> wri.asc (TrimWriters (Epochs ix) p keep)"
  using assms TrimRemovals_asc[of "Removed ix"] TrimWriters_props(1)[of "Epochs ix"]
  by (simp add: Add_props Remove_props Tombstone_props SetWriterEpoch_sorted RecordWant_props
      SatisfyWant_props RecordHole_props index_sorted_def[of ix])

theorem index_tables_sorted_witness:
  "let ix = Add (Add empty_index (no_entry\<lparr>ePrefix := [98]\<rparr>)) (no_entry\<lparr>ePrefix := [97]\<rparr>)
   in index_sorted ix \<and> index_sorted (fst (Remove ix [98]))"
proof -
  let ?ix = "Add (Add empty_index (no_entry\<lparr>ePrefix := [98]\<rparr>)) (no_entry\<lparr>ePrefix := [97]\<rparr>)"
  have "index_sorted empty_index" by (simp add: index_sorted_def empty_index_def)
  then have "index_sorted ?ix" by (simp add: Add_props)
  then show ?thesis using index_tables_sorted[of ?ix _ "[98]"] by (simp add: Let_def)
qed

text \<open>Watermarks: a writer reads back what it set, and no other writer's watermark moves; the
  anonymous writer and the named ones never share a slot.\<close>

lemma watermark_read_back:
  assumes "index_sorted ix"
  shows "Writer_Epoch (SetWriterEpoch ix w n g) v = (if v = w then n else Writer_Epoch ix v)"
proof -
  have "FlushedEpoch (SetWriterEpoch ix w n g) = (if w = [] then n else FlushedEpoch ix)"
    by (simp add: SetWriterEpoch_def)
  moreover have "w = [] \<Longrightarrow> Epochs (SetWriterEpoch ix w n g) = Epochs ix" by (simp add: SetWriterEpoch_def)
  ultimately show ?thesis
    using SetWriterEpoch_tab[OF assms, of w n g]
    by (cases "w = []") (simp_all add: Writer_Epoch_tab assms SetWriterEpoch_sorted)
qed

text \<open>Acknowledging a loss is one step with three effects: the hole is indexed under the lost
  part's prefix, its want is discharged, and the loss counter goes up; no other entry or want changes.\<close>

lemma hole_recorded:
  assumes "index_sorted ix"
  shows "let (ix', hole) = RecordHole ix w in
    ent.tab (Entries ix') = (ent.tab (Entries ix))(wPrefix w \<mapsto> hole) \<and> eHole hole \<and> eBlocks hole = wBlocks w \<and>
    wan.tab (Wanted ix') = (wan.tab (Wanted ix))(wPrefix w := None) \<and> LostParts ix' = LostParts ix + 1"
proof -
  have "eBlocks (snd (RecordHole ix w)) = wBlocks w" by (simp add: RecordHole_def Let_def want_Entry_def)
  then show ?thesis using RecordHole_props[OF assms, of w] by (simp add: case_prod_beta)
qed

text \<open>The tombstone trim drops the tombstones of live parts and, above the bound, only the
  oldest: whatever it drops for room is no newer than anything it keeps, and it never keeps more
  than the bound.\<close>

lemma tombstones_trimmed_oldest_first:
  assumes "rem.asc rs"
  shows "let kept = TrimRemovals rs live keep in
    set kept \<subseteq> {r \<in> set rs. rPrefix r \<notin> live} \<and> length kept \<le> keep \<and> rem.asc kept \<and>
    (\<forall>r \<in> set rs. rPrefix r \<notin> live \<and> r \<notin> set kept \<longrightarrow> (\<forall>k \<in> set kept. rGen r \<le> rGen k))"
proof -
  have "length (TrimRemovals rs live keep) \<le> keep"
    by (simp add: TrimRemovals_def Let_def rem.sort_func_length)
  then show ?thesis
    using TrimRemovals_mem[of _ rs live keep] TrimRemovals_asc[OF assms] TrimRemovals_newest[of _ rs live keep]
    unfolding Let_def by blast
qed

text \<open>The watermark trim keeps at most the bound, never forgets the writer that runs it, and
  invents nothing, so no other writer's watermark can move backwards into an earlier value.\<close>

lemma writers_trimmed_keep_self:
  assumes "wri.asc epochs" "0 < keep"
  shows "let kept = TrimWriters epochs self keep in
    set kept \<subseteq> set epochs \<and> wri.asc kept \<and> length kept \<le> keep \<and>
    wri.tab kept self = wri.tab epochs self"
proof -
  have sub: "set (TrimWriters epochs self keep) \<subseteq> set epochs" and asc: "wri.asc (TrimWriters epochs self keep)"
    using TrimWriters_props[OF assms(1)] by blast+
  have "wri.tab (TrimWriters epochs self keep) self = wri.tab epochs self"
  proof (cases "wri.tab epochs self")
    case None
    then have "self \<notin> wWriter ` set (TrimWriters epochs self keep)" using sub wri.tab_None by blast
    then show ?thesis using None wri.tab_None by metis
  next
    case (Some s)
    then have "s \<in> set (TrimWriters epochs self keep)" "wWriter s = self"
      using TrimWriters_self[OF _ _ assms(2,1)] wri.tab_Some by blast+
    then show ?thesis using wri.tab_in[OF asc] Some by auto
  qed
  then show ?thesis using sub asc TrimWriters_props(3)[OF assms(1)] by (simp add: Let_def)
qed

text \<open>C28. The commit fence admits a writer exactly when it still holds the term it was stamped with,
  that term is a real one, and the index has not been committed under a later one; the next
  generation is then above the current one unless its counter wraps.\<close>

theorem tenure_fence:
  "(CheckTenure stamped current indexed = Inr () \<longleftrightarrow> current \<noteq> 0 \<and> stamped = current \<and> indexed \<le> current) \<and>
   (\<not> g < gen_Next g t \<longleftrightarrow> t \<le> gTerm g \<and> gCounter g = - 1) \<and>
   (t \<le> gTerm g \<or> gTerm (gen_Next g t) = t)"
proof -
  have "c < c + 1 \<longleftrightarrow> c \<noteq> - 1" for c :: u64
    by (cases "c = - 1") (simp_all add: word_less_nat_alt unat_plus_one)
  then have "g < gen_Next g t \<longleftrightarrow> gTerm g < t \<or> gCounter g \<noteq> - 1"
    by (cases "gTerm g < t") (simp_all add: gen_Next_def less_Generation_def)
  then have "\<not> g < gen_Next g t \<longleftrightarrow> t \<le> gTerm g \<and> gCounter g = - 1"
    unfolding not_less[symmetric] by blast
  moreover have "CheckTenure stamped current indexed = Inr () \<longleftrightarrow> current \<noteq> 0 \<and> stamped = current \<and> indexed \<le> current"
    by (auto simp: CheckTenure_def split: if_splits)
  moreover have "t \<le> gTerm g \<or> gTerm (gen_Next g t) = t" by (cases "gTerm g < t") (simp_all add: gen_Next_def not_less)
  ultimately show ?thesis by blast
qed

end
