(* ===== verification/Lineage.thy ===== *)
theory Lineage
  imports Index_Model
begin

text \<open>
  Relating identities through split groups (\<^verbatim>\<open>relater.go\<close>, \<^verbatim>\<open>lineage.go\<close>): the run index, the
  work-queue closure, and the four closures over it (what a part holds, what it derives from, what
  derives from it, what a set of parts completes).

  \<open>Closures\<close> proves that the closure loop computes the least closed set, \<open>Rows\<close> what that means for the
  rows parts hold.
\<close>

type_synonym Lineage = "Claim list"

subsection \<open>The run index\<close>

datatype indexedRun = IndexedRun (xGap: Gap) (xClaim: nat)

record runIndex =
  xRuns :: "indexedRun list"
  xReach :: "Block list"

definition runIndex_add :: "runIndex \<Rightarrow> Interval \<Rightarrow> nat \<Rightarrow> runIndex" where
  "runIndex_add x iv claim =
     (if \<not> Valid iv then x
      else x\<lparr>xRuns := xRuns x @ map (\<lambda>i. IndexedRun (run iv i) claim) [0..<nruns iv]\<rparr>)"

definition compareIndexed :: "indexedRun \<Rightarrow> indexedRun \<Rightarrow> int" where
  "compareIndexed a b =
     (let c = block_Compare (gMin (xGap a)) (gMin (xGap b)) in if c \<noteq> 0 then c else
      let c = block_Compare (gMax (xGap a)) (gMax (xGap b)) in if c \<noteq> 0 then c else
      cmp_compare (xClaim a) (xClaim b))"

text \<open>The running maximum of the runs' high bounds.\<close>

fun reach_from :: "Block \<Rightarrow> indexedRun list \<Rightarrow> Block list" where
  "reach_from m [] = []"
| "reach_from m (r # rs) = MaxBlock (gMax (xGap r)) m # reach_from (MaxBlock (gMax (xGap r)) m) rs"

definition runIndex_build :: "runIndex \<Rightarrow> runIndex" where
  "runIndex_build x =
     (let rs = sort_func compareIndexed (xRuns x)
      in \<lparr>xRuns = rs,
          xReach = (case rs of [] \<Rightarrow> [] | r # rs' \<Rightarrow> gMax (xGap r) # reach_from (gMax (xGap r)) rs')\<rparr>)"

text \<open>The index over one interval of each claim, with the claims' positions.\<close>

definition index_claims :: "(Claim \<Rightarrow> Interval) \<Rightarrow> Lineage \<Rightarrow> runIndex" where
  "index_claims sel l =
     runIndex_build (foldl (\<lambda>x (i, c). runIndex_add x (sel c) i) \<lparr>xRuns = [], xReach = []\<rparr>
                       (enumerate 0 l))"

text \<open>The runs from position \<open>i\<close> on that meet \<open>q\<close>, as the claims handed to the callback.\<close>

definition scan_from :: "runIndex \<Rightarrow> nat \<Rightarrow> Gap \<Rightarrow> nat list" where
  "scan_from x i q =
     map xClaim (filter (\<lambda>r. \<not> block_less (gMax (xGap r)) (gMin q))
       (takeWhile (\<lambda>r. \<not> block_less (gMax q) (gMin (xGap r))) (drop i (xRuns x))))"

definition meeting :: "runIndex \<Rightarrow> Gap \<Rightarrow> nat list" where
  "meeting x q = scan_from x (fst (binary_search_func block_Compare (xReach x) (gMin q))) q"

fun meeting_loop :: "runIndex \<Rightarrow> nat \<Rightarrow> Gap list \<Rightarrow> nat list" where
  "meeting_loop x i [] = []"
| "meeting_loop x i (q # qs) =
     (if i = length (xRuns x) then []
      else let i' = (if block_less (xReach x ! i) (gMin q)
                     then i + (1 + fst (binary_search_func block_Compare (drop (i + 1) (xReach x)) (gMin q)))
                     else i)
           in scan_from x i' q @ meeting_loop x i' qs)"

definition meetingInterval :: "runIndex \<Rightarrow> Interval \<Rightarrow> nat list" where
  "meetingInterval x iv = meeting_loop x 0 (map (run iv) [0..<nruns iv])"

subsection \<open>The closure loop\<close>

text \<open>
  One claim offered to the closure: \<open>take\<close> says whether it applies and what it adds. The state is
  the interval so far, which claims were used, and the stack of runs not yet followed (its top at
  the head). The positions an index holds are below the number of claims.
\<close>

definition close_offer ::
  "(Claim \<Rightarrow> Interval \<Rightarrow> bool \<times> Interval) \<Rightarrow> Lineage \<Rightarrow> nat \<Rightarrow>
   Interval \<times> bool list \<times> Gap list \<Rightarrow> Interval \<times> bool list \<times> Gap list" where
  "close_offer take' l i st =
     (case st of (iv, via, queue) \<Rightarrow>
        if i \<ge> length via \<or> via ! i then st
        else case take' (l ! i) iv of (ok, add) \<Rightarrow>
          if \<not> ok then st
          else let grown = Interval_Union iv add
               in if \<not> Equal grown iv then (grown, via[i := True], rev (runs add) @ queue)
                  else (iv, via[i := True], queue))"

definition unused :: "bool list \<Rightarrow> nat" where
  "unused via = length (filter Not via)"

lemma unused_update: "i < length via \<Longrightarrow> \<not> via ! i \<Longrightarrow> unused (via[i := True]) < unused via"
proof (induction via arbitrary: i)
  case (Cons v via)
  then show ?case by (cases i) (auto simp: unused_def)
qed simp

lemma close_offer_measure:
  "close_offer take' l i (iv, via, q) = (iv', via', q') \<Longrightarrow>
   unused via' < unused via \<or> unused via' = unused via \<and> q' = q"
  using unused_update by (auto simp: close_offer_def Let_def split: if_splits prod.splits)

lemma close_offers_measure:
  "fold (close_offer take' l) js (iv, via, q) = (iv', via', q') \<Longrightarrow>
   unused via' < unused via \<or> unused via' = unused via \<and> q' = q"
proof (induction js arbitrary: iv via q)
  case (Cons j js)
  obtain iv1 via1 q1 where "close_offer take' l j (iv, via, q) = (iv1, via1, q1)" by (metis prod_cases3)
  then show ?case using Cons.IH[of iv1 via1 q1] Cons.prems close_offer_measure[of take' l j iv via q]
    by fastforce
qed simp

function close_loop ::
  "(Claim \<Rightarrow> Interval \<Rightarrow> bool \<times> Interval) \<Rightarrow> Lineage \<Rightarrow> runIndex \<Rightarrow>
   Interval \<times> bool list \<times> Gap list \<Rightarrow> Interval \<times> bool list" where
  "close_loop take' l x (iv, via, []) = (iv, via)"
| "close_loop take' l x (iv, via, r # queue) =
     close_loop take' l x (fold (close_offer take' l) (meeting x r) (iv, via, queue))"
  by pat_completeness auto
termination
proof (relation "measures [\<lambda>(t, l, x, iv, via, q). unused via, \<lambda>(t, l, x, iv, via, q). length q]", goal_cases)
  case (2 t l x iv via r q)
  obtain iv' via' q' where "fold (close_offer t l) (meeting x r) (iv, via, q) = (iv', via', q')"
    by (metis prod_cases3)
  then show ?case using close_offers_measure[of t l "meeting x r" iv via q] by fastforce
qed simp

definition close_from ::
  "Lineage \<Rightarrow> Interval \<Rightarrow> runIndex \<Rightarrow> (Claim \<Rightarrow> Interval \<Rightarrow> bool \<times> Interval) \<Rightarrow>
   Interval \<times> bool list" where
  "close_from l iv x take' =
     (let via = replicate (length l) False
      in if \<not> Valid iv then (iv, via) else close_loop take' l x (iv, via, rev (runs iv)))"

subsection \<open>The closures of a lineage\<close>

definition holds :: "Lineage \<Rightarrow> Interval \<Rightarrow> Interval" where
  "holds l iv =
     (if l = [] then iv
      else fst (close_from l iv (index_claims cBlocks l)
                  (\<lambda>c held. (Contains held (cBlocks c), cGroup c))))"

definition ancestry :: "Lineage \<Rightarrow> Interval \<Rightarrow> Interval \<times> bool list" where
  "ancestry l iv =
     (if l = [] then (iv, [])
      else close_from l iv (index_claims cGroup l) (\<lambda>c _. (True, cBlocks c)))"

definition descendants :: "Lineage \<Rightarrow> Interval \<Rightarrow> Interval \<times> bool list" where
  "descendants l iv = close_from l iv (index_claims cBlocks l) (\<lambda>c _. (True, cGroup c))"

definition realize :: "Lineage \<Rightarrow> Interval \<Rightarrow> Interval \<times> bool list" where
  "realize l held =
     (if l = [] then (held, [])
      else close_from l held (index_claims cGroup l)
             (\<lambda>c held. (Contains held (cGroup c), cBlocks c)))"

text \<open>\<open>reachAncestry\<close>: the same descent over shared marks, following each claim once.\<close>

definition reach_push :: "nat \<Rightarrow> bool list \<times> nat list \<Rightarrow> bool list \<times> nat list" where
  "reach_push i st =
     (case st of (reached, queue) \<Rightarrow>
        if i \<ge> length reached \<or> reached ! i then st else (reached[i := True], i # queue))"

lemma reach_push_measure:
  "fold reach_push js (reached, q) = (reached', q') \<Longrightarrow>
   unused reached' < unused reached \<or> unused reached' = unused reached \<and> q' = q"
proof (induction js arbitrary: reached q)
  case (Cons j js)
  obtain r1 q1 where *: "reach_push j (reached, q) = (r1, q1)" by (metis surj_pair)
  then have "unused r1 < unused reached \<or> unused r1 = unused reached \<and> q1 = q"
    using unused_update by (auto simp: reach_push_def split: if_splits)
  then show ?case using Cons.IH[of r1 q1] Cons.prems * by fastforce
qed simp

function reach_loop :: "Lineage \<Rightarrow> bool list \<times> nat list \<Rightarrow> bool list" where
  "reach_loop l (reached, []) = reached"
| "reach_loop l (reached, i # queue) =
     reach_loop l (fold reach_push (meetingInterval (index_claims cGroup l) (cBlocks (l ! i)))
                     (reached, queue))"
  by pat_completeness auto
termination
proof (relation "measures [\<lambda>(l, r, q). unused r, \<lambda>(l, r, q). length q]", goal_cases)
  case (2 l r i q)
  let ?js = "meetingInterval (index_claims cGroup l) (cBlocks (l ! i))"
  obtain r' q' where "fold reach_push ?js (r, q) = (r', q')" by (metis surj_pair)
  then show ?case using reach_push_measure[of ?js r q] by fastforce
qed simp

definition reachAncestry :: "Lineage \<Rightarrow> bool list \<Rightarrow> Interval \<Rightarrow> bool list" where
  "reachAncestry l reached iv =
     (if \<not> Valid iv then reached
      else reach_loop l (fold reach_push (meetingInterval (index_claims cGroup l) iv) (reached, [])))"

subsection \<open>Relations between entries\<close>

definition sameIdentity :: "Entry \<Rightarrow> Entry \<Rightarrow> bool" where
  "sameIdentity e o' \<longleftrightarrow> eLevel e = eLevel o' \<and> Valid (eBlocks e) \<and> Equal (eBlocks e) (eBlocks o') \<and>
     claim_Equal (eClaim e) (eClaim o')"

definition Subsumes :: "Lineage \<Rightarrow> Entry \<Rightarrow> Entry \<Rightarrow> bool" where
  "Subsumes l e o' =
     (if eTerm e > eTerm o' \<and> sameIdentity e o' then True
      else eLevel e > eLevel o' \<and> Contains (holds l (eBlocks e)) (eBlocks o'))"

definition Supersedes :: "Entry \<Rightarrow> Entry \<Rightarrow> bool" where
  "Supersedes e o' = Subsumes (if claim_Valid (eClaim o') then [eClaim o'] else []) e o'"

definition Overlaps :: "Lineage \<Rightarrow> Entry \<Rightarrow> Entry \<Rightarrow> bool" where
  "Overlaps l a b =
     (case ancestry l (eBlocks a) of (upA, viaA) \<Rightarrow>
      case ancestry l (eBlocks b) of (upB, viaB) \<Rightarrow>
        if meets (eBlocks a) upB \<or> meets (eBlocks b) upA then True
        else let common = intersect upA upB
             in if \<not> Valid common then False
                else list_ex (\<lambda>(i, c). viaA ! i \<noteq> viaB ! i \<and> meets (cBlocks c) common) (enumerate 0 l))"

definition Ancestors :: "Lineage \<Rightarrow> Interval \<Rightarrow> Claim list" where
  "Ancestors l iv = map snd (filter (\<lambda>(ok, c). ok) (zip (snd (ancestry l iv)) l))"

definition lineage_level :: "Lineage \<Rightarrow> Interval \<Rightarrow> Entry list \<Rightarrow> u32 \<times> bool" where
  "lineage_level l grp entries =
     (let d = fst (descendants l grp)
      in foldl (\<lambda>(level, found) e.
           if Data e \<and> Valid (eBlocks e) \<and> Contains d (eBlocks e) \<and> (\<not> found \<or> eLevel e < level)
           then (eLevel e, True) else (level, found)) (0, False) entries)"

definition LineageOf :: "Entry list \<Rightarrow> Lineage" where
  "LineageOf entries =
     foldl (\<lambda>out e. if Data e \<and> claim_Valid (eClaim e) \<and> \<not> list_ex (claim_Equal (eClaim e)) out
                    then out @ [eClaim e] else out) [] entries"

subsection \<open>The run index finds the runs that meet a run\<close>

interpretation xk: keyed "\<lambda>r. (gMin (xGap r), gMax (xGap r), xClaim r)" compareIndexed
  by unfold_locales (auto simp: compareIndexed_def Let_def block_Compare_sign split: if_splits)

text \<open>What \<open>runIndex_build\<close> establishes: runs by low bound, and the running maximum above them.\<close>

definition index_ok :: "runIndex \<Rightarrow> bool" where
  "index_ok x \<longleftrightarrow> length (xReach x) = length (xRuns x) \<and> sorted (xReach x) \<and>
     sorted (map (\<lambda>r. gMin (xGap r)) (xRuns x)) \<and>
     (\<forall>j < length (xRuns x). \<forall>i \<le> j. gMax (xGap (xRuns x ! i)) \<le> xReach x ! j)"

lemma reach_from_length [simp]: "length (reach_from m rs) = length rs"
  by (induction rs arbitrary: m) auto

lemma reach_from_ge: "b \<in> set (reach_from m rs) \<Longrightarrow> m \<le> b"
proof (induction rs arbitrary: m)
  case (Cons r rs)
  then show ?case using Cons.IH[of "max (gMax (xGap r)) m"] by auto
qed simp

lemma reach_from_sorted: "sorted (reach_from m rs)"
  by (induction rs arbitrary: m) (auto dest: reach_from_ge)

lemma reach_from_bound:
  "i \<le> j \<Longrightarrow> j < length rs \<Longrightarrow> gMax (xGap (rs ! i)) \<le> reach_from m rs ! j"
proof (induction rs arbitrary: m i j)
  case (Cons r rs)
  show ?case
  proof (cases j)
    case 0
    then show ?thesis using Cons.prems by simp
  next
    case (Suc j')
    then have mem: "reach_from (max (gMax (xGap r)) m) rs ! j' \<in> set (reach_from (max (gMax (xGap r)) m) rs)"
      using Cons.prems by simp
    show ?thesis
    proof (cases i)
      case 0
      then show ?thesis using Suc reach_from_ge[OF mem] by simp
    next
      case (Suc i')
      then show ?thesis using Cons.IH[of i' j'] Cons.prems \<open>j = Suc j'\<close> by simp
    qed
  qed
qed simp

lemma index_ok_build: "index_ok (runIndex_build x)"
proof -
  define rs where "rs = sort_func compareIndexed (xRuns x)"
  have "sorted (map (\<lambda>r. (gMin (xGap r), gMax (xGap r), xClaim r)) rs)"
    unfolding rs_def by (rule xk.sort_func_sorted)
  then have "sorted_wrt (\<lambda>a b. gMin (xGap a) \<le> gMin (xGap b)) rs"
    unfolding sorted_map by (rule sorted_wrt_mono_rel[rotated]) auto
  then have srt: "sorted (map (\<lambda>r. gMin (xGap r)) rs)" unfolding sorted_map .
  show ?thesis
  proof (cases rs)
    case Nil
    then show ?thesis by (simp add: index_ok_def runIndex_build_def rs_def[symmetric])
  next
    case (Cons r rs')
    have "gMax (xGap (rs ! i)) \<le> (gMax (xGap r) # reach_from (gMax (xGap r)) rs') ! j"
      if "i \<le> j" "j < length rs" for i j
    proof (cases j)
      case (Suc j')
      have mem: "reach_from (gMax (xGap r)) rs' ! j' \<in> set (reach_from (gMax (xGap r)) rs')"
        using that Cons Suc by simp
      show ?thesis
        using that Cons Suc reach_from_ge[OF mem] reach_from_bound[of "i - 1" j' rs'] by (cases i) auto
    qed (use that Cons in simp)
    then show ?thesis
      using srt Cons reach_from_sorted reach_from_ge
      by (auto simp: index_ok_def runIndex_build_def rs_def[symmetric])
  qed
qed

lemma scan_from_set:
  assumes "index_ok x" and skip: "\<forall>i < k. i < length (xRuns x) \<longrightarrow> gMax (xGap (xRuns x ! i)) < gMin q"
  shows "set (scan_from x k q) = {xClaim r |r. r \<in> set (xRuns x) \<and> gMin (xGap r) \<le> gMax q \<and> gMin q \<le> gMax (xGap r)}"
proof -
  let ?Q = "\<lambda>r. gMin q \<le> gMax (xGap r)" and ?P = "\<lambda>r. gMin (xGap r) \<le> gMax q"
  have srt: "sorted_wrt (\<lambda>a b. gMin (xGap a) \<le> gMin (xGap b)) (xRuns x)"
    using assms(1) by (simp add: index_ok_def sorted_map)
  have pre: "set (takeWhile ?P ys) = {r \<in> set ys. ?P r}"
    if "sorted_wrt (\<lambda>a b. gMin (xGap a) \<le> gMin (xGap b)) ys" for ys :: "indexedRun list"
    using that by (induction ys) (auto intro: order_trans)
  have split: "set (xRuns x) = set (take k (xRuns x)) \<union> set (drop k (xRuns x))"
    by (metis append_take_drop_id set_append)
  have tk: "\<forall>r \<in> set (take k (xRuns x)). \<not> ?Q r"
    using skip by (auto simp: in_set_conv_nth not_le)
  have "set (scan_from x k q) = xClaim ` {r \<in> set (takeWhile ?P (drop k (xRuns x))). ?Q r}"
    by (simp add: scan_from_def not_less)
  also have "\<dots> = xClaim ` {r \<in> set (drop k (xRuns x)). ?P r \<and> ?Q r}"
    using pre[of "drop k (xRuns x)"] srt by (simp add: sorted_wrt_drop conj_assoc)
  also have "\<dots> = xClaim ` {r \<in> set (xRuns x). ?P r \<and> ?Q r}" using split tk by auto
  finally show ?thesis by auto
qed

lemma meeting_set:
  assumes "index_ok x"
  shows "set (meeting x q) =
    {xClaim r |r. r \<in> set (xRuns x) \<and> gMin (xGap r) \<le> gMax q \<and> gMin q \<le> gMax (xGap r)}"
proof -
  let ?k = "fst (binary_search_func block_Compare (xReach x) (gMin q))"
  have "?k = length (takeWhile (\<lambda>b. b < gMin q) (xReach x))"
    using binary_search_takeWhile[of "(\<le>)" "xReach x" block_Compare "gMin q"] assms
    by (auto simp: index_ok_def block_Compare_sign Let_def)
  then have "\<forall>i < ?k. xReach x ! i < gMin q"
    by (metis nth_mem set_takeWhileD takeWhile_nth)
  then have "\<forall>i < ?k. i < length (xRuns x) \<longrightarrow> gMax (xGap (xRuns x ! i)) < gMin q"
    using assms by (fastforce simp: index_ok_def)
  from scan_from_set[OF assms this] show ?thesis by (simp add: meeting_def)
qed

lemma index_claims_runs:
  "set (xRuns (index_claims sel l)) =
     {IndexedRun r i |r i. i < length l \<and> Valid (sel (l ! i)) \<and> r \<in> set (runs (sel (l ! i)))}"
proof -
  have add: "xRuns (foldl (\<lambda>x (i, c). runIndex_add x (sel c) i) x ics) =
        xRuns x @ concat (map (\<lambda>(i, c). if Valid (sel c) then map (\<lambda>r. IndexedRun r i) (runs (sel c)) else []) ics)"
    for x ics
    by (induction ics arbitrary: x) (auto simp: runIndex_add_def appendRuns_def)
  have "set (xRuns (index_claims sel l)) =
        (\<Union>(i, c) \<in> set (enumerate 0 l). if Valid (sel c) then (\<lambda>r. IndexedRun r i) ` set (runs (sel c)) else {})"
    unfolding index_claims_def runIndex_build_def Let_def
    by (simp add: xk.sort_func_set add) (rule SUP_cong[OF refl], simp split: prod.splits)
  also have "\<dots> = {IndexedRun r i |r i. i < length l \<and> Valid (sel (l ! i)) \<and> r \<in> set (runs (sel (l ! i)))}"
    by (fastforce simp: in_set_enumerate_eq split: if_splits)
  finally show ?thesis .
qed

lemma index_claims_ok: "index_ok (index_claims sel l)"
  by (simp add: index_claims_def index_ok_build)

lemma run_overlap: "okrun a \<Longrightarrow> okrun b \<Longrightarrow>
  gMin a \<le> gMax b \<and> gMin b \<le> gMax a \<longleftrightarrow> {gMin a..gMax a} \<inter> {gMin b..gMax b} \<noteq> {}"
  by (auto dest!: okrun_le)

lemma runs_meet_iff: 
  assumes "Valid a" "okrun q"
  shows "(\<exists>r \<in> set (runs a). gMin r \<le> gMax q \<and> gMin q \<le> gMax r) \<longleftrightarrow> blocks a \<inter> {gMin q..gMax q} \<noteq> {}"
proof -
  have "(\<exists>r \<in> set (runs a). gMin r \<le> gMax q \<and> gMin q \<le> gMax r) \<longleftrightarrow>
        (\<exists>r \<in> set (runs a). {gMin r..gMax r} \<inter> {gMin q..gMax q} \<noteq> {})"
    using run_overlap[OF Valid_runs_ok[OF assms(1)] assms(2)] by (metis (no_types, lifting))
  also have "\<dots> \<longleftrightarrow> blocks a \<inter> {gMin q..gMax q} \<noteq> {}"
    using assms(1) by (simp only: blocks_def rset_def if_True) blast
  finally show ?thesis .
qed

lemma meeting_claims:
  assumes "okrun q"
  shows "set (meeting (index_claims sel l) q) =
    {i. i < length l \<and> blocks (sel (l ! i)) \<inter> {gMin q..gMax q} \<noteq> {}}"
proof -
  have "i \<in> set (meeting (index_claims sel l) q) \<longleftrightarrow>
      i < length l \<and> Valid (sel (l ! i)) \<and>
      (\<exists>r \<in> set (runs (sel (l ! i))). gMin r \<le> gMax q \<and> gMin q \<le> gMax r)" for i
    unfolding meeting_set[OF index_claims_ok] index_claims_runs by force
  then have "i \<in> set (meeting (index_claims sel l) q) \<longleftrightarrow>
      i < length l \<and> Valid (sel (l ! i)) \<and> blocks (sel (l ! i)) \<inter> {gMin q..gMax q} \<noteq> {}" for i
    using runs_meet_iff[OF _ assms] by blast
  moreover have "blocks (sel (l ! i)) \<inter> {gMin q..gMax q} \<noteq> {} \<Longrightarrow> Valid (sel (l ! i))" for i
    using blocks_empty_iff by blast
  ultimately show ?thesis by blast
qed


lemma takeWhile_below: "k < length (takeWhile P xs) \<Longrightarrow> P (xs ! k)"
  by (metis nth_mem set_takeWhileD takeWhile_nth)

text \<open>The joint scan of an interval's runs finds what one search per run would.\<close>

lemma meeting_loop_set:
  assumes "index_ok x" "sorted (map gMin qs)"
    and "i \<le> length (xRuns x)" "\<forall>k < i. \<forall>q \<in> set qs. gMax (xGap (xRuns x ! k)) < gMin q"
  shows "set (meeting_loop x i qs) = (\<Union>q \<in> set qs. set (meeting x q))"
  using assms(2-)
proof (induction qs arbitrary: i)
  case (Cons q qs)
  let ?i = "if block_less (xReach x ! i) (gMin q)
            then i + (1 + fst (binary_search_func block_Compare (drop (i + 1) (xReach x)) (gMin q))) else i"
  have ok: "length (xReach x) = length (xRuns x)" "sorted (xReach x)"
    "\<And>j. j < length (xRuns x) \<Longrightarrow> gMax (xGap (xRuns x ! j)) \<le> xReach x ! j"
    using assms(1) by (auto simp: index_ok_def)
  have later: "\<forall>q' \<in> set qs. gMin q \<le> gMin q'" using Cons.prems(1) by auto
  show ?case
  proof (cases "i = length (xRuns x)")
    case True
    then have "\<forall>r \<in> set (xRuns x). \<forall>q' \<in> set (q # qs). gMax (xGap r) < gMin q'"
      using Cons.prems(3) by (metis in_set_conv_nth)
    then have "\<forall>q' \<in> set (q # qs). set (meeting x q') = {}"
      unfolding meeting_set[OF assms(1)] by (auto simp: not_less[symmetric])
    then show ?thesis using True by simp
  next
    case False
    let ?w = "takeWhile (\<lambda>b. b < gMin q) (drop (i + 1) (xReach x))"
    have srch: "fst (binary_search_func block_Compare (drop (i + 1) (xReach x)) (gMin q)) = length ?w"
      using binary_search_takeWhile[of "(\<le>)" "drop (i + 1) (xReach x)" block_Compare "gMin q"] ok(2)
      by (auto simp: block_Compare_sign Let_def sorted_wrt_drop)
    have le: "?i \<le> length (xRuns x)"
      using length_takeWhile_le[of "\<lambda>b. b < gMin q" "drop (i + 1) (xReach x)"] False Cons.prems(2) ok(1) srch by auto
    have skip: "gMax (xGap (xRuns x ! k)) < gMin q" if k: "k < ?i" for k
    proof (cases "k < i")
      case False
      then have b: "xReach x ! i < gMin q" "k < i + (1 + length ?w)" using k srch by (auto split: if_splits)
      have "xReach x ! k < gMin q"
        using b False takeWhile_below[of "k - (i + 1)" "\<lambda>b. b < gMin q" "drop (i + 1) (xReach x)"]
          length_takeWhile_le[of "\<lambda>b. b < gMin q" "drop (i + 1) (xReach x)"] by (cases "k = i") auto
      then show ?thesis using ok(3)[of k] k le by auto
    qed (use Cons.prems(3) in simp)
    have "set (scan_from x ?i q) = set (meeting x q)"
      using scan_from_set[OF assms(1), of ?i q] meeting_set[OF assms(1)] skip by auto
    moreover have "set (meeting_loop x ?i qs) = (\<Union>q \<in> set qs. set (meeting x q))"
    proof (rule Cons.IH)
      show "sorted (map gMin qs)" using Cons.prems(1) by simp
      show "\<forall>k < ?i. \<forall>q \<in> set qs. gMax (xGap (xRuns x ! k)) < gMin q"
        using skip later by (meson less_le_trans)
    qed (rule le)
    ultimately show ?thesis using False by (simp add: Let_def)
  qed
qed simp

lemma meetingInterval_claims:
  assumes "Valid iv"
  shows "set (meetingInterval (index_claims sel l) iv) = {i. i < length l \<and> blocks (sel (l ! i)) \<inter> blocks iv \<noteq> {}}"
proof -
  have "sorted (map gMin rs)" if "sep rs" for rs
    using that by (induction rs) (auto simp: apart_def okrun_alt blk_simps)
  then have "sorted (map gMin (runs iv))" using assms by (simp add: Valid_iff_sep)
  then have "set (meetingInterval (index_claims sel l) iv) = (\<Union>q \<in> set (runs iv). set (meeting (index_claims sel l) q))"
    using meeting_loop_set[OF index_claims_ok, of "runs iv" 0] by (simp add: meetingInterval_def appendRuns_def)
  also have "\<dots> = (\<Union>q \<in> set (runs iv). {i. i < length l \<and> blocks (sel (l ! i)) \<inter> {gMin q..gMax q} \<noteq> {}})"
    by (rule SUP_cong[OF refl], rule meeting_claims, rule Valid_runs_ok[OF assms])
  also have "\<dots> = {i. i < length l \<and> blocks (sel (l ! i)) \<inter> blocks iv \<noteq> {}}"
    using assms by (auto simp: blocks_def[of iv] rset_def)
  finally show ?thesis .
qed

end
