(* ===== verification/Closures.thy ===== *)
theory Closures
  imports Lineage
begin

text \<open>
  The closure loop of \<^verbatim>\<open>relater.go\<close> computes a least fixed point: the locale \<open>closing\<close> and its four
  interpretations, one per closure, and the equivalence of \<open>reachAncestry\<close> with \<open>ancestry\<close>.
\<close>

subsection \<open>The contract of a closure step\<close>

text \<open>
  A claim is found through the runs of \<open>dom c\<close>; it applies to an interval it meets when \<open>cond c\<close>
  holds there, and then adds \<open>add c\<close>. The loop is complete because a condition can only become
  true by the interval gaining a block of \<open>dom c\<close> (\<open>cond_new\<close>), which is when the claim is offered
  again.
\<close>

locale closing =
  fixes dom' :: "Claim \<Rightarrow> Interval" and cond :: "Claim \<Rightarrow> Interval \<Rightarrow> bool" and add :: "Claim \<Rightarrow> Interval"
  assumes cond_mono: "cond c A \<Longrightarrow> Valid A \<Longrightarrow> Valid B \<Longrightarrow> blocks A \<subseteq> blocks B \<Longrightarrow> cond c B"
    and cond_new: "cond c B \<Longrightarrow> \<not> cond c A \<Longrightarrow> Valid A \<Longrightarrow> Valid B \<Longrightarrow> blocks A \<subseteq> blocks B \<Longrightarrow>
      blocks (dom' c) \<inter> (blocks B - blocks A) \<noteq> {}"
begin

definition applies :: "Claim \<Rightarrow> Interval \<Rightarrow> bool" where
  "applies c A \<longleftrightarrow> blocks (dom' c) \<inter> blocks A \<noteq> {} \<and> cond c A"

lemma applies_mono:
  "applies c A \<Longrightarrow> Valid A \<Longrightarrow> Valid B \<Longrightarrow> blocks A \<subseteq> blocks B \<Longrightarrow> applies c B"
  using cond_mono by (auto simp: applies_def)

lemma applies_new:
  assumes "applies c B" "\<not> applies c A" "Valid A" "Valid B" "blocks B = blocks A \<union> X"
  shows "blocks (dom' c) \<inter> X \<noteq> {}"
proof (cases "cond c A")
  case True
  with assms(1,2,5) show ?thesis by (auto simp: applies_def)
next
  case False
  have "blocks (dom' c) \<inter> (blocks B - blocks A) \<noteq> {}"
    using assms False by (intro cond_new) (auto simp: applies_def)
  with assms(5) show ?thesis by auto
qed

text \<open>Sets no application leads out of, from any interval inside them.\<close>

definition closed_under :: "Lineage \<Rightarrow> Block set \<Rightarrow> bool" where
  "closed_under l T \<longleftrightarrow> (\<forall>c \<in> set l. \<forall>A. Valid A \<and> blocks A \<subseteq> T \<and> applies c A \<longrightarrow> blocks (add c) \<subseteq> T)"

abbreviation stp :: "Claim \<Rightarrow> Interval \<Rightarrow> bool \<times> Interval" where
  "stp c A \<equiv> (cond c A, add c)"

text \<open>
  The loop invariant. \<open>js\<close> are the positions still to be offered in the current round: an unused
  claim that applies is waiting there or meets a run on the stack.
\<close>

definition loop_inv :: "Lineage \<Rightarrow> Interval \<Rightarrow> nat set \<Rightarrow> Interval \<times> bool list \<times> Gap list \<Rightarrow> bool" where
  "loop_inv l iv js st \<longleftrightarrow> (case st of (A, via, queue) \<Rightarrow>
     Valid A \<and> length via = length l \<and> blocks iv \<subseteq> blocks A \<and> (\<forall>r \<in> set queue. okrun r) \<and>
     (\<forall>i < length l. via ! i \<longrightarrow> applies (l ! i) A \<and> blocks (add (l ! i)) \<subseteq> blocks A) \<and>
     (\<forall>i < length l. \<not> via ! i \<and> applies (l ! i) A \<longrightarrow>
        i \<in> js \<or> blocks (dom' (l ! i)) \<inter> rset queue \<noteq> {}) \<and>
     (\<forall>T. blocks iv \<subseteq> T \<and> closed_under l T \<longrightarrow> blocks A \<subseteq> T))"

lemma offer_grow:
  assumes inv: "loop_inv l iv (insert i js) (A, via, queue)"
    and i: "i < length l" "\<not> via ! i" "cond (l ! i) A" "blocks (dom' (l ! i)) \<inter> blocks A \<noteq> {}"
    and B: "Valid B" "blocks B = blocks A \<union> blocks (add (l ! i))"
    and q: "\<forall>r \<in> set q'. okrun r" "blocks B - blocks A \<subseteq> rset q'" "rset queue \<subseteq> rset q'"
  shows "loop_inv l iv js (B, via[i := True], q')"
proof -
  note I = inv[unfolded loop_inv_def prod.case]
  from I have VA: "Valid A" by (elim conjE)
  have app: "applies (l ! i) A" using i by (simp add: applies_def)
  have sub: "blocks A \<subseteq> blocks B" using B(2) by simp
  have used: "applies (l ! k) B \<and> blocks (add (l ! k)) \<subseteq> blocks B"
    if "k < length l" "via[i := True] ! k" for k
  proof (cases "k = i")
    case True
    then show ?thesis using applies_mono[OF app VA B(1) sub] B(2) by simp
  next
    case False
    then have "via ! k" using that(2) by simp
    then have "applies (l ! k) A" "blocks (add (l ! k)) \<subseteq> blocks A" using I that(1) by auto
    then show ?thesis using applies_mono[OF _ VA B(1) sub] sub by (meson order_trans)
  qed
  have pending: "k \<in> js \<or> blocks (dom' (l ! k)) \<inter> rset q' \<noteq> {}"
    if k: "k < length l" "\<not> via[i := True] ! k" "applies (l ! k) B" for k
  proof -
    have ki: "k \<noteq> i" "\<not> via ! k" using k(2) I i(1) by (auto split: if_splits simp: nth_list_update)
    show ?thesis
    proof (cases "applies (l ! k) A")
      case True
      then have "k \<in> insert i js \<or> blocks (dom' (l ! k)) \<inter> rset queue \<noteq> {}" using I k(1) ki(2) by blast
      then show ?thesis using ki(1) q(3) by blast
    next
      case False
      have "blocks B = blocks A \<union> (blocks B - blocks A)" using sub by (simp only: Un_Diff_cancel Un_absorb1)
      then have "blocks (dom' (l ! k)) \<inter> (blocks B - blocks A) \<noteq> {}"
        by (rule applies_new[OF k(3) False VA B(1)])
      then show ?thesis using q(2) by fast
    qed
  qed
  have least: "blocks B \<subseteq> T" if T: "blocks iv \<subseteq> T" "closed_under l T" for T
  proof -
    have "blocks A \<subseteq> T" using I T by blast
    moreover have "blocks (add (l ! i)) \<subseteq> T"
      using T(2)[unfolded closed_under_def, rule_format, of "l ! i" A] calculation app VA i(1) by simp
    ultimately show ?thesis using B(2) by simp
  qed
  show ?thesis
    unfolding loop_inv_def prod.case
  proof (intro conjI)
    show "Valid B" "\<forall>r \<in> set q'. okrun r" using B(1) q(1) by simp_all
    show "length (via[i := True]) = length l" "blocks iv \<subseteq> blocks B" using I sub by auto
  qed (use used pending least in blast)+
qed

lemma offer_inv:
  assumes inv: "loop_inv l iv (insert i js) (A, via, queue)"
    and i: "i < length l" "blocks (dom' (l ! i)) \<inter> blocks A \<noteq> {}"
  shows "loop_inv l iv js (close_offer stp l i (A, via, queue))"
proof -
  note I = inv[unfolded loop_inv_def prod.case]
  from I have VA: "Valid A" by (elim conjE)
  from I have qs: "\<forall>r \<in> set queue. okrun r" by (elim conjE)
  have len: "\<not> i \<ge> length via" using I i(1) by simp
  consider (used) "via ! i" | (no) "\<not> via ! i" "\<not> cond (l ! i) A" | (yes) "\<not> via ! i" "cond (l ! i) A" by blast
  then show ?thesis
  proof cases
    case used
    then show ?thesis using inv by (auto simp: close_offer_def loop_inv_def)
  next
    case no
    then have "\<not> applies (l ! i) A" by (simp add: applies_def)
    then show ?thesis using inv no by (auto simp: close_offer_def loop_inv_def)
  next
    case yes
    let ?B = "Interval_Union A (add (l ! i))"
    have B: "Valid ?B" "blocks ?B = blocks A \<union> blocks (add (l ! i))"
      using VA by (auto simp: Union_correct)
    show ?thesis
    proof (cases "?B = A")
      case True
      then have "loop_inv l iv js (A, via[i := True], queue)"
        using offer_grow[OF inv i(1) yes i(2), of A queue] B VA qs by simp
      then show ?thesis using yes len True by (simp add: close_offer_def)
    next
      case False
      then have ne: "blocks ?B \<noteq> blocks A" using blocks_inj[OF B(1) VA] by blast
      then have "Valid (add (l ! i))" using B(2) blocks_empty_iff[of "add (l ! i)"] by auto
      then have r: "\<forall>r \<in> set (runs (add (l ! i))). okrun r" "rset (rev (runs (add (l ! i)))) = blocks (add (l ! i))"
        using Valid_runs_ok by (auto simp: blocks_def rset_def)
      have "loop_inv l iv js (?B, via[i := True], rev (runs (add (l ! i))) @ queue)"
      proof (rule offer_grow[OF inv i(1) yes i(2) B])
        show "\<forall>r \<in> set (rev (runs (add (l ! i))) @ queue). okrun r" using r(1) qs by auto
        show "blocks ?B - blocks A \<subseteq> rset (rev (runs (add (l ! i))) @ queue)"
          "rset queue \<subseteq> rset (rev (runs (add (l ! i))) @ queue)"
          unfolding rset_simps r(2) B(2) by auto
      qed
      then show ?thesis using yes len False by (simp add: close_offer_def Let_def)
    qed
  qed
qed

lemma offers_inv:
  assumes "loop_inv l iv (set js) (A, via, queue)"
    and "\<forall>i \<in> set js. i < length l \<and> blocks (dom' (l ! i)) \<inter> blocks A \<noteq> {}"
  shows "loop_inv l iv {} (fold (close_offer stp l) js (A, via, queue))"
  using assms
proof (induction js arbitrary: A via queue)
  case (Cons i js)
  obtain B via' queue' where B: "close_offer stp l i (A, via, queue) = (B, via', queue')"
    by (cases "close_offer stp l i (A, via, queue)") auto
  have "loop_inv l iv (insert i (set js)) (A, via, queue)" using Cons.prems(1) by simp
  then have inv: "loop_inv l iv (set js) (B, via', queue')"
    using offer_inv[of l iv i "set js" A via queue] Cons.prems(2) B by simp
  have "blocks A \<subseteq> blocks B"
    using B by (auto simp: close_offer_def Let_def Union_correct split: if_splits)
  then have "\<forall>k \<in> set js. k < length l \<and> blocks (dom' (l ! k)) \<inter> blocks B \<noteq> {}"
    using Cons.prems(2) by fastforce
  from Cons.IH[OF inv this] show ?case by (simp add: B)
qed simp

lemma offer_queue:
  assumes "rset q \<subseteq> blocks B" and C: "close_offer stp l j (B, v, q) = (C, v', q')"
  shows "rset q' \<subseteq> blocks C"
proof -
  have *: "rset (rev (runs X) @ q) \<subseteq> blocks (Interval_Union B X)" if "Interval_Union B X \<noteq> B" for X
  proof -
    have "Valid X" using that by (rule contrapos_np) (simp add: Interval_Union_def)
    then have "rset (rev (runs X) @ q) = blocks X \<union> rset q" by (simp add: blocks_def rset_def)
    then show ?thesis using assms(1) by (auto simp: Union_correct)
  qed
  have "C = B \<and> q' = q \<or> Interval_Union B (add (l ! j)) \<noteq> B \<and>
      C = Interval_Union B (add (l ! j)) \<and> q' = rev (runs (add (l ! j))) @ q"
    using C by (simp only: close_offer_def Let_def prod.case split: if_splits) simp_all
  then show ?thesis using * assms(1) by (elim disjE) simp_all
qed

lemma offers_queue:
  "rset q \<subseteq> blocks B \<Longrightarrow> rset (snd (snd (fold (close_offer stp l) js (B, v, q)))) \<subseteq>
     blocks (fst (fold (close_offer stp l) js (B, v, q)))"
proof (induction js arbitrary: B v q)
  case (Cons j js)
  obtain C v' q' where C: "close_offer stp l j (B, v, q) = (C, v', q')"
    by (cases "close_offer stp l j (B, v, q)") auto
  from Cons.IH[OF offer_queue[OF Cons.prems C]] show ?case using C by simp
qed simp

lemma close_loop_inv:
  assumes "loop_inv l iv {} st" "rset (snd (snd st)) \<subseteq> blocks (fst st)"
  shows "\<exists>A via. close_loop stp l (index_claims dom' l) st = (A, via) \<and> loop_inv l iv {} (A, via, [])"
  using assms
proof (induction "stp" l "index_claims dom' l" st rule: close_loop.induct)
  case (2 l A via r queue)
  let ?x = "index_claims dom' l"
  have r: "okrun r" "{gMin r..gMax r} \<subseteq> blocks A" using 2(2,3) by (auto simp: loop_inv_def)
  have js: "set (meeting ?x r) = {i. i < length l \<and> blocks (dom' (l ! i)) \<inter> {gMin r..gMax r} \<noteq> {}}"
    by (rule meeting_claims[OF r(1)])
  have inv: "loop_inv l iv (set (meeting ?x r)) (A, via, queue)"
    using 2(2) unfolding loop_inv_def prod.case js rset_simps by (auto simp: Int_Un_distrib)
  have meets: "\<forall>i \<in> set (meeting ?x r). i < length l \<and> blocks (dom' (l ! i)) \<inter> blocks A \<noteq> {}"
    unfolding js using r(2) by blast
  note inv' = offers_inv[OF inv meets]
  have "rset queue \<subseteq> blocks A" using 2(3) by simp
  from offers_queue[OF this]
  have "rset (snd (snd (fold (close_offer stp l) (meeting ?x r) (A, via, queue)))) \<subseteq>
        blocks (fst (fold (close_offer stp l) (meeting ?x r) (A, via, queue)))" .
  from 2(1)[OF inv' this] show ?case by simp
qed simp

text \<open>What the closure of a valid interval is.\<close>

lemma close_from_props:
  assumes "Valid iv" and close: "close_from l iv (index_claims dom' l) stp = (A, via)"
  shows "Valid A" and "blocks iv \<subseteq> blocks A" and "length via = length l"
    and "\<And>i. i < length l \<Longrightarrow> via ! i \<longleftrightarrow> applies (l ! i) A"
    and "\<And>c. c \<in> set l \<Longrightarrow> applies c A \<Longrightarrow> blocks (add c) \<subseteq> blocks A"
    and "\<And>T. blocks iv \<subseteq> T \<Longrightarrow> closed_under l T \<Longrightarrow> blocks A \<subseteq> T"
proof -
  let ?st = "(iv, replicate (length l) False, rev (runs iv))"
  have "loop_inv l iv {} ?st"
    using assms(1) Valid_runs_ok[OF assms(1)]
    by (auto simp: loop_inv_def applies_def blocks_def rset_def)
  moreover have "rset (snd (snd ?st)) \<subseteq> blocks (fst ?st)" using assms(1) by (simp add: blocks_def rset_def)
  ultimately obtain A' via' where *: "close_loop stp l (index_claims dom' l) ?st = (A', via')"
    "loop_inv l iv {} (A', via', [])" using close_loop_inv by meson
  then have "A' = A" "via' = via" using close assms(1) by (simp_all add: close_from_def Let_def)
  with * have inv: "loop_inv l iv {} (A, via, [])" by simp
  then show "Valid A" "blocks iv \<subseteq> blocks A" "length via = length l" by (auto simp: loop_inv_def)
  show via: "via ! i \<longleftrightarrow> applies (l ! i) A" if "i < length l" for i
    using inv that by (auto simp: loop_inv_def)
  show "blocks (add c) \<subseteq> blocks A" if "c \<in> set l" "applies c A" for c
  proof -
    from \<open>c \<in> set l\<close> obtain i where i: "i < length l" "c = l ! i" by (auto simp: in_set_conv_nth)
    have "\<forall>i < length l. via ! i \<longrightarrow> blocks (add (l ! i)) \<subseteq> blocks A"
      using inv by (simp add: loop_inv_def)
    then show ?thesis using i via[OF i(1)] that(2) by simp
  qed
  show "blocks A \<subseteq> T" if "blocks iv \<subseteq> T" "closed_under l T" for T
    using inv that by (auto simp: loop_inv_def)
qed

lemma close_from_length: "length (snd (close_from l iv (index_claims dom' l) stp)) = length l"
proof (cases "Valid iv")
  case True
  then show ?thesis
    using close_from_props(3)[OF True, of l] by (cases "close_from l iv (index_claims dom' l) stp") simp
qed (simp add: close_from_def)

end

subsection \<open>The four closures\<close>

interpretation cl_holds: closing cBlocks "\<lambda>c held. Contains held (cBlocks c)" cGroup
  by unfold_locales (auto simp: Contains_iff)

interpretation cl_up: closing cGroup "\<lambda>c held. True" cBlocks
  by unfold_locales auto

interpretation cl_down: closing cBlocks "\<lambda>c held. True" cGroup
  by unfold_locales auto

interpretation cl_real: closing cGroup "\<lambda>c held. Contains held (cGroup c)" cBlocks
  by unfold_locales (auto simp: Contains_iff)


subsection \<open>The closures as inductive sets\<close>

text \<open>
  What the four closures mean, with no queue and no index: the blocks derivable from a set by the
  claims of a lineage.
\<close>

inductive_set held_blocks :: "Lineage \<Rightarrow> Block set \<Rightarrow> Block set" for l S where
  held_base: "b \<in> S \<Longrightarrow> b \<in> held_blocks l S"
| held_step: "c \<in> set l \<Longrightarrow> Valid (cBlocks c) \<Longrightarrow> \<forall>a \<in> blocks (cBlocks c). a \<in> held_blocks l S \<Longrightarrow>
    b \<in> blocks (cGroup c) \<Longrightarrow> b \<in> held_blocks l S"

inductive_set realized_blocks :: "Lineage \<Rightarrow> Block set \<Rightarrow> Block set" for l S where
  realized_base: "b \<in> S \<Longrightarrow> b \<in> realized_blocks l S"
| realized_step: "c \<in> set l \<Longrightarrow> Valid (cGroup c) \<Longrightarrow> \<forall>a \<in> blocks (cGroup c). a \<in> realized_blocks l S \<Longrightarrow>
    b \<in> blocks (cBlocks c) \<Longrightarrow> b \<in> realized_blocks l S"

inductive_set ancestor_blocks :: "Lineage \<Rightarrow> Block set \<Rightarrow> Block set" for l S where
  anc_base: "b \<in> S \<Longrightarrow> b \<in> ancestor_blocks l S"
| anc_step: "c \<in> set l \<Longrightarrow> a \<in> blocks (cGroup c) \<Longrightarrow> a \<in> ancestor_blocks l S \<Longrightarrow>
    b \<in> blocks (cBlocks c) \<Longrightarrow> b \<in> ancestor_blocks l S"

inductive_set descendant_blocks :: "Lineage \<Rightarrow> Block set \<Rightarrow> Block set" for l S where
  desc_base: "b \<in> S \<Longrightarrow> b \<in> descendant_blocks l S"
| desc_step: "c \<in> set l \<Longrightarrow> a \<in> blocks (cBlocks c) \<Longrightarrow> a \<in> descendant_blocks l S \<Longrightarrow>
    b \<in> blocks (cGroup c) \<Longrightarrow> b \<in> descendant_blocks l S"

lemma invalid_closures:
  "held_blocks l {} = {}" "realized_blocks l {} = {}" "ancestor_blocks l {} = {}" "descendant_blocks l {} = {}"
proof -
  have "b \<in> held_blocks l {} \<Longrightarrow> False" for b
    by (induction rule: held_blocks.induct) (use blocks_empty_iff in fastforce)+
  moreover have "b \<in> realized_blocks l {} \<Longrightarrow> False" for b
    by (induction rule: realized_blocks.induct) (use blocks_empty_iff in fastforce)+
  moreover have "b \<in> ancestor_blocks l {} \<Longrightarrow> False" for b by (induction rule: ancestor_blocks.induct) auto
  moreover have "b \<in> descendant_blocks l {} \<Longrightarrow> False" for b by (induction rule: descendant_blocks.induct) auto
  ultimately show "held_blocks l {} = {}" "realized_blocks l {} = {}"
    "ancestor_blocks l {} = {}" "descendant_blocks l {} = {}" by blast+
qed

lemma no_claims:
  "held_blocks [] S = S" "realized_blocks [] S = S" "ancestor_blocks [] S = S" "descendant_blocks [] S = S"
  by (auto intro: held_base realized_base anc_base desc_base
      elim: held_blocks.cases realized_blocks.cases ancestor_blocks.cases descendant_blocks.cases)


lemma ancestor_mono:
  assumes "set l \<subseteq> set l'" "S \<subseteq> S'"
  shows "ancestor_blocks l S \<subseteq> ancestor_blocks l' S'"
proof
  fix b assume "b \<in> ancestor_blocks l S"
  then show "b \<in> ancestor_blocks l' S'"
  proof induction
    case (anc_step c a b)
    then show ?case using assms(1) ancestor_blocks.anc_step[of c l' a S' b] by blast
  qed (use assms(2) in \<open>blast intro: anc_base\<close>)
qed

lemma realized_mono:
  assumes "set l \<subseteq> set l'" "S \<subseteq> S'"
  shows "realized_blocks l S \<subseteq> realized_blocks l' S'"
proof
  fix b assume "b \<in> realized_blocks l S"
  then show "b \<in> realized_blocks l' S'"
  proof induction
    case (realized_step c b)
    then show ?case using assms(1) realized_blocks.realized_step[of c l' S' b] by blast
  qed (use assms(2) in \<open>blast intro: realized_base\<close>)
qed

lemma held_steps:
  "c \<in> set l \<Longrightarrow> Valid (cBlocks c) \<Longrightarrow> blocks (cBlocks c) \<subseteq> held_blocks l S \<Longrightarrow> blocks (cGroup c) \<subseteq> held_blocks l S"
  by (rule subsetI, rule held_step) auto

lemma realized_steps:
  "c \<in> set l \<Longrightarrow> Valid (cGroup c) \<Longrightarrow> blocks (cGroup c) \<subseteq> realized_blocks l S \<Longrightarrow>
   blocks (cBlocks c) \<subseteq> realized_blocks l S"
  by (rule subsetI, rule realized_step) auto

lemma contains_applies:
  "Valid A \<Longrightarrow> blocks w \<inter> blocks A \<noteq> {} \<and> Contains A w \<longleftrightarrow> Valid w \<and> blocks w \<subseteq> blocks A"
  using blocks_empty_iff[of w] by (auto simp: Contains_iff)

lemmas applies_all =
  cl_holds.applies_def[of c A for c A, THEN trans, OF contains_applies]
  cl_real.applies_def[of c A for c A, THEN trans, OF contains_applies]

lemma holds_blocks: "blocks (holds l iv) = held_blocks l (blocks iv)"
  and holds_Valid: "Valid (holds l iv) \<longleftrightarrow> Valid iv"
proof -
  have "blocks (holds l iv) = held_blocks l (blocks iv) \<and> Valid (holds l iv)" if V: "Valid iv" "l \<noteq> []"
  proof -
    obtain A via where A: "close_from l iv (index_claims cBlocks l) cl_holds.stp = (A, via)" by (rule prod.exhaust)
    note P = cl_holds.close_from_props[OF V(1) A]
    have "b \<in> held_blocks l (blocks iv) \<Longrightarrow> b \<in> blocks A" for b
    proof (induction rule: held_blocks.induct)
      case (held_step c b)
      then have "cl_holds.applies c A"
        unfolding applies_all(1)[OF P(1)] by blast
      then show ?case using P(5) held_step by blast
    qed (use P(2) in blast)
    moreover have "cl_holds.closed_under l (held_blocks l (blocks iv))"
      unfolding cl_holds.closed_under_def by (intro ballI allI impI, elim conjE, rule held_steps) (auto simp: applies_all(1))
    ultimately have "blocks A = held_blocks l (blocks iv)" using P(6) by (blast intro: held_base)
    then show ?thesis using A P(1) V(2) by (simp add: holds_def)
  qed
  moreover have "holds l iv = iv \<and> held_blocks l (blocks iv) = blocks iv" if "\<not> Valid iv \<or> l = []"
    using that blocks_empty_iff[of iv] by (auto simp: holds_def close_from_def invalid_closures no_claims)
  ultimately show "blocks (holds l iv) = held_blocks l (blocks iv)" "Valid (holds l iv) \<longleftrightarrow> Valid iv"
    by (cases "Valid iv \<and> l \<noteq> []"; simp)+
qed

lemma realize_props:
  "blocks (fst (realize l iv)) = realized_blocks l (blocks iv)" "Valid (fst (realize l iv)) \<longleftrightarrow> Valid iv"
  "length (snd (realize l iv)) = length l"
  "i < length l \<Longrightarrow> snd (realize l iv) ! i \<longleftrightarrow>
     Valid (cGroup (l ! i)) \<and> blocks (cGroup (l ! i)) \<subseteq> realized_blocks l (blocks iv)"
proof -
  have *: "blocks (fst (realize l iv)) = realized_blocks l (blocks iv) \<and> Valid (fst (realize l iv)) \<and>
      length (snd (realize l iv)) = length l \<and>
      (\<forall>i < length l. snd (realize l iv) ! i \<longleftrightarrow>
         Valid (cGroup (l ! i)) \<and> blocks (cGroup (l ! i)) \<subseteq> realized_blocks l (blocks iv))" if V: "Valid iv" "l \<noteq> []"
  proof -
    obtain A via where A: "close_from l iv (index_claims cGroup l) cl_real.stp = (A, via)" by (rule prod.exhaust)
    note P = cl_real.close_from_props[OF V(1) A]
    have app: "cl_real.applies c A \<longleftrightarrow> Valid (cGroup c) \<and> blocks (cGroup c) \<subseteq> blocks A" for c
    using applies_all(2)[OF P(1)] .
    have "b \<in> realized_blocks l (blocks iv) \<Longrightarrow> b \<in> blocks A" for b
    proof (induction rule: realized_blocks.induct)
      case (realized_step c b)
      then show ?case using P(5) app by blast
    qed (use P(2) in blast)
    moreover have "cl_real.closed_under l (realized_blocks l (blocks iv))"
      unfolding cl_real.closed_under_def by (intro ballI allI impI, elim conjE, rule realized_steps) (auto simp: applies_all(2))
    ultimately have "blocks A = realized_blocks l (blocks iv)" using P(6) by (blast intro: realized_base)
    then show ?thesis using A P(1,3,4) app V(2) by (simp add: realize_def)
  qed
  have inv: "realize l iv = (iv, replicate (length l) False) \<and> realized_blocks l (blocks iv) = blocks iv"
    if "\<not> Valid iv \<or> l = []"
    using that blocks_empty_iff[of iv] by (auto simp: realize_def close_from_def invalid_closures no_claims)
  show "blocks (fst (realize l iv)) = realized_blocks l (blocks iv)" "Valid (fst (realize l iv)) \<longleftrightarrow> Valid iv"
    "length (snd (realize l iv)) = length l"
    using * inv by (cases "Valid iv \<and> l \<noteq> []"; simp)+
  show "snd (realize l iv) ! i \<longleftrightarrow>
     Valid (cGroup (l ! i)) \<and> blocks (cGroup (l ! i)) \<subseteq> realized_blocks l (blocks iv)"
    if i: "i < length l"
  proof (cases "Valid iv")
    case True
    then have "Valid iv" "l \<noteq> []" using i by auto
    from *[OF this] i show ?thesis by simp
  next
    case False
    then have "\<not> snd (realize l iv) ! i" "realized_blocks l (blocks iv) = {}"
      using inv i blocks_empty_iff[of iv] by simp_all
    then show ?thesis using blocks_empty_iff[of "cGroup (l ! i)"] by simp
  qed
qed


lemma ancestry_props:
  "blocks (fst (ancestry l iv)) = ancestor_blocks l (blocks iv)" "Valid (fst (ancestry l iv)) \<longleftrightarrow> Valid iv"
  "length (snd (ancestry l iv)) = length l"
  "i < length l \<Longrightarrow> snd (ancestry l iv) ! i \<longleftrightarrow> blocks (cGroup (l ! i)) \<inter> ancestor_blocks l (blocks iv) \<noteq> {}"
proof -
  have *: "blocks (fst (ancestry l iv)) = ancestor_blocks l (blocks iv) \<and> Valid (fst (ancestry l iv)) \<and>
      length (snd (ancestry l iv)) = length l \<and>
      (\<forall>i < length l. snd (ancestry l iv) ! i \<longleftrightarrow> blocks (cGroup (l ! i)) \<inter> ancestor_blocks l (blocks iv) \<noteq> {})"
    if V: "Valid iv" "l \<noteq> []"
  proof -
    obtain A via where A: "close_from l iv (index_claims cGroup l) cl_up.stp = (A, via)" by (rule prod.exhaust)
    note P = cl_up.close_from_props[OF V(1) A]
    have app: "cl_up.applies c A \<longleftrightarrow> blocks (cGroup c) \<inter> blocks A \<noteq> {}" for c A
      by (simp only: cl_up.applies_def simp_thms)
    have "b \<in> ancestor_blocks l (blocks iv) \<Longrightarrow> b \<in> blocks A" for b
    proof (induction rule: ancestor_blocks.induct)
      case (anc_step c a b)
      then show ?case using P(5)[of c] unfolding app by blast
    qed (use P(2) in blast)
    moreover have "cl_up.closed_under l (ancestor_blocks l (blocks iv))"
      unfolding cl_up.closed_under_def app by (auto intro: anc_step)
    ultimately have "blocks A = ancestor_blocks l (blocks iv)" using P(6) by (blast intro: anc_base)
    then show ?thesis using A P(1,3,4) app V(2) by (simp add: ancestry_def)
  qed
  have inv: "ancestry l iv = (iv, replicate (length l) False) \<and> ancestor_blocks l (blocks iv) = blocks iv"
    if "\<not> Valid iv \<or> l = []"
    using that blocks_empty_iff[of iv] by (auto simp: ancestry_def close_from_def invalid_closures no_claims )
  show "blocks (fst (ancestry l iv)) = ancestor_blocks l (blocks iv)" "Valid (fst (ancestry l iv)) \<longleftrightarrow> Valid iv"
    "length (snd (ancestry l iv)) = length l"
    using * inv by (cases "Valid iv \<and> l \<noteq> []"; simp)+
  show "snd (ancestry l iv) ! i \<longleftrightarrow> blocks (cGroup (l ! i)) \<inter> ancestor_blocks l (blocks iv) \<noteq> {}"
    if i: "i < length l"
  proof (cases "Valid iv")
    case True
    then have "Valid iv" "l \<noteq> []" using i by auto
    from *[OF this] i show ?thesis by simp
  next
    case False
    then show ?thesis using inv i blocks_empty_iff[of iv] by simp
  qed
qed

text \<open>With no claims the closure loop only empties its stack.\<close>

lemma close_loop_no_claims: "close_loop stp [] (index_claims sel []) (iv, [], queue) = (iv, [])"
proof (induction queue)
  case (Cons r queue)
  have "meeting (index_claims sel []) r = []"
    by (simp add: index_claims_def runIndex_build_def sort_func_def meeting_def scan_from_def)
  then show ?case using Cons by simp
qed simp

lemma descendants_props:
  "blocks (fst (descendants l iv)) = descendant_blocks l (blocks iv)" "Valid (fst (descendants l iv)) \<longleftrightarrow> Valid iv"
  "length (snd (descendants l iv)) = length l"
  "i < length l \<Longrightarrow> snd (descendants l iv) ! i \<longleftrightarrow> blocks (cBlocks (l ! i)) \<inter> descendant_blocks l (blocks iv) \<noteq> {}"
proof -
  have *: "blocks (fst (descendants l iv)) = descendant_blocks l (blocks iv) \<and> Valid (fst (descendants l iv)) \<and>
      length (snd (descendants l iv)) = length l \<and>
      (\<forall>i < length l. snd (descendants l iv) ! i \<longleftrightarrow> blocks (cBlocks (l ! i)) \<inter> descendant_blocks l (blocks iv) \<noteq> {})"
    if V: "Valid iv" "l \<noteq> []"
  proof -
    obtain A via where A: "close_from l iv (index_claims cBlocks l) cl_down.stp = (A, via)" by (rule prod.exhaust)
    note P = cl_down.close_from_props[OF V(1) A]
    have app: "cl_down.applies c A \<longleftrightarrow> blocks (cBlocks c) \<inter> blocks A \<noteq> {}" for c A
      by (simp only: cl_down.applies_def simp_thms)
    have "b \<in> descendant_blocks l (blocks iv) \<Longrightarrow> b \<in> blocks A" for b
    proof (induction rule: descendant_blocks.induct)
      case (desc_step c a b)
      then show ?case using P(5)[of c] unfolding app by blast
    qed (use P(2) in blast)
    moreover have "cl_down.closed_under l (descendant_blocks l (blocks iv))"
      unfolding cl_down.closed_under_def app by (auto intro: desc_step)
    ultimately have "blocks A = descendant_blocks l (blocks iv)" using P(6) by (blast intro: desc_base)
    then show ?thesis using A P(1,3,4) app V(2) by (simp add: descendants_def)
  qed
  have inv: "descendants l iv = (iv, replicate (length l) False) \<and> descendant_blocks l (blocks iv) = blocks iv"
    if "\<not> Valid iv \<or> l = []"
    using that blocks_empty_iff[of iv] by (auto simp: descendants_def close_from_def invalid_closures no_claims close_loop_no_claims)
  show "blocks (fst (descendants l iv)) = descendant_blocks l (blocks iv)" "Valid (fst (descendants l iv)) \<longleftrightarrow> Valid iv"
    "length (snd (descendants l iv)) = length l"
    using * inv by (cases "Valid iv \<and> l \<noteq> []"; simp)+
  show "snd (descendants l iv) ! i \<longleftrightarrow> blocks (cBlocks (l ! i)) \<inter> descendant_blocks l (blocks iv) \<noteq> {}"
    if i: "i < length l"
  proof (cases "Valid iv")
    case True
    then have "Valid iv" "l \<noteq> []" using i by auto
    from *[OF this] i show ?thesis by simp
  next
    case False
    then show ?thesis using inv i blocks_empty_iff[of iv] by simp
  qed
qed


subsection \<open>The shared-marks descent\<close>

definition marks :: "bool list \<Rightarrow> nat set" where
  "marks r = {i. i < length r \<and> r ! i}"

definition parents :: "Lineage \<Rightarrow> Interval \<Rightarrow> nat set" where
  "parents l iv = {i. i < length l \<and> blocks (cGroup (l ! i)) \<inter> blocks iv \<noteq> {}}"

text \<open>Marks an earlier call left: whatever a marked claim leads to is marked.\<close>

definition marks_closed :: "Lineage \<Rightarrow> nat set \<Rightarrow> bool" where
  "marks_closed l M \<longleftrightarrow> (\<forall>i \<in> M. parents l (cBlocks (l ! i)) \<subseteq> M)"

lemma reach_pushes:
  assumes "fold reach_push js (r, q) = (r', q')" "set js \<subseteq> {..<length r}"
  shows "length r' = length r" "marks r' = marks r \<union> set js" "set q' = set q \<union> (set js - marks r)"
proof -
  have "length r' = length r \<and> marks r' = marks r \<union> set js \<and> set q' = set q \<union> (set js - marks r)"
    using assms
  proof (induction js arbitrary: r q)
    case (Cons j js)
    define r1 q1 where "r1 = (if r ! j then r else r[j := True])" and "q1 = (if r ! j then q else j # q)"
    have step: "reach_push j (r, q) = (r1, q1)" using Cons.prems(2) by (simp add: reach_push_def r1_def q1_def)
    have r1: "length r1 = length r" "marks r1 = insert j (marks r)" "set q1 = set q \<union> ({j} - marks r)"
      using Cons.prems(2) by (auto simp: r1_def q1_def marks_def nth_list_update split: if_splits)
    have "fold reach_push js (r1, q1) = (r', q')" "set js \<subseteq> {..<length r1}"
      using Cons.prems step r1(1) by auto
    from Cons.IH[OF this] show ?case using r1 by auto
  qed simp
  then show "length r' = length r" "marks r' = marks r \<union> set js" "set q' = set q \<union> (set js - marks r)" by blast+
qed

lemma reach_loop_marks:
  assumes "\<forall>c \<in> set l. Valid (cBlocks c)" "length (fst st) = length l"
    and "set (snd st) \<subseteq> marks (fst st)" "\<forall>i \<in> marks (fst st). i \<in> set (snd st) \<or> parents l (cBlocks (l ! i)) \<subseteq> marks (fst st)"
    and "marks_closed l V" "marks (fst st) \<subseteq> V"
  shows "length (reach_loop l st) = length l" "marks (fst st) \<subseteq> marks (reach_loop l st)"
    "marks_closed l (marks (reach_loop l st))" "marks (reach_loop l st) \<subseteq> V"
proof -
  have "length (reach_loop l st) = length l \<and> marks (fst st) \<subseteq> marks (reach_loop l st) \<and>
      marks_closed l (marks (reach_loop l st)) \<and> marks (reach_loop l st) \<subseteq> V"
    using assms
  proof (induction l st rule: reach_loop.induct)
    case (1 l reached)
    then show ?case by (auto simp: marks_closed_def)
  next
    case (2 l reached i queue)
    let ?js = "meetingInterval (index_claims cGroup l) (cBlocks (l ! i))"
    have i: "i < length l" "i \<in> marks reached" using 2(3,4) by (auto simp: marks_def)
    then have js: "set ?js = parents l (cBlocks (l ! i))"
      using 2(2) meetingInterval_claims[of "cBlocks (l ! i)" cGroup l] by (simp add: parents_def)
    obtain r q where rq: "fold reach_push ?js (reached, queue) = (r, q)" by (rule prod.exhaust)
    have sub: "set ?js \<subseteq> {..<length reached}" using js 2(3) by (auto simp: parents_def)
    note P = reach_pushes[OF rq sub]
    have V: "set ?js \<subseteq> V" using 2(6,7) i(2) unfolding js by (auto simp: marks_closed_def)
    have "length r = length l" using P(1) 2(3) by simp
    moreover have "set q \<subseteq> marks r" using P(2,3) 2(4) by auto
    moreover have "\<forall>k \<in> marks r. k \<in> set q \<or> parents l (cBlocks (l ! k)) \<subseteq> marks r"
    proof
      fix k assume "k \<in> marks r"
      then consider "k = i" | "k \<in> set queue" | "k \<in> set ?js - marks reached" | "parents l (cBlocks (l ! k)) \<subseteq> marks reached"
        using P(2) 2(5) by auto
      then show "k \<in> set q \<or> parents l (cBlocks (l ! k)) \<subseteq> marks r" using P(2,3) js by cases auto
    qed
    moreover have "marks r \<subseteq> V" using P(2) V 2(7) by auto
    ultimately have "length (reach_loop l (r, q)) = length l \<and> marks r \<subseteq> marks (reach_loop l (r, q)) \<and>
      marks_closed l (marks (reach_loop l (r, q))) \<and> marks (reach_loop l (r, q)) \<subseteq> V"
      using 2(1)[unfolded rq, OF 2(2)] 2(6) by simp
    then show ?case using rq P(2) by simp
  qed
  then show "length (reach_loop l st) = length l" "marks (fst st) \<subseteq> marks (reach_loop l st)"
    "marks_closed l (marks (reach_loop l st))" "marks (reach_loop l st) \<subseteq> V" by blast+
qed


lemma ancestry_marks: "marks (snd (ancestry l iv)) =
    {i. i < length l \<and> blocks (cGroup (l ! i)) \<inter> ancestor_blocks l (blocks iv) \<noteq> {}}"
  using ancestry_props(3)[of l iv] ancestry_props(4)[of _ l iv] by (auto simp: marks_def)

lemma ancestry_marks_closed: "marks_closed l (marks (snd (ancestry l iv)))"
  by (fastforce simp: ancestry_marks marks_closed_def parents_def intro: anc_step[OF nth_mem])

lemma ancestor_marked:
  assumes "marks_closed l M" "parents l iv \<subseteq> M" "b \<in> ancestor_blocks l (blocks iv)"
  shows "b \<in> blocks iv \<or> (\<exists>i \<in> M. b \<in> blocks (cBlocks (l ! i)))"
  using assms(3)
proof (induction rule: ancestor_blocks.induct)
  case (anc_step c a b)
  obtain k where k: "k < length l" "c = l ! k" using anc_step(1) by (auto simp: in_set_conv_nth)
  from anc_step(5) have "k \<in> M"
  proof
    assume "a \<in> blocks iv"
    then show ?thesis using k anc_step(2) assms(2) by (auto simp: parents_def)
  next
    assume "\<exists>i \<in> M. a \<in> blocks (cBlocks (l ! i))"
    then show ?thesis using k anc_step(2) assms(1) by (auto simp: parents_def marks_closed_def)
  qed
  then show ?case using k anc_step(4) by blast
qed simp

lemma reachAncestry_marks:
  assumes "\<forall>c \<in> set l. Valid (cBlocks c)" "length reached = length l" "marks_closed l (marks reached)"
  shows "length (reachAncestry l reached iv) = length l"
    and "marks (reachAncestry l reached iv) = marks reached \<union> marks (snd (ancestry l iv))"
    and "marks_closed l (marks (reachAncestry l reached iv))"
proof -
  have "length (reachAncestry l reached iv) = length l \<and>
    marks (reachAncestry l reached iv) = marks reached \<union> marks (snd (ancestry l iv))"
  proof (cases "Valid iv")
    case False
    then have "blocks iv = {}" using blocks_empty_iff by blast
    then show ?thesis using False assms(2) by (simp add: reachAncestry_def ancestry_marks invalid_closures)
  next
    case True
    let ?js = "meetingInterval (index_claims cGroup l) iv" and ?V = "marks reached \<union> marks (snd (ancestry l iv))"
    obtain r q where rq: "fold reach_push ?js (reached, []) = (r, q)" by (rule prod.exhaust)
    have js: "set ?js = parents l iv" using meetingInterval_claims[OF True] by (simp add: parents_def)
    have "set ?js \<subseteq> {..<length reached}" using js assms(2) by (auto simp: parents_def)
    note P = reach_pushes[OF rq this]
    have V: "marks_closed l ?V" using assms(3) ancestry_marks_closed[of l iv] by (auto simp: marks_closed_def)
    have "parents l iv \<subseteq> marks (snd (ancestry l iv))"
      by (auto simp: parents_def ancestry_marks intro: anc_base)
    then have sub: "marks (fst (r, q)) \<subseteq> ?V" using P(2) js by auto
    have "set (snd (r, q)) \<subseteq> marks (fst (r, q))" using P(2,3) by auto
    moreover have "\<forall>i \<in> marks (fst (r, q)). i \<in> set (snd (r, q)) \<or> parents l (cBlocks (l ! i)) \<subseteq> marks (fst (r, q))"
      using P(2,3) assms(3) by (auto simp: marks_closed_def)
    moreover have "length (fst (r, q)) = length l" using P(1) assms(2) by simp
    ultimately have L: "length (reach_loop l (r, q)) = length l" "marks r \<subseteq> marks (reach_loop l (r, q))"
      "marks_closed l (marks (reach_loop l (r, q)))" "marks (reach_loop l (r, q)) \<subseteq> ?V"
      using reach_loop_marks[OF assms(1) _ _ _ V sub] by simp_all
    have M: "parents l iv \<subseteq> marks (reach_loop l (r, q))" using L(2) P(2) js by auto
    have "marks (snd (ancestry l iv)) \<subseteq> marks (reach_loop l (r, q))"
      using ancestor_marked[OF L(3) M] M L(3)
      by (fastforce simp: ancestry_marks parents_def marks_closed_def)
    then show ?thesis using L P(2) True rq by (auto simp: reachAncestry_def)
  qed
  then show "length (reachAncestry l reached iv) = length l"
    "marks (reachAncestry l reached iv) = marks reached \<union> marks (snd (ancestry l iv))"
    "marks_closed l (marks (reachAncestry l reached iv))"
    using assms(3) ancestry_marks_closed[of l iv] by (auto simp: marks_closed_def)
qed


subsection \<open>Properties of the closures\<close>

text \<open>C2. The four work-queue closures over the run index compute exactly the blocks derivable from an
  interval by the claims of a lineage: nothing is missed for being offered too early and nothing is
  added that no claim justifies, whatever the order of the claims; an unset interval stays unset.\<close>

theorem closures_are_least_fixed_points:
  "blocks (holds l iv) = held_blocks l (blocks iv) \<and> (Valid (holds l iv) \<longleftrightarrow> Valid iv) \<and>
   blocks (fst (ancestry l iv)) = ancestor_blocks l (blocks iv) \<and>
   blocks (fst (descendants l iv)) = descendant_blocks l (blocks iv) \<and>
   blocks (fst (realize l iv)) = realized_blocks l (blocks iv) \<and>
   marks (snd (ancestry l iv)) = {i. i < length l \<and> blocks (cGroup (l ! i)) \<inter> ancestor_blocks l (blocks iv) \<noteq> {}}"
  by (simp add: holds_blocks holds_Valid ancestry_props(1) descendants_props(1) realize_props(1) ancestry_marks)

text \<open>C29. Marking the ancestry of many parts over shared marks, each claim followed once, adds for
  every part exactly the claims its own ancestry passes through.\<close>

theorem shared_descent_marks_ancestry:
  assumes "\<forall>c \<in> set l. Valid (cBlocks c)" "length reached = length l" "marks_closed l (marks reached)"
  shows "marks (reachAncestry l reached iv) = marks reached \<union> marks (snd (ancestry l iv)) \<and>
    marks_closed l (marks (reachAncestry l reached iv)) \<and> length (reachAncestry l reached iv) = length l"
  using reachAncestry_marks[OF assms] by blast

theorem shared_descent_marks_ancestry_witness:
  "let l = [\<lparr>cBlocks = Single (Block 1 1), cGroup = Range 1 2 3\<rparr>, \<lparr>cBlocks = Range 1 2 3, cGroup = Range 1 4 5\<rparr>]
   in marks (reachAncestry l [False, False] (Single (Block 1 4))) = marks [True, True]"
proof -
  let ?l = "[\<lparr>cBlocks = Single (Block 1 1), cGroup = Range 1 2 3\<rparr>, \<lparr>cBlocks = Range 1 2 3, cGroup = Range 1 4 5\<rparr>]"
  have "\<forall>c \<in> set ?l. Valid (cBlocks c)" by (simp add: Single_props Range_props)
  moreover have "marks [False, False] = {}" by (auto simp: marks_def nth_Cons split: nat.splits)
  moreover have "snd (ancestry ?l (Single (Block 1 4))) = [True, True]" by code_simp
  ultimately show ?thesis
    using shared_descent_marks_ancestry[of ?l "[False, False]" "Single (Block 1 4)"]
    by (simp add: marks_closed_def Let_def)
qed

end
