(* ===== verification/Rows.thy ===== *)
theory Rows
  imports Closures
begin

text \<open>
  What the relations of \<^verbatim>\<open>lineage.go\<close> and \<^verbatim>\<open>relater.go\<close> promise about the rows parts hold. A block
  stands for a set of rows; a part holds the rows of the blocks it covers; a claim says that the
  members of its group hold, together, exactly the rows of the blocks the group was cut from.
\<close>

definition rows_of :: "(Block \<Rightarrow> 'r set) \<Rightarrow> Interval \<Rightarrow> 'r set" where
  "rows_of rows iv = \<Union> (rows ` blocks iv)"

definition splits_rows :: "(Block \<Rightarrow> 'r set) \<Rightarrow> Lineage \<Rightarrow> bool" where
  "splits_rows rows l \<longleftrightarrow> (\<forall>c \<in> set l. claim_Valid c \<longrightarrow> rows_of rows (cGroup c) = rows_of rows (cBlocks c))"

lemma splits_rowsD:
  "splits_rows rows l \<Longrightarrow> c \<in> set l \<Longrightarrow> a \<in> blocks (cGroup c) \<Longrightarrow> b \<in> blocks (cBlocks c) \<Longrightarrow>
   rows_of rows (cGroup c) = rows_of rows (cBlocks c)"
  using blocks_empty_iff[of "cGroup c"] blocks_empty_iff[of "cBlocks c"]
  by (auto simp: splits_rows_def claim_Valid_def)

lemma held_rows:
  assumes "splits_rows rows l"
  shows "\<Union> (rows ` held_blocks l S) = \<Union> (rows ` S)"
proof -
  have "rows b \<subseteq> \<Union> (rows ` S)" if "b \<in> held_blocks l S" for b
    using that
  proof (induction rule: held_blocks.induct)
    case (held_step c b)
    obtain a where "a \<in> blocks (cBlocks c)" using held_step(2) blocks_empty_iff by blast
    with splits_rowsD[OF assms held_step(1) held_step(3)]
    have "rows b \<subseteq> rows_of rows (cBlocks c)" using held_step(3) by (auto simp: rows_of_def)
    then show ?case using held_step(4) by (force simp: rows_of_def)
  qed auto
  then show ?thesis by (auto intro: held_base)
qed

lemma realized_rows:
  assumes "splits_rows rows l"
  shows "\<Union> (rows ` realized_blocks l S) = \<Union> (rows ` S)"
proof -
  have "rows b \<subseteq> \<Union> (rows ` S)" if "b \<in> realized_blocks l S" for b
    using that
  proof (induction rule: realized_blocks.induct)
    case (realized_step c b)
    obtain a where "a \<in> blocks (cGroup c)" using realized_step(2) blocks_empty_iff by blast
    with splits_rowsD[OF assms realized_step(1) _ realized_step(3)]
    have "rows b \<subseteq> rows_of rows (cGroup c)" using realized_step(3) by (auto simp: rows_of_def)
    then show ?case using realized_step(4) by (force simp: rows_of_def)
  qed auto
  then show ?thesis by (auto intro: realized_base)
qed

lemma Contains_rows: "Contains a b \<Longrightarrow> rows_of rows b \<subseteq> rows_of rows a"
  by (auto simp: Contains_iff rows_of_def)

lemma Subsumes_sound:
  assumes "splits_rows rows l" "Subsumes l e o'"
  shows "rows_of rows (eBlocks o') \<subseteq> rows_of rows (eBlocks e)"
proof -
  have "eBlocks e = eBlocks o' \<or> Contains (holds l (eBlocks e)) (eBlocks o')"
    using assms(2) by (auto simp: Subsumes_def sameIdentity_def split: if_splits)
  moreover have "rows_of rows (holds l iv) = rows_of rows iv" for iv
    using held_rows[OF assms(1)] by (simp add: rows_of_def holds_blocks)
  ultimately show ?thesis using Contains_rows by (metis order_refl)
qed


subsection \<open>When parts share no row\<close>

text \<open>
  A split partitions the rows it consumed, fresh blocks share nothing, and descent is well-founded
  (a member is newer than the blocks it was cut from).
\<close>

definition root_block :: "Lineage \<Rightarrow> Block \<Rightarrow> bool" where
  "root_block l b \<longleftrightarrow> (\<forall>c \<in> set l. claim_Valid c \<longrightarrow> b \<notin> blocks (cGroup c))"

definition row_forest :: "(Block \<Rightarrow> 'r set) \<Rightarrow> (Block \<Rightarrow> nat) \<Rightarrow> Lineage \<Rightarrow> bool" where
  "row_forest rows born l \<longleftrightarrow> splits_rows rows l \<and>
     (\<forall>c \<in> set l. \<forall>x \<in> blocks (cGroup c). \<forall>y \<in> blocks (cGroup c). x \<noteq> y \<longrightarrow> rows x \<inter> rows y = {}) \<and>
     (\<forall>c \<in> set l. \<forall>x \<in> blocks (cGroup c). \<forall>y \<in> blocks (cBlocks c). born y < born x) \<and>
     (\<forall>x y. root_block l x \<and> root_block l y \<and> x \<noteq> y \<longrightarrow> rows x \<inter> rows y = {})"

text \<open>A row followed upwards, from a block that has it to the blocks it came from.\<close>

inductive carries :: "(Block \<Rightarrow> 'r set) \<Rightarrow> Lineage \<Rightarrow> 'r \<Rightarrow> Block \<Rightarrow> Block \<Rightarrow> bool" for rows l r where
  carries_refl: "r \<in> rows x \<Longrightarrow> carries rows l r x x"
| carries_up: "carries rows l r x z \<Longrightarrow> c \<in> set l \<Longrightarrow> z \<in> blocks (cGroup c) \<Longrightarrow> w \<in> blocks (cBlocks c) \<Longrightarrow>
    r \<in> rows w \<Longrightarrow> carries rows l r x w"

inductive_cases carriesE: "carries rows l r x z"

lemma carries_row: "carries rows l r x z \<Longrightarrow> r \<in> rows z"
  by (induction rule: carries.induct)

lemma carries_ancestor: "carries rows l r x z \<Longrightarrow> x \<in> S \<Longrightarrow> z \<in> ancestor_blocks l S"
  by (induction rule: carries.induct) (auto intro: ancestor_blocks.intros)

lemma carries_root:
  assumes "row_forest rows born l"
  shows "carries rows l r x z \<Longrightarrow> \<exists>R. carries rows l r x R \<and> root_block l R"
proof (induction "born z" arbitrary: z rule: less_induct)
  case less
  show ?case
  proof (cases "root_block l z")
    case False
    then obtain c where c: "c \<in> set l" "claim_Valid c" "z \<in> blocks (cGroup c)" by (auto simp: root_block_def)
    have "r \<in> rows_of rows (cGroup c)" using carries_row[OF less(2)] c(3) by (auto simp: rows_of_def)
    then have "r \<in> rows_of rows (cBlocks c)" using assms c(1,2) by (auto simp: row_forest_def splits_rows_def)
    then obtain w where w: "w \<in> blocks (cBlocks c)" "r \<in> rows w" by (auto simp: rows_of_def)
    moreover have "born w < born z" using assms c(1,3) w(1) by (auto simp: row_forest_def)
    ultimately show ?thesis using less(1) carries_up[OF less(2) c(1,3)] by blast
  qed (use less(2) in blast)
qed

lemma carries_fork:
  assumes "row_forest rows born l"
  shows "carries rows l r x z \<Longrightarrow> carries rows l r y z \<Longrightarrow>
    carries rows l r y x \<or> carries rows l r x y \<or>
    (\<exists>c \<in> set l. \<exists>d \<in> set l. \<exists>w u v. c \<noteq> d \<and> w \<in> blocks (cBlocks c) \<and> w \<in> blocks (cBlocks d) \<and> r \<in> rows w \<and>
       carries rows l r x u \<and> u \<in> blocks (cGroup c) \<and> carries rows l r y v \<and> v \<in> blocks (cGroup d))"
proof (induction rule: carries.induct)
  case (carries_up x u c w)
  from carries_up(7) show ?case
  proof (cases rule: carries.cases)
    case carries_refl
    then show ?thesis using carries.carries_up[OF carries_up(1-5)] by blast
  next
    case (carries_up v d)
    show ?thesis
    proof (cases "c = d")
      case True
      then have "u = v"
        using assms carries_row[OF \<open>carries rows l r x u\<close>] carries_row[OF \<open>carries rows l r y v\<close>]
          \<open>u \<in> blocks (cGroup c)\<close> \<open>v \<in> blocks (cGroup d)\<close> \<open>c \<in> set l\<close>
        unfolding row_forest_def by blast
      then show ?thesis using \<open>carries rows l r y u \<Longrightarrow> _\<close> \<open>carries rows l r y v\<close> by simp
    next
      case False
      then show ?thesis
        using \<open>carries rows l r x u\<close> \<open>u \<in> blocks (cGroup c)\<close> \<open>c \<in> set l\<close> \<open>w \<in> blocks (cBlocks c)\<close> carries_up by blast
    qed
  qed
qed blast

lemma Ancestors_iff:
  "i < length l \<Longrightarrow> snd (ancestry l iv) ! i \<Longrightarrow> l ! i \<in> set (Ancestors l iv)"
  using ancestry_props(3)[of l iv] by (force simp: Ancestors_def in_set_zip)

lemma Overlaps_iff:
  "Overlaps l a b \<longleftrightarrow> blocks (eBlocks a) \<inter> ancestor_blocks l (blocks (eBlocks b)) \<noteq> {} \<or>
     blocks (eBlocks b) \<inter> ancestor_blocks l (blocks (eBlocks a)) \<noteq> {} \<or>
     (\<exists>i < length l. snd (ancestry l (eBlocks a)) ! i \<noteq> snd (ancestry l (eBlocks b)) ! i \<and>
        blocks (cBlocks (l ! i)) \<inter>
          (ancestor_blocks l (blocks (eBlocks a)) \<inter> ancestor_blocks l (blocks (eBlocks b))) \<noteq> {})"
proof -
  have ex: "list_ex (\<lambda>(i, c). P i c) (enumerate 0 l) \<longleftrightarrow> (\<exists>i < length l. P i (l ! i))" for P
    by (auto simp: list_ex_iff in_set_enumerate_eq Bex_def)
  show ?thesis
    by (simp only: Overlaps_def case_prod_beta Let_def ex meets_iff intersect_correct
        ancestry_props(1)) auto
qed

lemma Overlaps_sound:
  assumes "row_forest rows born l" "\<not> Overlaps l a b"
    and one: "\<forall>c \<in> set (Ancestors l (eBlocks a)). \<forall>d \<in> set (Ancestors l (eBlocks a)).
      c \<noteq> d \<longrightarrow> blocks (cBlocks c) \<inter> blocks (cBlocks d) = {}"
  shows "rows_of rows (eBlocks a) \<inter> rows_of rows (eBlocks b) = {}"
proof (rule ccontr)
  let ?A = "ancestor_blocks l (blocks (eBlocks a))" and ?B = "ancestor_blocks l (blocks (eBlocks b))"
  let ?via = "\<lambda>iv i. snd (ancestry l iv) ! i"
  assume "\<not> ?thesis"
  then obtain r x y where x: "x \<in> blocks (eBlocks a)" "r \<in> rows x" and y: "y \<in> blocks (eBlocks b)" "r \<in> rows y"
    by (auto simp: rows_of_def)
  have no: "blocks (eBlocks a) \<inter> ?B = {}" "blocks (eBlocks b) \<inter> ?A = {}"
    "\<forall>i < length l. ?via (eBlocks a) i = ?via (eBlocks b) i \<or> blocks (cBlocks (l ! i)) \<inter> (?A \<inter> ?B) = {}"
    using assms(2) unfolding Overlaps_iff by simp_all
  obtain R S where R: "carries rows l r x R" "root_block l R" and S: "carries rows l r y S" "root_block l S"
    using carries_root[OF assms(1) carries_refl] x(2) y(2) by meson
  have "R = S"
  proof (rule ccontr)
    assume "R \<noteq> S"
    then have "rows R \<inter> rows S = {}" using R(2) S(2) assms(1) by (simp add: row_forest_def)
    then show False using carries_row[OF R(1)] carries_row[OF S(1)] by blast
  qed
  have "\<not> carries rows l r y x" using carries_ancestor[of rows l r y x, OF _ y(1)] no(1) x(1) by blast
  moreover have "\<not> carries rows l r x y" using carries_ancestor[of rows l r x y, OF _ x(1)] no(2) y(1) by blast
  ultimately obtain c d w u v where f: "c \<in> set l" "d \<in> set l" "c \<noteq> d" "w \<in> blocks (cBlocks c)" "w \<in> blocks (cBlocks d)"
    "r \<in> rows w" "carries rows l r x u" "u \<in> blocks (cGroup c)" "carries rows l r y v" "v \<in> blocks (cGroup d)"
    using carries_fork[OF assms(1) R(1)] S(1) \<open>R = S\<close> by blast
  obtain i j where ij: "i < length l" "c = l ! i" "j < length l" "d = l ! j" using f(1,2) by (auto simp: in_set_conv_nth)
  have w: "w \<in> ?A" "w \<in> ?B"
    using carries_ancestor[OF carries_up[OF f(7,1,8,4,6)] x(1)] carries_ancestor[OF carries_up[OF f(9,2,10,5,6)] y(1)] .
  have "?via (eBlocks a) i" "?via (eBlocks b) j"
    using ij f(8,10) carries_ancestor[OF f(7) x(1)] carries_ancestor[OF f(9) y(1)] by (auto simp: ancestry_props)
  moreover have "?via (eBlocks a) j = ?via (eBlocks b) j" using no(3) ij w f(5) by blast
  ultimately have "c \<in> set (Ancestors l (eBlocks a))" "d \<in> set (Ancestors l (eBlocks a))"
    using Ancestors_iff ij by auto
  then show False using one f(3-5) by blast
qed


subsection \<open>Properties of the relations between parts\<close>

text \<open>C3. A part that subsumes another holds all of its rows: retiring the subsumed one loses nothing,
  provided each claim of the lineage says the truth about its group.\<close>

theorem subsumed_rows_are_held:
  assumes "splits_rows rows l" "Subsumes l e o'"
  shows "rows_of rows (eBlocks o') \<subseteq> rows_of rows (eBlocks e)"
  by (rule Subsumes_sound[OF assms])

definition ex_split :: Claim where
  "ex_split = \<lparr>cBlocks = Single (Block 0 1), cGroup = Range 0 2 3\<rparr>"

definition ex_resplit :: Claim where
  "ex_resplit = \<lparr>cBlocks = Single (Block 0 1), cGroup = Range 0 4 5\<rparr>"

definition ex_rows :: "Block \<Rightarrow> nat set" where
  "ex_rows b = (if bTerm b \<noteq> 0 then {} else if bN b = 1 then {0, 1, 2, 3} else if bN b = 2 then {0, 1}
     else if bN b = 3 then {2, 3} else if bN b = 4 then {0, 2} else if bN b = 5 then {1, 3} else {})"

lemma range_two: "blocks (Range 0 2 3) = {Block 0 2, Block 0 3}" "blocks (Range 0 4 5) = {Block 0 4, Block 0 5}"
proof -
  have "{2..3 :: u64} = set (word_range 2 3)" "{4..5 :: u64} = set (word_range 4 5)"
    by (simp_all only: word_range_set)
  moreover have "word_range 2 (3 :: u64) = [2, 3]" "word_range 4 (5 :: u64) = [4, 5]" by (simp_all add: word_range_def)
  ultimately show "blocks (Range 0 2 3) = {Block 0 2, Block 0 3}" "blocks (Range 0 4 5) = {Block 0 4, Block 0 5}"
    by (simp_all add: Range_props)
qed

lemma ex_rows_split: "splits_rows ex_rows [ex_split, ex_resplit]"
  by (auto simp: splits_rows_def ex_split_def ex_resplit_def rows_of_def range_two Single_props ex_rows_def)

theorem subsumed_rows_are_held_witness:
  "rows_of ex_rows (Single (Block 0 3)) \<subseteq> rows_of ex_rows (Single (Block 0 1))"
proof -
  let ?e = "no_entry\<lparr>eBlocks := Single (Block 0 1), eLevel := 2\<rparr>" and ?o = "no_entry\<lparr>eBlocks := Single (Block 0 3), eLevel := 1\<rparr>"
  have "Subsumes [ex_split, ex_resplit] ?e ?o" by code_simp
  from subsumed_rows_are_held[OF ex_rows_split this] show ?thesis by simp
qed

text \<open>C24. Parts that do not overlap share no row, where a split partitions what it consumed and no
  part mixes fragments of two different splits of the same ancestor.\<close>

theorem disjoint_parts_share_no_row:
  assumes "row_forest rows born l" "\<not> Overlaps l a b"
    and "\<forall>c \<in> set (Ancestors l (eBlocks a)). \<forall>d \<in> set (Ancestors l (eBlocks a)).
      c \<noteq> d \<longrightarrow> blocks (cBlocks c) \<inter> blocks (cBlocks d) = {}"
  shows "rows_of rows (eBlocks a) \<inter> rows_of rows (eBlocks b) = {}"
  by (rule Overlaps_sound[OF assms])

lemma ex_forest: "row_forest ex_rows (\<lambda>b. if b = Block 0 1 then 0 else 1) [ex_split, ex_resplit]"
proof -
  have r: "ex_rows x \<noteq> {} \<Longrightarrow> x \<in> {Block 0 1, Block 0 2, Block 0 3, Block 0 4, Block 0 5}" for x
    by (cases x) (auto simp: ex_rows_def split: if_splits)
  have "ex_rows x \<inter> ex_rows y = {}" if "root_block [ex_split, ex_resplit] x" "root_block [ex_split, ex_resplit] y" "x \<noteq> y" for x y
  proof -
    have "z \<in> {Block 0 2, Block 0 3, Block 0 4, Block 0 5} \<Longrightarrow> \<not> root_block [ex_split, ex_resplit] z" for z
      by (auto simp: root_block_def ex_split_def ex_resplit_def claim_Valid_def range_two Single_props Range_props)
    then show ?thesis using that r[of x] r[of y] by blast
  qed
  then show ?thesis
    using ex_rows_split
    by (auto simp: row_forest_def ex_split_def ex_resplit_def range_two Single_props ex_rows_def)
qed

theorem disjoint_parts_share_no_row_witness:
  "rows_of ex_rows (Single (Block 0 2)) \<inter> rows_of ex_rows (Single (Block 0 3)) = {}"
proof -
  let ?a = "no_entry\<lparr>eBlocks := Single (Block 0 2)\<rparr>" and ?b = "no_entry\<lparr>eBlocks := Single (Block 0 3)\<rparr>"
  have "\<not> Overlaps [ex_split, ex_resplit] ?a ?b" "Ancestors [ex_split, ex_resplit] (eBlocks ?a) = [ex_split]"
    by code_simp+
  then show ?thesis using disjoint_parts_share_no_row[OF ex_forest, of ?a ?b] by simp
qed


end
