(* ===== verification/Catalog.thy ===== *)
theory Catalog
  imports Rows
begin

text \<open>
  The lineage catalog (\<^verbatim>\<open>catalog.go\<close>): the split groups' claims an index keeps after the parts that
  carried them are gone, its canonical form, and how it is aged. \<^verbatim>\<open>map[claimKey]struct{}\<close> is a set of
  keys.
\<close>

type_synonym claimKey = "(Block \<times> Block) \<times> (Block \<times> Block)"

definition MaxLineage :: nat where "MaxLineage = MaxRemovals"

definition claim_key :: "Claim \<Rightarrow> claimKey" where
  "claim_key c = ((iMin (cGroup c), iMax (cGroup c)), (iMin (cBlocks c), iMax (cBlocks c)))"

definition compareClaims :: "Claim \<Rightarrow> Claim \<Rightarrow> int" where
  "compareClaims a b =
     (let c = block_Compare (iMin (cGroup a)) (iMin (cGroup b)) in if c \<noteq> 0 then c else
      let c = block_Compare (iMax (cGroup a)) (iMax (cGroup b)) in if c \<noteq> 0 then c else
      let c = block_Compare (iMin (cBlocks a)) (iMin (cBlocks b)) in if c \<noteq> 0 then c else
      block_Compare (iMax (cBlocks a)) (iMax (cBlocks b)))"

definition MergeLineage :: "Claim list list \<Rightarrow> Claim list" where
  "MergeLineage catalogs =
     compact_func (\<lambda>a b. compareClaims a b = 0)
       (sort_func compareClaims (filter claim_Valid (concat catalogs)))"

definition With :: "Lineage \<Rightarrow> Claim list \<Rightarrow> Lineage" where
  "With l claims =
     (if claims = [] then l
      else snd (foldl (\<lambda>(known, out) c.
             if \<not> claim_Valid c \<or> claim_key c \<in> known then (known, out)
             else (insert (claim_key c) known, out @ [c])) (claim_key ` set l, l) claims))"

definition lineage_add :: "nat \<Rightarrow> Lineage \<Rightarrow> Claim \<Rightarrow> Lineage" where
  "lineage_add sorted' l c =
     (if \<not> claim_Valid c then l
      else if snd (binary_search_func compareClaims (take sorted' l) c) \<or>
              list_ex (claim_Equal c) (drop sorted' l) then l
      else l @ [c])"

definition index_Lineage :: "Index \<Rightarrow> Lineage" where
  "index_Lineage ix =
     foldl (lineage_add (length (Catalog ix))) (Catalog ix)
       (map eClaim (Entries ix) @ map wClaim (Wanted ix))"

definition reachedClaims :: "Index \<Rightarrow> claimKey set" where
  "reachedClaims ix =
     (let l = index_Lineage ix;
          reached = foldl (reachAncestry l) (replicate (length l) False)
                      (map wBlocks (Wanted ix) @ map eBlocks (Entries ix))
      in claim_key ` set (map snd (filter fst (zip reached l))) \<union>
         claim_key ` set (filter claim_Valid (map eClaim (Entries ix))) \<union>
         claim_key ` set (filter claim_Valid (map wClaim (Wanted ix))))"

text \<open>The loop of \<^verbatim>\<open>TrimCatalog\<close>: \<open>over\<close> claims may still go.\<close>

fun trim_catalog_loop :: "claimKey set \<Rightarrow> nat \<Rightarrow> Claim list \<Rightarrow> Claim list" where
  "trim_catalog_loop reached over [] = []"
| "trim_catalog_loop reached over (c # cs) =
     (if over > 0 \<and> claim_key c \<notin> reached then trim_catalog_loop reached (over - 1) cs
      else c # trim_catalog_loop reached over cs)"

definition TrimCatalog :: "Index \<Rightarrow> Index \<times> nat" where
  "TrimCatalog ix =
     (if length (Catalog ix) \<le> MaxLineage then (ix, 0)
      else let kept = trim_catalog_loop (reachedClaims ix) (length (Catalog ix) - MaxLineage) (Catalog ix)
           in (ix\<lparr>Catalog := kept\<rparr>, length kept - MaxLineage))"

definition RecordLineage :: "Index \<Rightarrow> Index \<times> nat" where
  "RecordLineage ix =
     TrimCatalog (ix\<lparr>Catalog := MergeLineage
       [Catalog ix @ map eClaim (Entries ix) @ map wClaim (Wanted ix)]\<rparr>)"

subsection \<open>The canonical form\<close>

interpretation cat: keyed claim_key compareClaims
  by unfold_locales
    (auto simp: claim_key_def compareClaims_def Let_def block_Compare_sign split: if_splits)

lemma MergeLineage_props:
  shows "cat.asc (MergeLineage cs)" and "set (MergeLineage cs) \<subseteq> set (concat cs)"
    and "\<forall>c \<in> set (MergeLineage cs). claim_Valid c"
    and "claim_key ` set (MergeLineage cs) = claim_key ` {c \<in> set (concat cs). claim_Valid c}"
proof -
  let ?s = "sort_func compareClaims (filter claim_Valid (concat cs))"
  have set: "set ?s = {c \<in> set (concat cs). claim_Valid c}" by (simp add: cat.sort_func_set)
  note P = cat.compact_props[OF cat.sort_func_sorted[of "filter claim_Valid (concat cs)"]]
  show "cat.asc (MergeLineage cs)" "set (MergeLineage cs) \<subseteq> set (concat cs)"
    "\<forall>c \<in> set (MergeLineage cs). claim_Valid c"
    "claim_key ` set (MergeLineage cs) = claim_key ` {c \<in> set (concat cs). claim_Valid c}"
    using P(1,2,3) unfolding set MergeLineage_def by blast+
qed

lemma MergeLineage_id: "cat.asc cs \<Longrightarrow> \<forall>c \<in> set cs. claim_Valid c \<Longrightarrow> MergeLineage [cs] = cs"
  by (simp add: MergeLineage_def cat.sort_func_id strict_sorted_imp_sorted cat.compact_id)

subsection \<open>The lineage of an index\<close>

text \<open>A catalog in the form every commit leaves it in.\<close>

definition catalog_ok :: "Claim list \<Rightarrow> bool" where
  "catalog_ok cs \<longleftrightarrow> cat.asc cs \<and> (\<forall>c \<in> set cs. claim_Valid c)"

lemma claim_Equal_iff [simp]: "claim_Equal c d \<longleftrightarrow> c = d"
  by (cases c, cases d) (simp add: claim_Equal_def)

text \<open>What entries and wants add beyond a catalog, which only its keys decide.\<close>

definition extra_claim :: "claimKey set \<Rightarrow> Claim list \<Rightarrow> Claim \<Rightarrow> Claim list" where
  "extra_claim K as c = (if claim_Valid c \<and> claim_key c \<notin> K \<and> c \<notin> set as then as @ [c] else as)"

lemma lineage_add_extra:
  assumes "cat.asc cs"
  shows "foldl (lineage_add (length cs)) (cs @ as) xs = cs @ foldl (extra_claim (claim_key ` set cs)) as xs"
proof (induction xs arbitrary: as)
  case (Cons x xs)
  have "lineage_add (length cs) (cs @ as) x = cs @ extra_claim (claim_key ` set cs) as x"
    using cat.search_mem[OF assms, of x] by (auto simp: lineage_add_def extra_claim_def list_ex_iff)
  then show ?case using Cons by simp
qed simp

abbreviation index_claims_of :: "Index \<Rightarrow> Claim list" where
  "index_claims_of ix \<equiv> map eClaim (Entries ix) @ map wClaim (Wanted ix)"

definition index_extras :: "Index \<Rightarrow> Claim list" where
  "index_extras ix = foldl (extra_claim (claim_key ` set (Catalog ix))) [] (index_claims_of ix)"

lemma index_Lineage_split: "catalog_ok (Catalog ix) \<Longrightarrow> index_Lineage ix = Catalog ix @ index_extras ix"
  using lineage_add_extra[of "Catalog ix" "[]" "index_claims_of ix"]
  by (simp only: catalog_ok_def index_Lineage_def index_extras_def append_Nil2)

lemma extra_claims_set:
  "set (foldl (extra_claim K) as xs) = set as \<union> {c \<in> set xs. claim_Valid c \<and> claim_key c \<notin> K}"
  by (induction xs arbitrary: as) (auto simp: extra_claim_def)

lemma extra_claims_cong:
  "\<forall>c \<in> set xs. claim_Valid c \<longrightarrow> (claim_key c \<in> K \<longleftrightarrow> claim_key c \<in> K') \<Longrightarrow>
   foldl (extra_claim K) as xs = foldl (extra_claim K') as xs"
  by (induction xs arbitrary: as) (auto simp: extra_claim_def)

lemma index_Lineage_valid:
  assumes "catalog_ok (Catalog ix)"
  shows "\<forall>c \<in> set (index_Lineage ix). claim_Valid c"
    and "claim_key ` set (index_Lineage ix) =
      claim_key ` set (Catalog ix) \<union> claim_key ` {c \<in> set (index_claims_of ix). claim_Valid c}"
proof -
  have set: "set (index_Lineage ix) = set (Catalog ix) \<union>
      {c \<in> set (index_claims_of ix). claim_Valid c \<and> claim_key c \<notin> claim_key ` set (Catalog ix)}"
    using assms by (simp only: index_Lineage_split index_extras_def extra_claims_set set_append list.set(1) Un_empty_left)
  show "\<forall>c \<in> set (index_Lineage ix). claim_Valid c" using assms unfolding set catalog_ok_def by blast
  show "claim_key ` set (index_Lineage ix) =
      claim_key ` set (Catalog ix) \<union> claim_key ` {c \<in> set (index_claims_of ix). claim_Valid c}"
    unfolding set by blast
qed


lemma ancestors_reached:
  assumes "\<forall>c \<in> set l. Valid (cBlocks c)" "length reached = length l" "marks_closed l (marks reached)"
  shows "length (foldl (reachAncestry l) reached ivs) = length l \<and>
    marks (foldl (reachAncestry l) reached ivs) = marks reached \<union> (\<Union>iv \<in> set ivs. marks (snd (ancestry l iv)))"
  using assms(2,3)
proof (induction ivs arbitrary: reached)
  case (Cons iv ivs)
  note P = reachAncestry_marks[OF assms(1) Cons.prems, of iv]
  show ?case using Cons.IH[OF P(1,3)] P(2) by auto
qed simp

lemma marked_mem: "i \<in> marks r \<Longrightarrow> length r = length l \<Longrightarrow> l ! i \<in> set (map snd (filter fst (zip r l)))"
proof -
  assume i: "i \<in> marks r" "length r = length l"
  then have "(True, l ! i) \<in> set (zip r l)" by (auto simp: marks_def in_set_zip intro!: exI[of _ i])
  then show ?thesis by force
qed

lemma reachedClaims_ancestors:
  assumes "catalog_ok (Catalog ix)" "iv \<in> wBlocks ` set (Wanted ix) \<union> eBlocks ` set (Entries ix)"
    and "c \<in> set (Ancestors (index_Lineage ix) iv)"
  shows "claim_key c \<in> reachedClaims ix"
proof -
  let ?l = "index_Lineage ix" and ?ivs = "map wBlocks (Wanted ix) @ map eBlocks (Entries ix)"
  let ?r = "foldl (reachAncestry ?l) (replicate (length ?l) False) ?ivs"
  have start: "marks (replicate (length ?l) False) = {}" by (auto simp: marks_def)
  have V: "\<forall>c \<in> set ?l. Valid (cBlocks c)"
    using index_Lineage_valid(1)[OF assms(1)] by (simp add: claim_Valid_def)
  have R: "length ?r = length ?l" "marks ?r = (\<Union>iv \<in> set ?ivs. marks (snd (ancestry ?l iv)))"
    using ancestors_reached[OF V, of "replicate (length ?l) False" ?ivs] start by (simp_all add: marks_closed_def)
  have "\<exists>i < length ?l. snd (ancestry ?l iv) ! i \<and> c = ?l ! i"
    using assms(3) ancestry_props(3)[of ?l iv] by (auto simp: Ancestors_def in_set_zip)
  then obtain i where i: "i < length ?l" "i \<in> marks (snd (ancestry ?l iv))" "c = ?l ! i"
    using ancestry_props(3)[of ?l iv] by (auto simp: marks_def)
  then have "i \<in> marks ?r" using R(2) assms(2) by auto
  then have "c \<in> set (map snd (filter fst (zip ?r ?l)))" using marked_mem[OF _ R(1)] i(3) by blast
  then show ?thesis by (simp only: reachedClaims_def Let_def) blast
qed

lemma reachedClaims_own: "claim_Valid c \<Longrightarrow> c \<in> set (index_claims_of ix) \<Longrightarrow> claim_key c \<in> reachedClaims ix"
  by (auto simp: reachedClaims_def Let_def)

subsection \<open>Trimming\<close>

lemma trim_loop_sub: "set (trim_catalog_loop R n cs) \<subseteq> set cs"
  by (induction R n cs rule: trim_catalog_loop.induct) auto

lemma trim_loop_keeps: "c \<in> set cs \<Longrightarrow> claim_key c \<in> R \<Longrightarrow> c \<in> set (trim_catalog_loop R n cs)"
  by (induction R n cs rule: trim_catalog_loop.induct) auto

lemma trim_loop_asc: "cat.asc cs \<Longrightarrow> cat.asc (trim_catalog_loop R n cs)"
proof (induction R n cs rule: trim_catalog_loop.induct)
  case (2 R n c cs)
  then show ?case using trim_loop_sub[of R n cs] by (auto split: if_splits)
qed simp

lemma trim_loop_length:
  "length (trim_catalog_loop R n cs) = length cs - min n (length (filter (\<lambda>c. claim_key c \<notin> R) cs))"
proof (induction R n cs rule: trim_catalog_loop.induct)
  case (2 R n c cs)
  have "length (filter (\<lambda>c. claim_key c \<notin> R) cs) \<le> length cs" by simp
  then have "Suc (length cs - min n (length (filter (\<lambda>c. claim_key c \<notin> R) cs))) =
      Suc (length cs) - min n (length (filter (\<lambda>c. claim_key c \<notin> R) cs))" by linarith
  then show ?case using 2 by (cases n) auto
qed simp

lemma trim_loop_all:
  "length (filter (\<lambda>c. claim_key c \<notin> R) cs) < n \<Longrightarrow> \<forall>c \<in> set (trim_catalog_loop R n cs). claim_key c \<in> R"
proof (induction cs arbitrary: n)
  case (Cons c cs)
  show ?case
  proof (cases "claim_key c \<in> R")
    case True
    then have "length (filter (\<lambda>c. claim_key c \<notin> R) cs) < n" using Cons.prems by simp
    from Cons.IH[OF this] show ?thesis using True by simp
  next
    case False
    then have "length (filter (\<lambda>c. claim_key c \<notin> R) (c # cs)) = Suc (length (filter (\<lambda>c. claim_key c \<notin> R) cs))"
      by (simp only: filter.simps if_True list.size simp_thms)
    then obtain m where m: "n = Suc m" "length (filter (\<lambda>c. claim_key c \<notin> R) cs) < m"
      using Cons.prems by (cases n) simp_all
    have "trim_catalog_loop R n (c # cs) = trim_catalog_loop R m cs" using m(1) False by simp
    then show ?thesis using Cons.IH[OF m(2)] by (simp only:)
  qed
qed simp

lemma TrimCatalog_ok: "catalog_ok (Catalog ix) \<Longrightarrow> catalog_ok (Catalog (fst (TrimCatalog ix)))"
  using trim_loop_asc trim_loop_sub by (fastforce simp: TrimCatalog_def Let_def catalog_ok_def)

lemma RecordLineage_ok: "catalog_ok (Catalog (fst (RecordLineage ix)))"
  unfolding RecordLineage_def by (rule TrimCatalog_ok) (use MergeLineage_props in \<open>auto simp: catalog_ok_def\<close>)

lemma TrimCatalog_frame [simp]:
  "Entries (fst (TrimCatalog ix)) = Entries ix" "Wanted (fst (TrimCatalog ix)) = Wanted ix"
  by (simp_all add: TrimCatalog_def Let_def)

lemma TrimCatalog_keeps:
  "c \<in> set (Catalog ix) \<Longrightarrow> claim_key c \<in> reachedClaims ix \<Longrightarrow> c \<in> set (Catalog (fst (TrimCatalog ix)))"
  by (simp add: TrimCatalog_def Let_def trim_loop_keeps)

lemma TrimCatalog_extras:
  assumes "catalog_ok (Catalog ix)"
  shows "index_extras (fst (TrimCatalog ix)) = index_extras ix"
proof -
  have sub: "set (Catalog (fst (TrimCatalog ix))) \<subseteq> set (Catalog ix)"
    using trim_loop_sub by (simp add: TrimCatalog_def Let_def)
  have "\<forall>c \<in> set (index_claims_of ix). claim_Valid c \<longrightarrow>
      (claim_key c \<in> claim_key ` set (Catalog (fst (TrimCatalog ix))) \<longleftrightarrow> claim_key c \<in> claim_key ` set (Catalog ix))"
  proof (intro ballI impI iffI)
    fix c assume c: "c \<in> set (index_claims_of ix)" "claim_Valid c" "claim_key c \<in> claim_key ` set (Catalog ix)"
    then obtain d where "d \<in> set (Catalog ix)" "claim_key d = claim_key c" by (metis imageE)
    then have "d \<in> set (Catalog (fst (TrimCatalog ix)))" "claim_key d = claim_key c"
      using TrimCatalog_keeps reachedClaims_own[OF c(2,1)] by simp_all
    then show "claim_key c \<in> claim_key ` set (Catalog (fst (TrimCatalog ix)))" by (metis imageI)
  qed (use sub in blast)
  from extra_claims_cong[OF this] show ?thesis by (simp add: index_extras_def)
qed

text \<open>Aging the catalog leaves the ancestry of everything the index still names as it was.\<close>

lemma TrimCatalog_ancestor_blocks:
  assumes "catalog_ok (Catalog ix)" "iv \<in> wBlocks ` set (Wanted ix) \<union> eBlocks ` set (Entries ix)"
  shows "ancestor_blocks (index_Lineage (fst (TrimCatalog ix))) (blocks iv) = ancestor_blocks (index_Lineage ix) (blocks iv)"
proof -
  let ?l = "index_Lineage ix" and ?l' = "index_Lineage (fst (TrimCatalog ix))"
  have l': "?l' = Catalog (fst (TrimCatalog ix)) @ index_extras ix"
    using index_Lineage_split[OF TrimCatalog_ok[OF assms(1)]] TrimCatalog_extras[OF assms(1)] by simp
  have "set ?l' \<subseteq> set ?l"
    using trim_loop_sub unfolding l' index_Lineage_split[OF assms(1)] by (auto simp: TrimCatalog_def Let_def)
  then have "ancestor_blocks ?l' (blocks iv) \<subseteq> ancestor_blocks ?l (blocks iv)" by (rule ancestor_mono) simp
  moreover have "b \<in> ancestor_blocks ?l (blocks iv) \<Longrightarrow> b \<in> ancestor_blocks ?l' (blocks iv)" for b
  proof (induction rule: ancestor_blocks.induct)
    case (anc_step c a b)
    obtain i where i: "i < length ?l" "c = ?l ! i" using anc_step(1) by (auto simp: in_set_conv_nth)
    then have "c \<in> set (Ancestors ?l iv)"
      using anc_step(2,3) ancestry_props(4)[OF i(1)] Ancestors_iff by auto
    then have "c \<in> set ?l'"
      using anc_step(1) reachedClaims_ancestors[OF assms] TrimCatalog_keeps
      unfolding l' index_Lineage_split[OF assms(1)] by auto
    then show ?case using anc_step ancestor_blocks.anc_step by blast
  qed (rule anc_base)
  ultimately show ?thesis by blast
qed


lemma RecordLineage_own:
  assumes "claim_Valid c" "c \<in> set (index_claims_of ix)"
  shows "claim_key c \<in> claim_key ` set (Catalog (fst (RecordLineage ix)))"
proof -
  let ?cs = "MergeLineage [Catalog ix @ index_claims_of ix]"
  let ?ix = "ix\<lparr>Catalog := ?cs\<rparr>"
  have "claim_key c \<in> claim_key ` set ?cs" using assms by (simp add: MergeLineage_props(4))
  then obtain d where d: "d \<in> set (Catalog ?ix)" "claim_key c = claim_key d" by auto
  moreover have "claim_key c \<in> reachedClaims ?ix" using assms by (intro reachedClaims_own) simp_all
  ultimately have "d \<in> set (Catalog (fst (TrimCatalog ?ix)))" by (simp add: TrimCatalog_keeps)
  then show ?thesis using d(2) by (simp add: RecordLineage_def)
qed

subsection \<open>Properties of the catalog\<close>

text \<open>Merging catalogs gives one canonical list: strictly sorted by the claims' keys, valid claims
  only, none invented, every valid key kept, and merging the result again changes nothing.\<close>

lemma merged_catalog_canonical:
  "let out = MergeLineage cs in
     catalog_ok out \<and> set out \<subseteq> set (concat cs) \<and>
     claim_key ` set out = claim_key ` {c \<in> set (concat cs). claim_Valid c} \<and> MergeLineage [out] = out"
  using MergeLineage_props[of cs] MergeLineage_id[of "MergeLineage cs"] by (simp add: Let_def catalog_ok_def)

text \<open>C12. Aging the catalog never severs a lineage: whatever it drops, the ancestry of every want,
  hole and live entry of the index stays what it was, and the catalog ends at the target unless
  reached claims alone exceed it.\<close>

theorem catalog_trim_keeps_ancestry:
  assumes "catalog_ok (Catalog ix)" "iv \<in> wBlocks ` set (Wanted ix) \<union> eBlocks ` set (Entries ix)"
  shows "blocks (fst (ancestry (index_Lineage (fst (TrimCatalog ix))) iv)) = blocks (fst (ancestry (index_Lineage ix) iv)) \<and>
    catalog_ok (Catalog (fst (TrimCatalog ix))) \<and>
    snd (TrimCatalog ix) = length (Catalog (fst (TrimCatalog ix))) - MaxLineage \<and>
    (length (Catalog (fst (TrimCatalog ix))) \<le> MaxLineage \<or>
     (\<forall>c \<in> set (Catalog (fst (TrimCatalog ix))). claim_key c \<in> reachedClaims ix))"
proof -
  let ?R = "reachedClaims ix" and ?n = "length (Catalog ix) - MaxLineage"
  have len: "length (Catalog (fst (TrimCatalog ix))) \<le> MaxLineage"
    if "?n \<le> length (filter (\<lambda>c. claim_key c \<notin> ?R) (Catalog ix))"
    using that by (simp add: TrimCatalog_def Let_def trim_loop_length)
  have "length (Catalog (fst (TrimCatalog ix))) \<le> MaxLineage \<or>
     (\<forall>c \<in> set (Catalog (fst (TrimCatalog ix))). claim_key c \<in> ?R)"
  proof (cases "?n \<le> length (filter (\<lambda>c. claim_key c \<notin> ?R) (Catalog ix))")
    case False
    then have "\<forall>c \<in> set (trim_catalog_loop ?R ?n (Catalog ix)). claim_key c \<in> ?R" by (intro trim_loop_all) simp
    then show ?thesis by (simp add: TrimCatalog_def Let_def)
  qed (use len in blast)
  then show ?thesis
    using TrimCatalog_ancestor_blocks[OF assms] TrimCatalog_ok[OF assms(1)]
    by (simp add: ancestry_props(1)) (simp add: TrimCatalog_def Let_def)
qed

theorem catalog_trim_keeps_ancestry_witness:
  "let ix = empty_index\<lparr>Entries := [no_entry\<lparr>eBlocks := Single (Block 0 2)\<rparr>], Catalog := [ex_split]\<rparr>
   in blocks (fst (ancestry (index_Lineage (fst (TrimCatalog ix))) (Single (Block 0 2)))) =
      blocks (fst (ancestry (index_Lineage ix) (Single (Block 0 2))))"
proof -
  let ?ix = "empty_index\<lparr>Entries := [no_entry\<lparr>eBlocks := Single (Block 0 2)\<rparr>], Catalog := [ex_split]\<rparr>"
  have "catalog_ok (Catalog ?ix)" by (simp add: catalog_ok_def ex_split_def claim_Valid_def Single_props Range_props)
  from catalog_trim_keeps_ancestry[OF this, of "Single (Block 0 2)"] show ?thesis by (simp add: Let_def)
qed



end
