(* ===== verification/Relations.thy ===== *)
theory Relations
  imports Catalog
begin

text \<open>
  The identity questions of one index (\<^verbatim>\<open>relations.go\<close>, the second half of \<^verbatim>\<open>block.go\<close>, \<^verbatim>\<open>hole.go\<close>,
  \<^verbatim>\<open>want.go\<close>): which part satisfies or discharges a want, what the index covers, what a want still
  misses, and the trims of wants, holes and superseded parts a commit runs.

  A pair \<^verbatim>\<open>(Entry, bool)\<close> returned by a search is an option. The closures and the covered interval a
  \<^verbatim>\<open>Relations\<close> remembers are functions of the index, so they are recomputed here.
\<close>

record Relations =
  relIx :: Index
  relL :: Lineage
  relKnown :: "claimKey set"

definition index_Relations :: "Index \<Rightarrow> Claim list \<Rightarrow> Relations" where
  "index_Relations ix extra =
     (let l = With (index_Lineage ix) extra
      in \<lparr>relIx = ix, relL = l, relKnown = claim_key ` set l\<rparr>)"

definition forClaim :: "Relations \<Rightarrow> Claim \<Rightarrow> Relations" where
  "forClaim rel c =
     (if \<not> claim_Valid c then rel
      else if claim_key c \<in> relKnown rel then rel
      else index_Relations (relIx rel) (relL rel @ [c]))"

definition covered_runs :: "(Entry \<Rightarrow> bool) \<Rightarrow> Entry list \<Rightarrow> Gap list" where
  "covered_runs admit es =
     foldl (\<lambda>rs e. if admit e \<and> Valid (eBlocks e) then appendRuns rs (eBlocks e) else rs) [] es"

definition rel_covered :: "Relations \<Rightarrow> (Entry \<Rightarrow> bool) \<Rightarrow> Interval" where
  "rel_covered rel admit = fst (realize (relL rel) (fromRuns (covered_runs admit (Entries (relIx rel)))))"

definition rel_Covered :: "Relations \<Rightarrow> Interval" where
  "rel_Covered rel = rel_covered rel Data"

definition rel_Supersedes :: "Relations \<Rightarrow> Entry \<Rightarrow> bool" where
  "rel_Supersedes rel o' =
     list_ex (\<lambda>e. Data e \<and> Subsumes (relL (forClaim rel (eClaim o'))) e o') (Entries (relIx rel))"

definition betterSuccessor :: "Entry \<Rightarrow> Entry \<Rightarrow> bool" where
  "betterSuccessor a b =
     (if Len (eBlocks a) \<noteq> Len (eBlocks b) then Len (eBlocks a) > Len (eBlocks b)
      else if eLevel a \<noteq> eLevel b then eLevel a > eLevel b
      else ePrefix a < ePrefix b)"

definition better :: "Entry \<Rightarrow> Entry option \<Rightarrow> Entry option" where
  "better e best = (case best of None \<Rightarrow> Some e | Some b \<Rightarrow> if betterSuccessor e b then Some e else best)"

definition joint_part :: "Relations \<Rightarrow> Want \<Rightarrow> Entry \<Rightarrow> bool" where
  "joint_part rel w e =
     (case ancestry (relL (forClaim rel (eClaim e))) (eBlocks e) of (up, via) \<Rightarrow>
        True \<in> set via \<and> meets up (wBlocks w))"

definition jointlySatisfying :: "Relations \<Rightarrow> Want \<Rightarrow> (Entry \<Rightarrow> bool) \<Rightarrow> Entry option" where
  "jointlySatisfying rel w admit =
     (if \<not> Valid (wBlocks w) \<or> \<not> Contains (rel_covered rel admit) (wBlocks w) then None
      else foldl (\<lambda>best e. if admit e \<and> Valid (eBlocks e) \<and> joint_part rel w e then better e best else best)
             None (Entries (relIx rel)))"

text \<open>The scan of \<^verbatim>\<open>satisfying\<close>, which stops at the wanted prefix itself.\<close>

fun satisfying_loop :: "Lineage \<Rightarrow> Want \<Rightarrow> (Entry \<Rightarrow> bool) \<Rightarrow> Entry option \<Rightarrow> Entry list \<Rightarrow> Entry option" where
  "satisfying_loop l w admit best [] = best"
| "satisfying_loop l w admit best (e # es) =
     (if \<not> admit e then satisfying_loop l w admit best es
      else if ePrefix e = wPrefix w then Some e
      else if \<not> Contains (eBlocks e) (wBlocks w) \<and> \<not> Subsumes l e (want_Entry w)
        then satisfying_loop l w admit best es
      else satisfying_loop l w admit (better e best) es)"

definition satisfying :: "Relations \<Rightarrow> Want \<Rightarrow> (Entry \<Rightarrow> bool) \<Rightarrow> Entry option" where
  "satisfying rel w admit =
     (case satisfying_loop (relL rel) w admit None (Entries (relIx rel)) of
        Some e \<Rightarrow> Some e
      | None \<Rightarrow> jointlySatisfying rel w admit)"

definition rel_Satisfying :: "Relations \<Rightarrow> Want \<Rightarrow> Entry option" where
  "rel_Satisfying rel w = satisfying (forClaim rel (wClaim w)) w Data"

definition rel_Discharging :: "Relations \<Rightarrow> Want \<Rightarrow> Entry option" where
  "rel_Discharging rel w = satisfying (forClaim rel (wClaim w)) w (\<lambda>_. True)"

definition missing_add :: "Interval \<Rightarrow> Interval \<Rightarrow> Block \<Rightarrow> Block list \<Rightarrow> Block list \<times> bool" where
  "missing_add held consumed b out =
     (let one = Single b
      in (if \<not> Contains held one \<and> \<not> Contains consumed one \<and> b \<notin> set out then out @ [b] else out, True))"

definition rel_Missing :: "Relations \<Rightarrow> Want \<Rightarrow> Block list" where
  "rel_Missing rel0 w =
     (if \<not> Valid (wBlocks w) then []
      else let rel = forClaim rel0 (wClaim w)
           in if satisfying rel w Data \<noteq> None then []
              else let held = rel_Covered rel;
                       via = snd (descendants (relL rel) (wBlocks w));
                       used = map snd (filter fst (zip via (relL rel)));
                       consumed = foldl (\<lambda>iv c. Interval_Union iv (cBlocks c)) unset used;
                       out = foldl (\<lambda>out c. Each (cGroup c) (missing_add held consumed) out) [] used
                   in sort_func block_Compare out)"

subsection \<open>The questions asked of an index\<close>

definition index_Covered :: "Index \<Rightarrow> Interval" where
  "index_Covered ix = rel_Covered (index_Relations ix [])"

definition index_Satisfying :: "Index \<Rightarrow> Want \<Rightarrow> Entry option" where
  "index_Satisfying ix w = rel_Satisfying (index_Relations ix []) w"

definition SatisfyingWith :: "Index \<Rightarrow> Want \<Rightarrow> Lineage \<Rightarrow> Entry option" where
  "SatisfyingWith ix w extra = rel_Satisfying (index_Relations ix extra) w"

definition index_Discharging :: "Index \<Rightarrow> Want \<Rightarrow> Entry option" where
  "index_Discharging ix w = rel_Discharging (index_Relations ix []) w"

definition index_Missing :: "Index \<Rightarrow> Want \<Rightarrow> Block list" where
  "index_Missing ix w = rel_Missing (index_Relations ix []) w"

definition Complete :: "Entry \<Rightarrow> Entry list \<Rightarrow> bool" where
  "Complete e entries =
     (if \<not> claim_Valid (eClaim e) then False
      else Contains (index_Covered (empty_index\<lparr>Entries := entries\<rparr>)) (cGroup (eClaim e)))"

definition rel_Subsumed :: "Lineage \<Rightarrow> Entry list \<Rightarrow> Entry list \<Rightarrow> bytes set" where
  "rel_Subsumed l live added =
     (let all = live @ added;
          complete = snd (realize l (fromRuns (covered_runs Data all)));
          direct = concat (map (\<lambda>a. map ePrefix
                     (filter (\<lambda>o'. ePrefix o' \<noteq> ePrefix a \<and> Subsumes l a o') live)) added);
          grouped = concat (map (\<lambda>(ok, c).
             if \<not> ok then []
             else let claimed = holds l (cBlocks c)
                  in if \<not> list_ex (\<lambda>e. Contains claimed (eBlocks e)) live then []
                     else case lineage_level l (cGroup c) all of (level, found) \<Rightarrow>
                       if \<not> found then []
                       else map ePrefix (filter (\<lambda>o'. Contains claimed (eBlocks o') \<and> eLevel o' < level) live))
             (zip complete l))
      in set (direct @ grouped))"

definition Subsumed :: "Entry list \<Rightarrow> Entry list \<Rightarrow> bytes set" where
  "Subsumed live added = rel_Subsumed (LineageOf (live @ added)) live added"

subsection \<open>Holes and wants a commit trims\<close>

definition revokes :: "Entry \<Rightarrow> Entry \<Rightarrow> Lineage \<Rightarrow> bool" where
  "revokes e h l = (if \<not> Data e \<or> \<not> eHole h then False else ePrefix e = ePrefix h \<or> Subsumes l e h)"

definition Revokes :: "Entry \<Rightarrow> Entry \<Rightarrow> bool" where
  "Revokes e h = revokes e h [eClaim h]"

definition TrimHoles :: "Entry list \<Rightarrow> Entry list \<Rightarrow> Claim list \<Rightarrow> Entry list" where
  "TrimHoles holes live catalog =
     (let rel = index_Relations (empty_index\<lparr>Entries := live @ holes, Catalog := catalog\<rparr>) []
      in filter (\<lambda>h. \<not> (list_ex (\<lambda>e. revokes e h (relL rel)) live \<or>
           eHole h \<and> jointlySatisfying rel (WantOf h (Generation 0 0)) Data \<noteq> None)) holes)"

definition TrimWants :: "Want list \<Rightarrow> Entry list \<Rightarrow> Claim list \<Rightarrow> Want list" where
  "TrimWants wants live catalog =
     (let rel = index_Relations (empty_index\<lparr>Entries := live, Catalog := catalog, Wanted := wants\<rparr>) []
      in sort_func compareWantPrefix (filter (\<lambda>w. rel_Discharging rel w = None) wants))"


subsection \<open>What is covered\<close>

definition held_by :: "(Entry \<Rightarrow> bool) \<Rightarrow> Entry list \<Rightarrow> Block set" where
  "held_by admit es = (\<Union>e \<in> {e \<in> set es. admit e}. blocks (eBlocks e))"

lemma covered_runs_concat:
  "covered_runs admit es = concat (map (\<lambda>e. runs (eBlocks e)) (filter (\<lambda>e. admit e \<and> Valid (eBlocks e)) es))"
proof -
  have "foldl (\<lambda>rs e. if admit e \<and> Valid (eBlocks e) then appendRuns rs (eBlocks e) else rs) rs es =
      rs @ concat (map (\<lambda>e. runs (eBlocks e)) (filter (\<lambda>e. admit e \<and> Valid (eBlocks e)) es))" for rs
    by (induction es arbitrary: rs) (auto simp: appendRuns_def)
  then show ?thesis by (simp add: covered_runs_def)
qed

lemma covered_blocks: "blocks (fromRuns (covered_runs admit es)) = held_by admit es"
proof -
  let ?es = "filter (\<lambda>e. admit e \<and> Valid (eBlocks e)) es"
  have "rset (covered_runs admit es) = (\<Union>e \<in> set ?es. rset (runs (eBlocks e)))"
    by (simp only: covered_runs_concat rset_def) auto
  also have "\<dots> = (\<Union>e \<in> set ?es. blocks (eBlocks e))" by (simp add: blocks_def)
  also have "\<dots> = held_by admit es" using blocks_empty_iff by (fastforce simp: held_by_def)
  finally have rset: "rset (covered_runs admit es) = held_by admit es" .
  have ok: "\<forall>r \<in> set (covered_runs admit es). okrun r"
    using Valid_runs_ok by (auto simp: covered_runs_concat)
  show ?thesis
  proof (cases "covered_runs admit es = []")
    case True
    then have "held_by admit es = {}" using rset by simp
    then show ?thesis using True by (simp add: fromRuns_def)
  qed (use fromRuns_correct(2)[OF _ ok] rset in simp)
qed

lemma rel_covered_blocks:
  "blocks (rel_covered rel admit) = realized_blocks (relL rel) (held_by admit (Entries (relIx rel)))"
  by (simp add: rel_covered_def realize_props covered_blocks)

subsection \<open>What the lineage of the relations holds\<close>

lemma With_set: "set (With l cs) \<subseteq> set l \<union> set cs" "set l \<subseteq> set (With l cs)"
    "claim_Valid c \<Longrightarrow> c \<in> set cs \<Longrightarrow> claim_key c \<in> claim_key ` set (With l cs)"
proof -
  let ?f = "\<lambda>(known, out) c. if \<not> claim_Valid c \<or> claim_key c \<in> known then (known, out)
             else (insert (claim_key c) known, out @ [c])"
  have *: "snd (foldl ?f (claim_key ` set out, out) cs) = out' \<Longrightarrow>
      set out' \<subseteq> set out \<union> set cs \<and> set out \<subseteq> set out' \<and>
      (\<forall>c \<in> set cs. claim_Valid c \<longrightarrow> claim_key c \<in> claim_key ` set out')" for out out'
  proof (induction cs arbitrary: out)
    case (Cons c cs)
    show ?case
    proof (cases "\<not> claim_Valid c \<or> claim_key c \<in> claim_key ` set out")
      case True
      then show ?thesis using Cons.IH[of out] Cons.prems by auto
    next
      case False
      have "claim_key ` set (out @ [c]) = insert (claim_key c) (claim_key ` set out)" by auto
      then show ?thesis using Cons.IH[of "out @ [c]"] Cons.prems False by auto
    qed
  qed auto
  have "snd (foldl ?f (claim_key ` set l, l) cs) = With l cs" by (simp add: With_def)
  from *[OF this] show "set (With l cs) \<subseteq> set l \<union> set cs" "set l \<subseteq> set (With l cs)"
    "claim_Valid c \<Longrightarrow> c \<in> set cs \<Longrightarrow> claim_key c \<in> claim_key ` set (With l cs)" by blast+
qed

lemma splits_rows_mono: "splits_rows rows l \<Longrightarrow> set l' \<subseteq> set l \<Longrightarrow> splits_rows rows l'"
  by (auto simp: splits_rows_def)

lemma forClaim_frame [simp]: "relIx (forClaim rel c) = relIx rel"
  by (simp add: forClaim_def index_Relations_def Let_def)

lemma index_Relations_fields [simp]:
  "relIx (index_Relations ix extra) = ix" "relL (index_Relations ix extra) = With (index_Lineage ix) extra"
  "relKnown (index_Relations ix extra) = claim_key ` set (With (index_Lineage ix) extra)"
  by (simp_all add: index_Relations_def Let_def)

lemma forClaim_set:
  "set (relL (forClaim (index_Relations ix extra) c)) \<subseteq> set (index_Lineage ix) \<union> set extra \<union> {c}"
  using With_set(1)[of "index_Lineage ix" extra]
    With_set(1)[of "index_Lineage ix" "With (index_Lineage ix) extra @ [c]"]
  by (auto simp: forClaim_def)


subsection \<open>The best successor\<close>

definition successor_rank :: "Entry \<Rightarrow> int \<times> int \<times> bytes" where
  "successor_rank e = (- uint (Len (eBlocks e)), - uint (eLevel e), ePrefix e)"

lemma betterSuccessor_iff: "betterSuccessor a b \<longleftrightarrow> successor_rank a < successor_rank b"
  by (auto simp: betterSuccessor_def successor_rank_def word_less_def word_uint_eq_iff)

text \<open>\<open>r\<close> is the best of the entries in \<open>A\<close>, if there is one.\<close>

definition best_of :: "Entry set \<Rightarrow> Entry option \<Rightarrow> bool" where
  "best_of A r \<longleftrightarrow> (case r of None \<Rightarrow> A = {} | Some e \<Rightarrow> e \<in> A \<and> (\<forall>a \<in> A. successor_rank e \<le> successor_rank a))"

lemma better_best: "best_of A r \<Longrightarrow> best_of (insert e A) (better e r)"
proof (cases r)
  case (Some b)
  assume "best_of A r"
  then have b: "b \<in> A" "\<forall>a \<in> A. successor_rank b \<le> successor_rank a" using Some by (simp_all add: best_of_def)
  show ?thesis
  proof (cases "successor_rank e < successor_rank b")
    case True
    then have "\<forall>a \<in> A. successor_rank e \<le> successor_rank a" using b(2) by (meson less_imp_le order_trans)
    then show ?thesis using Some True by (simp add: best_of_def better_def betterSuccessor_iff)
  next
    case False
    then have "better e r = Some b" using Some by (simp add: better_def betterSuccessor_iff)
    then show ?thesis using False b by (simp add: best_of_def not_less)
  qed
qed (simp add: best_of_def better_def)

lemma better_fold:
  "best_of A r \<Longrightarrow> best_of (A \<union> {e \<in> set es. P e}) (foldl (\<lambda>best e. if P e then better e best else best) r es)"
proof (induction es arbitrary: A r)
  case (Cons e es)
  have "A \<union> {x \<in> set (e # es). P x} = (if P e then insert e A else A) \<union> {x \<in> set es. P x}" by auto
  then show ?case using Cons.IH[OF better_best[OF Cons.prems]] Cons.IH[OF Cons.prems] by simp
qed simp

lemma best_of_unique:
  assumes "best_of A r" "best_of A r'" "inj_on ePrefix A"
  shows "r = r'"
proof (cases r)
  case None
  then show ?thesis using assms(1,2) by (cases r') (simp_all add: best_of_def)
next
  case (Some a)
  then have a: "a \<in> A" "\<forall>x \<in> A. successor_rank a \<le> successor_rank x" using assms(1) by (simp_all add: best_of_def)
  then obtain b where b: "r' = Some b" using assms(2) by (cases r') (auto simp: best_of_def)
  then have b': "b \<in> A" "\<forall>x \<in> A. successor_rank b \<le> successor_rank x" using assms(2) by (simp_all add: best_of_def)
  have "successor_rank a = successor_rank b" using a b' by (meson order_antisym)
  then have "ePrefix a = ePrefix b" by (simp add: successor_rank_def)
  then show ?thesis using Some b a(1) b'(1) assms(3) by (simp add: inj_on_def)
qed

subsection \<open>Satisfaction\<close>

text \<open>A single part answers a want: it covers the want's blocks, or subsumes the part it names.\<close>

definition answers :: "Lineage \<Rightarrow> Want \<Rightarrow> Entry \<Rightarrow> bool" where
  "answers l w e \<longleftrightarrow> Contains (eBlocks e) (wBlocks w) \<or> Subsumes l e (want_Entry w)"

lemma satisfying_loop_cases:
  "(\<exists>e \<in> set es. admit e \<and> ePrefix e = wPrefix w \<and> satisfying_loop l w admit r es = Some e) \<or>
   (\<forall>e \<in> set es. admit e \<longrightarrow> ePrefix e \<noteq> wPrefix w) \<and>
     satisfying_loop l w admit r es = foldl (\<lambda>best e. if admit e \<and> answers l w e then better e best else best) r es"
  by (induction l w admit r es rule: satisfying_loop.induct) (auto simp: answers_def)

lemma satisfying_cases:
  obtains (exact) e where "e \<in> set (Entries (relIx rel))" "admit e" "ePrefix e = wPrefix w" "satisfying rel w admit = Some e"
  | (single) "\<forall>e \<in> set (Entries (relIx rel)). admit e \<longrightarrow> ePrefix e \<noteq> wPrefix w"
      "{e \<in> set (Entries (relIx rel)). admit e \<and> answers (relL rel) w e} \<noteq> {}"
      "best_of {e \<in> set (Entries (relIx rel)). admit e \<and> answers (relL rel) w e} (satisfying rel w admit)"
  | (joint) "\<forall>e \<in> set (Entries (relIx rel)). admit e \<longrightarrow> ePrefix e \<noteq> wPrefix w \<and> \<not> answers (relL rel) w e"
      "satisfying rel w admit = jointlySatisfying rel w admit"
proof -
  let ?es = "Entries (relIx rel)"
  let ?r = "satisfying_loop (relL rel) w admit None ?es"
  from satisfying_loop_cases[of ?es admit w "relL rel" None]
  show thesis
  proof
    assume "\<exists>e \<in> set ?es. admit e \<and> ePrefix e = wPrefix w \<and> ?r = Some e"
    then show thesis using exact by (auto simp: satisfying_def)
  next
    assume A: "(\<forall>e \<in> set ?es. admit e \<longrightarrow> ePrefix e \<noteq> wPrefix w) \<and>
      ?r = foldl (\<lambda>best e. if admit e \<and> answers (relL rel) w e then better e best else best) None ?es"
    have best: "best_of {e \<in> set ?es. admit e \<and> answers (relL rel) w e} ?r"
      using better_fold[of "{}" None ?es "\<lambda>e. admit e \<and> answers (relL rel) w e"] A by (simp add: best_of_def)
    show thesis
    proof (cases ?r)
      case None
      then show thesis using joint best A by (auto simp: best_of_def satisfying_def)
    next
      case (Some e)
      then show thesis using single best A by (auto simp: best_of_def satisfying_def)
    qed
  qed
qed

lemma satisfying_rows:
  assumes rows: "splits_rows rows (relL rel)" and some: "satisfying rel w admit = Some e"
    and exact: "\<forall>e \<in> set (Entries (relIx rel)). admit e \<and> ePrefix e = wPrefix w \<longrightarrow> eBlocks e = wBlocks w"
  shows "rows_of rows (wBlocks w) \<subseteq> \<Union> (rows ` held_by admit (Entries (relIx rel)))"
proof -
  have one: "rows_of rows (eBlocks x) \<subseteq> \<Union> (rows ` held_by admit (Entries (relIx rel)))"
    if "x \<in> set (Entries (relIx rel))" "admit x" for x
    using that by (auto simp: rows_of_def held_by_def)
  have ans: "rows_of rows (wBlocks w) \<subseteq> rows_of rows (eBlocks x)" if "answers (relL rel) w x" for x
    using that Contains_rows[of "eBlocks x" "wBlocks w" rows] Subsumes_sound[OF rows, of x "want_Entry w"]
    by (auto simp: answers_def want_Entry_def)
  show ?thesis
  proof (cases rule: satisfying_cases[of rel admit w])
    case (exact x)
    then show ?thesis using assms(3) one[of x] by auto
  next
    case single
    then have "answers (relL rel) w e" "e \<in> set (Entries (relIx rel))" "admit e" using some by (auto simp: best_of_def)
    then show ?thesis using ans[of e] one[of e] by blast
  next
    case joint
    then have "Contains (rel_covered rel admit) (wBlocks w)"
      using some by (auto simp: jointlySatisfying_def split: if_splits)
    then have "rows_of rows (wBlocks w) \<subseteq> rows_of rows (rel_covered rel admit)" by (rule Contains_rows)
    also have "\<dots> = \<Union> (rows ` held_by admit (Entries (relIx rel)))"
      using realized_rows[OF rows] by (simp add: rows_of_def rel_covered_blocks)
    finally show ?thesis .
  qed
qed


lemma satisfying_mem:
  assumes "satisfying rel w admit = Some e"
  shows "e \<in> set (Entries (relIx rel)) \<and> admit e"
proof (cases rule: satisfying_cases[of rel admit w])
  case joint
  let ?P = "\<lambda>e. admit e \<and> Valid (eBlocks e) \<and> joint_part rel w e"
  have "best_of {e \<in> set (Entries (relIx rel)). ?P e} (Some e)"
    using joint(2) assms better_fold[of "{}" None "Entries (relIx rel)" ?P]
    by (auto simp: jointlySatisfying_def best_of_def split: if_splits)
  then show ?thesis by (simp add: best_of_def)
qed (use assms in \<open>auto simp: best_of_def\<close>)

text \<open>A claim some entry or want of the index carries is known to its relations.\<close>

lemma search_key: "snd (binary_search_func compareClaims xs c) \<Longrightarrow> claim_key c \<in> claim_key ` set xs"
  by (auto simp: binary_search_func_def Let_def cat.cmp_zero) (metis image_eqI nth_mem)

lemma lineage_add_key: "claim_Valid c \<Longrightarrow> claim_key c \<in> claim_key ` set (lineage_add n l c)"
  using search_key[of "take n l" c] in_set_takeD[of _ n l] in_set_dropD[of _ n l]
  by (fastforce simp: lineage_add_def list_ex_iff)

lemma lineage_add_mono: "set l \<subseteq> set (lineage_add n l c)"
  by (auto simp: lineage_add_def)

lemma index_Lineage_keys:
  assumes "claim_Valid c" "c \<in> set (index_claims_of ix)"
  shows "claim_key c \<in> claim_key ` set (index_Lineage ix)"
proof -
  have mono: "set l \<subseteq> set (foldl (lineage_add n) l cs)" for n l cs
    using lineage_add_mono by (induction cs arbitrary: l) (auto, blast)
  have "c \<in> set cs \<Longrightarrow> claim_key c \<in> claim_key ` set (foldl (lineage_add n) l cs)" for n l cs
  proof (induction cs arbitrary: l)
    case (Cons x cs)
    show ?case
    proof (cases "c = x")
      case True
      then show ?thesis using mono[of "lineage_add n l x" n cs] lineage_add_key[OF assms(1), of n l] by auto
    qed (use Cons in simp)
  qed simp
  then show ?thesis using assms(2) unfolding index_Lineage_def by blast
qed

lemma forClaim_known:
  "c \<in> set (index_claims_of ix) \<Longrightarrow> forClaim (index_Relations ix []) c = index_Relations ix []"
  using index_Lineage_keys[of c ix] by (auto simp: forClaim_def With_def)

lemma With_Nil [simp]: "With l [] = l"
  by (simp add: With_def)

subsection \<open>What a want still misses\<close>

abbreviation passed :: "Lineage \<Rightarrow> Interval \<Rightarrow> Claim set" where
  "passed l iv \<equiv> {c \<in> set l. blocks (cBlocks c) \<inter> descendant_blocks l (blocks iv) \<noteq> {}}"

lemma descendants_used: "set (map snd (filter fst (zip (snd (descendants l iv)) l))) = passed l iv"
proof -
  have "set (map snd (filter fst (zip r l))) = {l ! i |i. i < length l \<and> r ! i}" if "length r = length l" for r
    using that by (force simp: set_zip)
  then have "set (map snd (filter fst (zip (snd (descendants l iv)) l))) = {l ! i |i. i < length l \<and> snd (descendants l iv) ! i}"
    using descendants_props(3)[of l iv] by blast
  also have "\<dots> = {l ! i |i. i < length l \<and> blocks (cBlocks (l ! i)) \<inter> descendant_blocks l (blocks iv) \<noteq> {}}"
    using descendants_props(4)[of _ l iv] by blast
  also have "\<dots> = passed l iv" by (auto simp: in_set_conv_nth)
  finally show ?thesis .
qed

lemma consumed_blocks: "blocks (foldl (\<lambda>iv c. Interval_Union iv (cBlocks c)) iv cs) = blocks iv \<union> (\<Union>c \<in> set cs. blocks (cBlocks c))"
  by (induction cs arbitrary: iv) (auto simp: Union_correct)

lemma blocks_numbered: "b \<in> blocks iv \<Longrightarrow> bN b \<noteq> 0"
proof -
  assume b: "b \<in> blocks iv"
  then have V: "Valid iv" using blocks_empty_iff by blast
  then obtain r where "r \<in> set (runs iv)" "gMin r \<le> b" "b \<le> gMax r" using b by (auto simp: blocks_def rset_def)
  with Valid_runs_ok[OF V this(1)] show ?thesis by (auto simp: okrun_alt less_eq_Block_def)
qed

lemma Contains_Single: "b \<in> blocks x \<Longrightarrow> Contains iv (Single b) \<longleftrightarrow> b \<in> blocks iv"
  using blocks_numbered[of b x] blocks_empty_iff[of iv] by (auto simp: Contains_iff Single_props)


lemma missing_fold:
  assumes "\<forall>b \<in> set bs. b \<in> blocks x" "distinct out"
  shows "set (fold (\<lambda>b s. fst (missing_add held consumed b s)) bs out) =
      set out \<union> {b \<in> set bs. b \<notin> blocks held \<and> b \<notin> blocks consumed} \<and>
    distinct (fold (\<lambda>b s. fst (missing_add held consumed b s)) bs out)"
  using assms
proof (induction bs arbitrary: out)
  case (Cons b bs)
  let ?o = "fst (missing_add held consumed b out)"
  have o: "?o = (if b \<notin> blocks held \<and> b \<notin> blocks consumed \<and> b \<notin> set out then out @ [b] else out)"
    using Contains_Single[of b x] Cons.prems(1) by (simp add: missing_add_def Let_def)
  then have "distinct ?o" using Cons.prems(2) by simp
  from Cons.IH[OF _ this] Cons.prems(1) o show ?case by auto
qed simp

lemma missing_step:
  assumes "distinct out"
  shows "set (Each iv (missing_add held consumed) out) = set out \<union> {b \<in> blocks iv. b \<notin> blocks held \<and> b \<notin> blocks consumed}"
    and "distinct (Each iv (missing_add held consumed) out)"
proof -
  have "missing_add held consumed = (\<lambda>b s. (fst (missing_add held consumed b s), True))"
    by (intro ext) (simp add: missing_add_def Let_def)
  then have "Each iv (missing_add held consumed) out = Each iv (\<lambda>b s. (fst (missing_add held consumed b s), True)) out" by (rule arg_cong)
  also have "\<dots> = fold (\<lambda>b s. fst (missing_add held consumed b s)) (sorted_list_of_set (blocks iv)) out" by (rule Each_fold)
  finally show "set (Each iv (missing_add held consumed) out) = set out \<union> {b \<in> blocks iv. b \<notin> blocks held \<and> b \<notin> blocks consumed}"
    "distinct (Each iv (missing_add held consumed) out)"
    using missing_fold[of "sorted_list_of_set (blocks iv)" iv out held consumed] assms blocks_finite[of iv] by simp_all
qed

lemma missing_all:
  "distinct out \<Longrightarrow> set (foldl (\<lambda>out c. Each (cGroup c) (missing_add held consumed) out) out cs) =
     set out \<union> {b. \<exists>c \<in> set cs. b \<in> blocks (cGroup c) \<and> b \<notin> blocks held \<and> b \<notin> blocks consumed}"
  by (induction cs arbitrary: out) (auto simp: missing_step)

text \<open>The members of the groups derived from the wanted rows that are neither held nor split again.\<close>

lemma Missing_set:
  assumes "Valid (wBlocks w)" "satisfying (forClaim rel (wClaim w)) w Data = None"
  shows "let l = relL (forClaim rel (wClaim w)); held = realized_blocks l (held_by Data (Entries (relIx rel)))
    in set (rel_Missing rel w) =
      \<Union> ((\<lambda>c. blocks (cGroup c)) ` passed l (wBlocks w)) - held - \<Union> ((\<lambda>c. blocks (cBlocks c)) ` passed l (wBlocks w))"
proof -
  define l where "l = relL (forClaim rel (wClaim w))"
  let ?used = "map snd (filter fst (zip (snd (descendants l (wBlocks w))) l))"
  let ?held = "rel_Covered (forClaim rel (wClaim w))"
  let ?consumed = "foldl (\<lambda>iv c. Interval_Union iv (cBlocks c)) unset ?used"
  have h: "blocks ?held = realized_blocks l (held_by Data (Entries (relIx rel)))"
    by (simp add: rel_Covered_def rel_covered_blocks l_def)
  have "set (rel_Missing rel w) = set (foldl (\<lambda>out c. Each (cGroup c) (missing_add ?held ?consumed) out) [] ?used)"
    using assms by (simp add: rel_Missing_def Let_def l_def blk.sort_func_set)
  also have "\<dots> = {b. \<exists>c \<in> set ?used. b \<in> blocks (cGroup c) \<and> b \<notin> blocks ?held \<and> b \<notin> blocks ?consumed}"
    by (subst missing_all) simp_all
  also have "\<dots> = \<Union> ((\<lambda>c. blocks (cGroup c)) ` passed l (wBlocks w)) - blocks ?held -
      \<Union> ((\<lambda>c. blocks (cBlocks c)) ` passed l (wBlocks w))"
    unfolding descendants_used consumed_blocks by auto
  finally show ?thesis unfolding h l_def[symmetric] Let_def .
qed

text \<open>Holding what is missing completes every group the wanted rows were split into.\<close>

lemma passed_complete:
  assumes age: "\<forall>c \<in> set l. \<forall>x \<in> blocks (cGroup c). \<forall>y \<in> blocks (cBlocks c). born y < (born x :: nat)"
    and valid: "\<forall>c \<in> set l. claim_Valid c"
    and R: "H \<subseteq> R" "M \<subseteq> R" "realized_blocks l R = R"
    and M: "M = \<Union> ((\<lambda>c. blocks (cGroup c)) ` passed l iv) - H - \<Union> ((\<lambda>c. blocks (cBlocks c)) ` passed l iv)"
    and c: "c \<in> passed l iv"
  shows "blocks (cGroup c) \<subseteq> R" and "blocks (cBlocks c) \<subseteq> R"
proof -
  define top where "top = Max (born ` (\<Union>c \<in> set l. blocks (cGroup c)))"
  have top: "born x \<le> top" if "c \<in> set l" "x \<in> blocks (cGroup c)" for c x
    unfolding top_def using that blocks_finite by (intro Max_ge) auto
  have realize: "blocks (cBlocks d) \<subseteq> R" if "d \<in> set l" "blocks (cGroup d) \<subseteq> R" for d
    using realized_steps[of d l R] that valid R(3) by (simp add: claim_Valid_def)
  have mem: "x \<in> R" if "d \<in> passed l iv" "x \<in> blocks (cGroup d)" for d x
    using that
  proof (induction "top - born x" arbitrary: d x rule: less_induct)
    case less
    show ?case
    proof (cases "x \<in> H \<or> x \<in> M")
      case False
      then obtain e where e: "e \<in> passed l iv" "x \<in> blocks (cBlocks e)" using M less.prems by blast
      have "y \<in> R" if y: "y \<in> blocks (cGroup e)" for y
      proof (rule less.hyps[OF _ e(1) y])
        have "born x < born y" using age e y by blast
        moreover have "born y \<le> top" using top e(1) y by blast
        ultimately show "top - born y < top - born x" by simp
      qed
      then show ?thesis using realize[of e] e by blast
    qed (use R in blast)
  qed
  then show "blocks (cGroup c) \<subseteq> R" using c by blast
  then show "blocks (cBlocks c) \<subseteq> R" using realize c by blast
qed

end
