(* ===== verification/Trims.thy ===== *)
theory Trims
  imports Relations
begin

text \<open>
  No commit loses rows silently: what the trims of \<^verbatim>\<open>block.go\<close>, \<^verbatim>\<open>want.go\<close> and \<^verbatim>\<open>hole.go\<close> drop (parts
  other parts subsume, wants that are discharged, holes whose data came back) is held by what stays.
\<close>

abbreviation rows_held :: "(Block \<Rightarrow> 'r set) \<Rightarrow> (Entry \<Rightarrow> bool) \<Rightarrow> Entry list \<Rightarrow> 'r set" where
  "rows_held rows admit es \<equiv> \<Union> (rows ` held_by admit es)"

lemma rows_held_iff: "r \<in> rows_held rows admit es \<longleftrightarrow> (\<exists>e \<in> set es. admit e \<and> r \<in> rows_of rows (eBlocks e))"
  by (auto simp: held_by_def rows_of_def)

subsection \<open>Superseded parts\<close>

lemma lineage_level_least:
  assumes "lineage_level l g es = (lv, found)"
  shows "found \<Longrightarrow> e \<in> set es \<Longrightarrow> Data e \<Longrightarrow> Valid (eBlocks e) \<Longrightarrow> blocks (eBlocks e) \<subseteq> descendant_blocks l (blocks g) \<Longrightarrow>
    Valid g \<Longrightarrow> lv \<le> eLevel e"
proof -
  let ?P = "\<lambda>e. Data e \<and> Valid (eBlocks e) \<and> Contains (fst (descendants l g)) (eBlocks e)"
  let ?f = "\<lambda>(level, found) e. if Data e \<and> Valid (eBlocks e) \<and> Contains (fst (descendants l g)) (eBlocks e) \<and>
      (\<not> found \<or> eLevel e < level) then (eLevel e, True) else (level, found)"
  have "foldl ?f (lv0, f0) es = (lv, found) \<Longrightarrow>
      (f0 \<longrightarrow> found \<and> lv \<le> lv0) \<and> (\<forall>e \<in> set es. ?P e \<longrightarrow> found \<and> lv \<le> eLevel e)" for lv0 f0
  proof (induction es arbitrary: lv0 f0)
    case (Cons x es)
    show ?case
    proof (cases "?P x \<and> (\<not> f0 \<or> eLevel x < lv0)")
      case True
      then have "foldl ?f (eLevel x, True) es = (lv, found)" using Cons.prems by simp
      from Cons.IH[OF this] have IH: "found" "lv \<le> eLevel x" "\<forall>e \<in> set es. ?P e \<longrightarrow> found \<and> lv \<le> eLevel e" by blast+
      moreover have "f0 \<longrightarrow> lv \<le> lv0" using True IH(2) by (meson less_imp_le order_trans)
      ultimately show ?thesis by simp
    next
      case False
      then have "foldl ?f (lv0, f0) es = (lv, found)" using Cons.prems by auto
      from Cons.IH[OF this] have IH: "f0 \<longrightarrow> found \<and> lv \<le> lv0" "\<forall>e \<in> set es. ?P e \<longrightarrow> found \<and> lv \<le> eLevel e" by blast+
      moreover have "?P x \<longrightarrow> found \<and> lv \<le> eLevel x" using False IH(1) by (meson not_less order_trans)
      ultimately show ?thesis by simp
    qed
  qed simp
  from this[of 0 False] assms have "\<forall>e \<in> set es. ?P e \<longrightarrow> found \<and> lv \<le> eLevel e"
    by (simp add: lineage_level_def Let_def)
  then show "found \<Longrightarrow> e \<in> set es \<Longrightarrow> Data e \<Longrightarrow> Valid (eBlocks e) \<Longrightarrow> blocks (eBlocks e) \<subseteq> descendant_blocks l (blocks g) \<Longrightarrow>
    Valid g \<Longrightarrow> lv \<le> eLevel e"
    by (simp add: Contains_iff descendants_props(1,2))
qed

lemma realized_within:
  assumes "x \<in> realized_blocks l S" "x \<in> descendant_blocks l G"
  shows "x \<in> realized_blocks l (S \<inter> descendant_blocks l G)"
  using assms
proof (induction rule: realized_blocks.induct)
  case (realized_step c b)
  then have "\<forall>a \<in> blocks (cGroup c). a \<in> descendant_blocks l G" by (blast intro: desc_step)
  then show ?case using realized_step realized_blocks.realized_step[of c l _ b] by blast
qed (simp add: realized_base)

text \<open>A live part the group rule drops, and the group that drops it.\<close>

definition group_drops :: "Lineage \<Rightarrow> Entry list \<Rightarrow> Claim \<Rightarrow> Entry \<Rightarrow> bool" where
  "group_drops l all c o' \<longleftrightarrow> c \<in> set l \<and> Valid (cGroup c) \<and> blocks (cGroup c) \<subseteq> realized_blocks l (held_by Data all) \<and>
     Contains (holds l (cBlocks c)) (eBlocks o') \<and> snd (lineage_level l (cGroup c) all) \<and>
     eLevel o' < fst (lineage_level l (cGroup c) all)"

lemma rel_Subsumed_cases:
  assumes "p \<in> rel_Subsumed l live added"
  obtains (direct) a o' where "a \<in> set added" "o' \<in> set live" "ePrefix o' = p" "Subsumes l a o'"
  | (grouped) c o' where "o' \<in> set live" "ePrefix o' = p" "group_drops l (live @ added) c o'"
proof -
  let ?all = "live @ added" 
  let ?complete = "snd (realize l (fromRuns (covered_runs Data ?all)))"
  have com: "length ?complete = length l" "\<And>i. i < length l \<Longrightarrow> ?complete ! i \<longleftrightarrow>
      Valid (cGroup (l ! i)) \<and> blocks (cGroup (l ! i)) \<subseteq> realized_blocks l (held_by Data ?all)"
    by (simp_all add: realize_props(3,4) covered_blocks)
  let ?lvl = "\<lambda>c. lineage_level l (cGroup c) ?all"
  have "(\<exists>a \<in> set added. \<exists>o' \<in> set live. p = ePrefix o' \<and> Subsumes l a o') \<or>
      (\<exists>x \<in> set (zip ?complete l). fst x \<and> snd (?lvl (snd x)) \<and>
         (\<exists>o' \<in> set live. p = ePrefix o' \<and> Contains (holds l (cBlocks (snd x))) (eBlocks o') \<and> eLevel o' < fst (?lvl (snd x))))"
    using assms unfolding rel_Subsumed_def Let_def case_prod_beta
    by (auto split: if_splits)
  then consider "\<exists>a \<in> set added. \<exists>o' \<in> set live. p = ePrefix o' \<and> Subsumes l a o'"
    | x where "x \<in> set (zip ?complete l)" "fst x" "snd (?lvl (snd x))"
      "\<exists>o' \<in> set live. p = ePrefix o' \<and> Contains (holds l (cBlocks (snd x))) (eBlocks o') \<and> eLevel o' < fst (?lvl (snd x))"
    by blast
  then show thesis
  proof cases
    case 1
    then show thesis using direct by blast
  next
    case 2
    then obtain i where "i < length l" "?complete ! i" "snd x = l ! i" using com(1) by (auto simp: set_zip)
    moreover obtain o' where "o' \<in> set live" "p = ePrefix o'" "Contains (holds l (cBlocks (snd x))) (eBlocks o')"
      "eLevel o' < fst (?lvl (snd x))" using 2(4) by blast
    ultimately show thesis using grouped[of o' "l ! i"] 2(3) com(2)[of i] by (simp add: group_drops_def)
  qed
qed


text \<open>No part that carries rows of a completed group's members sits below the level of the group.\<close>

definition levels_ordered :: "Lineage \<Rightarrow> Entry list \<Rightarrow> bool" where
  "levels_ordered l all \<longleftrightarrow>
     (\<forall>c \<in> set l. \<forall>e \<in> set all. blocks (cGroup c) \<subseteq> realized_blocks l (held_by Data all) \<and>
        blocks (eBlocks e) \<inter> descendant_blocks l (blocks (cGroup c)) \<noteq> {} \<longrightarrow>
        fst (lineage_level l (cGroup c) all) \<le> eLevel e)"

lemma group_drop_carried:
  assumes rows: "splits_rows rows l" and lv: "levels_ordered l all" and drop: "group_drops l all c o'"
    and r: "r \<in> rows_of rows (eBlocks o')"
  shows "\<exists>e \<in> set all. Data e \<and> r \<in> rows_of rows (eBlocks e) \<and> eLevel o' < eLevel e"
proof -
  let ?S = "held_by Data all" and ?D = "descendant_blocks l (blocks (cGroup c))"
  have c: "c \<in> set l" "Valid (cGroup c)" "blocks (cGroup c) \<subseteq> realized_blocks l ?S"
    "Contains (holds l (cBlocks c)) (eBlocks o')" "eLevel o' < fst (lineage_level l (cGroup c) all)"
    using drop by (auto simp: group_drops_def)
  have V: "claim_Valid c" using c(2,4) holds_Valid[of l "cBlocks c"] by (simp add: claim_Valid_def Contains_iff)
  have "r \<in> rows_of rows (holds l (cBlocks c))" using Contains_rows[OF c(4), of rows] r by blast
  then have "r \<in> rows_of rows (cBlocks c)" using held_rows[OF rows] by (simp add: rows_of_def holds_blocks)
  then have "r \<in> rows_of rows (cGroup c)" using rows V c(1) by (simp add: splits_rows_def)
  moreover have "blocks (cGroup c) \<subseteq> realized_blocks l (?S \<inter> ?D)"
    using c(3) by (blast intro: realized_within desc_base)
  ultimately have "r \<in> \<Union> (rows ` realized_blocks l (?S \<inter> ?D))" by (auto simp: rows_of_def)
  then obtain b where "b \<in> ?S" "b \<in> ?D" "r \<in> rows b" using realized_rows[OF rows] by auto
  then obtain e where e: "e \<in> set all" "Data e" "b \<in> blocks (eBlocks e)" "b \<in> ?D" "r \<in> rows b" by (auto simp: held_by_def)
  then have "fst (lineage_level l (cGroup c) all) \<le> eLevel e" using lv c(1,3) unfolding levels_ordered_def by blast
  then have "eLevel o' < eLevel e" using c(5) by (rule less_le_trans[rotated])
  then show ?thesis using e by (auto simp: rows_of_def)
qed

lemma Subsumed_keeps_rows:
  assumes rows: "splits_rows rows l" and lv: "levels_ordered l (live @ added)"
    and data: "\<forall>e \<in> set (live @ added). Data e" and dist: "distinct (map ePrefix live)"
  shows "\<Union> (rows ` held_by Data (live @ added)) \<subseteq>
    \<Union> (rows ` held_by Data (filter (\<lambda>e. ePrefix e \<notin> rel_Subsumed l live added) live @ added))"
proof -
  let ?rest = "filter (\<lambda>e. ePrefix e \<notin> rel_Subsumed l live added) live @ added"
  have kept: "r \<in> \<Union> (rows ` held_by Data ?rest)" if "e \<in> set ?rest" "r \<in> rows_of rows (eBlocks e)" for e r
    using that data unfolding rows_held_iff by auto
  have "r \<in> \<Union> (rows ` held_by Data ?rest)" if "e \<in> set (live @ added)" "r \<in> rows_of rows (eBlocks e)" for e r
    using that
  proof (induction "2 ^ 32 - unat (eLevel e)" arbitrary: e rule: less_induct)
    case less
    show ?case
    proof (cases "e \<in> set ?rest")
      case False
      then have e: "e \<in> set live" "ePrefix e \<in> rel_Subsumed l live added" using less.prems(1) by auto
      have same: "o' = e" if "o' \<in> set live" "ePrefix o' = ePrefix e" for o'
        using dist e(1) that by (auto simp: distinct_map inj_on_def)
      from e(2) show ?thesis
      proof (cases rule: rel_Subsumed_cases)
        case (direct a o')
        then have "o' = e" using same by simp
        then have "r \<in> rows_of rows (eBlocks a)" using Subsumes_sound[OF rows direct(4)] less.prems(2) by (simp add: subsetD)
        then show ?thesis using kept[of a] direct(1) by simp
      next
        case (grouped c o')
        then obtain d where d: "d \<in> set (live @ added)" "r \<in> rows_of rows (eBlocks d)" "eLevel e < eLevel d"
          using group_drop_carried[OF rows lv grouped(3)] same[OF grouped(1,2)] less.prems(2) by blast
        have "2 ^ 32 - unat (eLevel d) < 2 ^ 32 - unat (eLevel e)"
          using d(3) unsigned_less[of "eLevel d", where ?'a = nat] by (simp add: word_less_nat_alt)
        then show ?thesis using less.hyps d(1,2) by blast
      qed
    qed (use kept less.prems in blast)
  qed
  then show ?thesis unfolding subset_iff rows_held_iff[of _ _ _ "live @ added"] by blast
qed


subsection \<open>Wants and holes\<close>

text \<open>A live entry under a want's prefix is the wanted part.\<close>

definition prefix_names_part :: "Entry list \<Rightarrow> bytes \<Rightarrow> Interval \<Rightarrow> bool" where
  "prefix_names_part es p iv \<longleftrightarrow> (\<forall>e \<in> set es. ePrefix e = p \<longrightarrow> eBlocks e = iv)"

lemma Satisfying_rows:
  assumes "splits_rows rows (index_Lineage ix @ extra @ [wClaim w])" "SatisfyingWith ix w extra = Some e"
    and "prefix_names_part (filter Data (Entries ix)) (wPrefix w) (wBlocks w)"
  shows "rows_of rows (wBlocks w) \<subseteq> rows_held rows Data (Entries ix)" "e \<in> set (Entries ix)" "Data e"
proof -
  let ?rel = "forClaim (index_Relations ix extra) (wClaim w)"
  have sp: "splits_rows rows (relL ?rel)"
    using splits_rows_mono[OF assms(1)] forClaim_set[of ix extra "wClaim w"] by simp
  have some: "satisfying ?rel w Data = Some e" using assms(2) by (simp add: SatisfyingWith_def rel_Satisfying_def)
  show "rows_of rows (wBlocks w) \<subseteq> rows_held rows Data (Entries ix)"
    using satisfying_rows[OF sp some] assms(3) by (simp add: prefix_names_part_def)
  show "e \<in> set (Entries ix)" "Data e" using satisfying_mem[OF some] by simp_all
qed

lemma TrimWants_rows:
  assumes "splits_rows rows (index_Lineage (empty_index\<lparr>Entries := live, Catalog := catalog, Wanted := wants\<rparr>))"
    and "w \<in> set wants" "w \<notin> set (TrimWants wants live catalog)" "prefix_names_part live (wPrefix w) (wBlocks w)"
  shows "rows_of rows (wBlocks w) \<subseteq> rows_held rows (\<lambda>_. True) live"
proof -
  let ?ix = "empty_index\<lparr>Entries := live, Catalog := catalog, Wanted := wants\<rparr>"
  have "forClaim (index_Relations ?ix []) (wClaim w) = index_Relations ?ix []"
    using assms(2) by (intro forClaim_known) simp
  moreover obtain e where "rel_Discharging (index_Relations ?ix []) w = Some e"
    using assms(2,3) by (auto simp: TrimWants_def Let_def wan.sort_func_set)
  ultimately have "satisfying (index_Relations ?ix []) w (\<lambda>_. True) = Some e" by (simp add: rel_Discharging_def)
  from satisfying_rows[OF _ this] assms(1,4) show ?thesis by (simp add: prefix_names_part_def)
qed

lemma TrimHoles_rows:
  assumes "splits_rows rows (index_Lineage (empty_index\<lparr>Entries := live @ holes, Catalog := catalog\<rparr>))"
    and "h \<in> set holes" "h \<notin> set (TrimHoles holes live catalog)" "prefix_names_part live (ePrefix h) (eBlocks h)"
    and "\<forall>x \<in> set holes. eHole x"
  shows "rows_of rows (eBlocks h) \<subseteq> rows_held rows Data live"
proof -
  let ?ix = "empty_index\<lparr>Entries := live @ holes, Catalog := catalog\<rparr>"
  have held: "held_by Data (live @ holes) = held_by Data live" using assms(5) by (auto simp: held_by_def Data_def)
  consider e where "e \<in> set live" "revokes e h (index_Lineage ?ix)"
    | "jointlySatisfying (index_Relations ?ix []) (WantOf h (Generation 0 0)) Data \<noteq> None"
    using assms(2,3) by (auto simp: TrimHoles_def Let_def list_ex_iff)
  then show ?thesis
  proof cases
    case 1
    have "rows_of rows (eBlocks h) \<subseteq> rows_of rows (eBlocks e)"
      using 1 assms(4) Subsumes_sound[OF assms(1)] by (auto simp: revokes_def prefix_names_part_def split: if_splits)
    moreover have "Data e" using 1(2) by (simp add: revokes_def split: if_splits)
    ultimately show ?thesis unfolding subset_iff rows_held_iff using 1(1) by blast
  next
    case 2
    then have "Contains (rel_covered (index_Relations ?ix []) Data) (eBlocks h)"
      by (auto simp: jointlySatisfying_def WantOf_def split: if_splits)
    from Contains_rows[OF this, of rows] show ?thesis
      using realized_rows[OF assms(1)] by (simp add: rows_of_def rel_covered_blocks held)
  qed
qed


subsection \<open>Repair by members\<close>

lemma realized_idem: "realized_blocks l (realized_blocks l S) = realized_blocks l S"
proof -
  have "b \<in> realized_blocks l (realized_blocks l S) \<Longrightarrow> b \<in> realized_blocks l S" for b
  proof (induction rule: realized_blocks.induct)
    case (realized_step c b)
    then show ?case using realized_blocks.realized_step[of c l S b] by blast
  qed
  then show ?thesis by (blast intro: realized_base)
qed

lemma Missing_completes:
  assumes valid: "\<forall>c \<in> set l. claim_Valid c"
    and age: "\<forall>c \<in> set l. \<forall>x \<in> blocks (cGroup c). \<forall>y \<in> blocks (cBlocks c). born y < (born x :: nat)"
    and l: "l = relL (forClaim rel (wClaim w))"
    and w: "Valid (wBlocks w)" "satisfying (forClaim rel (wClaim w)) w Data = None"
    and split: "blocks (wBlocks w) \<subseteq> realized_blocks l (held_by Data (Entries (relIx rel))) \<union> (\<Union>c \<in> set l. blocks (cBlocks c))"
    and fetched: "held_by Data (Entries (relIx rel)) \<union> set (rel_Missing rel w) \<subseteq> held_by Data es"
  shows "Contains (fst (realize l (fromRuns (covered_runs Data es)))) (wBlocks w)"
proof -
  let ?R = "realized_blocks l (held_by Data es)" and ?H = "realized_blocks l (held_by Data (Entries (relIx rel)))"
  have H: "?H \<subseteq> ?R" using fetched by (intro realized_mono) auto
  have M: "set (rel_Missing rel w) \<subseteq> ?R" using fetched by (auto intro: realized_base)
  have "set (rel_Missing rel w) = \<Union> ((\<lambda>c. blocks (cGroup c)) ` passed l (wBlocks w)) - ?H -
      \<Union> ((\<lambda>c. blocks (cBlocks c)) ` passed l (wBlocks w))"
    using Missing_set[OF w] unfolding l Let_def .
  note full = passed_complete[OF age valid H M realized_idem this]
  have sub: "blocks (wBlocks w) \<subseteq> ?R"
  proof
    fix b assume b: "b \<in> blocks (wBlocks w)"
    then consider "b \<in> ?H" | c where "c \<in> set l" "b \<in> blocks (cBlocks c)" using split by blast
    then show "b \<in> ?R"
    proof cases
      case 2
      then have "c \<in> passed l (wBlocks w)" using b desc_base[of b "blocks (wBlocks w)" l] by blast
      then show ?thesis using full(2) 2(2) by blast
    qed (use H in blast)
  qed
  have "blocks (fromRuns (covered_runs Data es)) \<noteq> {}"
  proof
    assume "blocks (fromRuns (covered_runs Data es)) = {}"
    then have "?R = {}" by (simp add: covered_blocks invalid_closures)
    then show False using sub w(1) blocks_empty_iff by blast
  qed
  then have "Valid (fst (realize l (fromRuns (covered_runs Data es))))"
    unfolding realize_props(2) using blocks_empty_iff by blast
  then show ?thesis using sub w(1) by (simp add: Contains_iff realize_props(1) covered_blocks)
qed


subsection \<open>Properties of the trims\<close>

definition ex_part :: "u8 \<Rightarrow> u64 \<Rightarrow> u32 \<Rightarrow> Entry" where
  "ex_part p n level = no_entry\<lparr>ePrefix := [p], eBlocks := Single (Block 0 n), eLevel := level\<rparr>"

lemma ex_part_simps [simp]:
  "ePrefix (ex_part p n lv) = [p]" "eBlocks (ex_part p n lv) = Single (Block 0 n)" "eLevel (ex_part p n lv) = lv"
  "eHole (ex_part p n lv) = False" "eClaim (ex_part p n lv) = no_claim" "Data (ex_part p n lv)"
  by (simp_all add: ex_part_def no_entry_def Data_def)

text \<open>C13. When the index answers a want, the wanted rows are really there: the part it names is one of its
  data-bearing parts, and the parts it holds carry every row of the lost part, be it through one
  successor or through a completed split group.\<close>

theorem satisfied_want_has_its_rows:
  assumes "splits_rows rows (index_Lineage ix @ extra @ [wClaim w])" "SatisfyingWith ix w extra = Some e"
    and "prefix_names_part (filter Data (Entries ix)) (wPrefix w) (wBlocks w)"
  shows "rows_of rows (wBlocks w) \<subseteq> rows_held rows Data (Entries ix) \<and> e \<in> set (Entries ix) \<and> Data e"
  using Satisfying_rows[OF assms] by blast

theorem satisfied_want_has_its_rows_witness:
  "rows_of ex_rows (Single (Block 0 1)) \<subseteq> rows_held ex_rows Data [ex_part 98 2 1, ex_part 99 3 1]"
proof -
  let ?ix = "empty_index\<lparr>Entries := [ex_part 98 2 1, ex_part 99 3 1], Catalog := [ex_split]\<rparr>"
  let ?w = "WantOf (ex_part 97 1 0) (Generation 0 1)"
  have "index_Lineage ?ix = [ex_split]" "SatisfyingWith ?ix ?w [] = Some (ex_part 98 2 1)" by code_simp+
  moreover have "splits_rows ex_rows [ex_split, no_claim]"
    using ex_rows_split by (simp add: splits_rows_def no_claim_def claim_Valid_def)
  ultimately show ?thesis
    using satisfied_want_has_its_rows[of ex_rows ?ix "[]" ?w] by (simp add: prefix_names_part_def WantOf_def)
qed



text \<open>C14. Trimming wants never forgets a debt: a want it drops has all of its rows in the live entries
  (counting an acknowledged hole as the record of its own loss), and what stays is sorted by prefix.\<close>

theorem dropped_wants_are_paid:
  assumes "splits_rows rows (index_Lineage (empty_index\<lparr>Entries := live, Catalog := catalog, Wanted := wants\<rparr>))"
    and "w \<in> set wants" "w \<notin> set (TrimWants wants live catalog)" "prefix_names_part live (wPrefix w) (wBlocks w)"
  shows "rows_of rows (wBlocks w) \<subseteq> rows_held rows (\<lambda>_. True) live \<and> sorted (map wPrefix (TrimWants wants live catalog)) \<and>
    set (TrimWants wants live catalog) \<subseteq> set wants"
proof -
  have "sorted (map wPrefix (TrimWants wants live catalog))" "set (TrimWants wants live catalog) \<subseteq> set wants"
    by (simp_all add: TrimWants_def Let_def wan.sort_func_sorted wan.sort_func_set)
  then show ?thesis using TrimWants_rows[OF assms] by blast
qed

theorem dropped_wants_are_paid_witness:
  "rows_of ex_rows (Single (Block 0 1)) \<subseteq> rows_held ex_rows (\<lambda>_. True) [ex_part 98 2 1, ex_part 99 3 1]"
proof -
  let ?live = "[ex_part 98 2 1, ex_part 99 3 1]" and ?w = "WantOf (ex_part 97 1 0) (Generation 0 1)"
  have "TrimWants [?w] ?live [ex_split] = []"
    "index_Lineage (empty_index\<lparr>Entries := ?live, Catalog := [ex_split], Wanted := [?w]\<rparr>) = [ex_split]" by code_simp+
  moreover have "splits_rows ex_rows [ex_split]" using ex_rows_split by (simp add: splits_rows_def)
  ultimately show ?thesis
    using dropped_wants_are_paid[where rows = ex_rows and live = ?live and catalog = "[ex_split]" and wants = "[?w]" and w = ?w] by (simp add: prefix_names_part_def WantOf_def)
qed

text \<open>C22. Trimming holes revokes one only where the lost rows are back: a hole it drops has all of its rows
  in the live data-bearing parts.\<close>

theorem revoked_holes_are_back:
  assumes "splits_rows rows (index_Lineage (empty_index\<lparr>Entries := live @ holes, Catalog := catalog\<rparr>))"
    and "h \<in> set holes" "h \<notin> set (TrimHoles holes live catalog)" "prefix_names_part live (ePrefix h) (eBlocks h)"
    and "\<forall>x \<in> set holes. eHole x"
  shows "rows_of rows (eBlocks h) \<subseteq> rows_held rows Data live"
  by (rule TrimHoles_rows[OF assms])

theorem revoked_holes_are_back_witness:
  "rows_of ex_rows (Single (Block 0 1)) \<subseteq> rows_held ex_rows Data [ex_part 98 2 1, ex_part 99 3 1]"
proof -
  let ?live = "[ex_part 98 2 1, ex_part 99 3 1]" and ?h = "(ex_part 97 1 0)\<lparr>eHole := True\<rparr>"
  have "TrimHoles [?h] ?live [ex_split] = []"
    "index_Lineage (empty_index\<lparr>Entries := ?live @ [?h], Catalog := [ex_split]\<rparr>) = [ex_split]" by code_simp+
  moreover have "splits_rows ex_rows [ex_split]" using ex_rows_split by (simp add: splits_rows_def)
  ultimately show ?thesis
    using revoked_holes_are_back[where rows = ex_rows and live = ?live and catalog = "[ex_split]" and holes = "[?h]" and h = ?h] by (simp add: prefix_names_part_def)
qed

text \<open>C4. Retiring the parts a commit's new parts subsume loses no row: what stays live together with what
  was added carries everything both carried before, where no part holding rows of a completed group's
  members sits below the level that group stands at.\<close>

theorem subsumed_parts_lose_nothing:
  assumes "splits_rows rows l" "levels_ordered l (live @ added)"
    and "\<forall>e \<in> set (live @ added). Data e" "distinct (map ePrefix live)"
  shows "rows_held rows Data (live @ added) \<subseteq>
    rows_held rows Data (filter (\<lambda>e. ePrefix e \<notin> rel_Subsumed l live added) live @ added)"
  by (rule Subsumed_keeps_rows[OF assms])

theorem subsumed_parts_lose_nothing_witness:
  "rel_Subsumed [ex_split] [ex_part 97 1 0] [ex_part 98 2 1, ex_part 99 3 1] = {[97]} \<and>
   rows_held ex_rows Data [ex_part 97 1 0, ex_part 98 2 1, ex_part 99 3 1] \<subseteq>
     rows_held ex_rows Data [ex_part 98 2 1, ex_part 99 3 1]"
proof -
  let ?all = "[ex_part 97 1 0, ex_part 98 2 1, ex_part 99 3 1]"
  have sub: "rel_Subsumed [ex_split] [ex_part 97 1 0] [ex_part 98 2 1, ex_part 99 3 1] = {[97]}"
    and lv: "lineage_level [ex_split] (cGroup ex_split) ?all = (1, True)"
    and d: "fst (descendants [ex_split] (cGroup ex_split)) = Range 0 2 3" by code_simp+
  have "descendant_blocks [ex_split] (blocks (cGroup ex_split)) = {Block 0 2, Block 0 3}"
    using descendants_props(1)[of "[ex_split]" "cGroup ex_split"] d by (simp add: range_two)
  then have "levels_ordered [ex_split] ?all" by (simp add: levels_ordered_def lv Single_props)
  moreover have "splits_rows ex_rows [ex_split]" using ex_rows_split by (simp add: splits_rows_def)
  ultimately show ?thesis
    using subsumed_parts_lose_nothing[of ex_rows "[ex_split]" "[ex_part 97 1 0]" "[ex_part 98 2 1, ex_part 99 3 1]"] sub by simp
qed

text \<open>C23. Repair by members terminates: once the index also holds the blocks reported missing for a want
  whose own blocks were split (or are held), it covers the want, whatever the depth of nested splits.\<close>

theorem fetching_missing_blocks_repairs:
  assumes "\<forall>c \<in> set l. claim_Valid c"
    and "\<forall>c \<in> set l. \<forall>x \<in> blocks (cGroup c). \<forall>y \<in> blocks (cBlocks c). born y < (born x :: nat)"
    and "l = relL (forClaim rel (wClaim w))"
    and "Valid (wBlocks w)" "satisfying (forClaim rel (wClaim w)) w Data = None"
    and "blocks (wBlocks w) \<subseteq> realized_blocks l (held_by Data (Entries (relIx rel))) \<union> (\<Union>c \<in> set l. blocks (cBlocks c))"
    and "held_by Data (Entries (relIx rel)) \<union> set (rel_Missing rel w) \<subseteq> held_by Data es"
  shows "Contains (fst (realize l (fromRuns (covered_runs Data es)))) (wBlocks w)"
  by (rule Missing_completes[OF assms])

theorem fetching_missing_blocks_repairs_witness:
  "let rel = index_Relations (empty_index\<lparr>Entries := [ex_part 98 2 1], Catalog := [ex_split]\<rparr>) [];
       w = WantOf (ex_part 97 1 0) (Generation 0 1)
   in rel_Missing rel w = [Block 0 3] \<and>
      Contains (fst (realize [ex_split] (fromRuns (covered_runs Data [ex_part 98 2 1, ex_part 99 3 1])))) (wBlocks w)"
proof -
  let ?rel = "index_Relations (empty_index\<lparr>Entries := [ex_part 98 2 1], Catalog := [ex_split]\<rparr>) []"
  let ?w = "WantOf (ex_part 97 1 0) (Generation 0 1)"
  have m: "rel_Missing ?rel ?w = [Block 0 3]" and l: "relL (forClaim ?rel (wClaim ?w)) = [ex_split]"
    and s: "satisfying (forClaim ?rel (wClaim ?w)) ?w Data = None" by code_simp+
  have v: "\<forall>c \<in> set [ex_split]. claim_Valid c" by (simp add: ex_split_def claim_Valid_def Single_props Range_props)
  have b: "\<forall>c \<in> set [ex_split]. \<forall>x \<in> blocks (cGroup c). \<forall>y \<in> blocks (cBlocks c).
      (if y = Block 0 1 then 0 else 1) < (if x = Block 0 1 then 0 else (1 :: nat))"
    by (simp add: ex_split_def range_two Single_props)
  have w: "wBlocks ?w = Single (Block 0 1)" "blocks (wBlocks ?w) = {Block 0 1}" by (simp_all add: WantOf_def Single_props)
  have "blocks (wBlocks ?w) \<subseteq> realized_blocks [ex_split] (held_by Data (Entries (relIx ?rel))) \<union> (\<Union>c \<in> set [ex_split]. blocks (cBlocks c))"
    by (simp add: w(2) ex_split_def Single_props)
  moreover have "held_by Data (Entries (relIx ?rel)) \<union> set (rel_Missing ?rel ?w) \<subseteq> held_by Data [ex_part 98 2 1, ex_part 99 3 1]"
    unfolding m by (auto simp: held_by_def Single_props)
  ultimately show ?thesis
    using fetching_missing_blocks_repairs[OF v b l[symmetric] _ s] m w(1) by (simp add: Single_props Let_def)
qed

end
