(* ===== verification/Plan.thy ===== *)
theory Plan
  imports Trims
begin

text \<open>
  The identities new parts get (\<^verbatim>\<open>backend/bucketindex/plan.go\<close> and \<^verbatim>\<open>Index.NextBlock\<close> of \<^verbatim>\<open>block.go\<close>): a
  flush asks for a fresh block, a merge with one output inherits the blocks of its inputs, a merge
  that splits asks for a run of fresh blocks and carries the inputs' blocks as a joint claim.

  A \<^verbatim>\<open>*SplitGroup\<close> is compared by address in the allocator's map, so a plan carries the address
  together with the (immutable) group it points to. The number of a merge's outputs is the length
  of a slice, hence a natural number.
\<close>

subsection \<open>Plans\<close>

record SplitGroup =
  sgBlocks :: Interval
  sgN :: nat

record Plan =
  pBlocks :: Interval
  pClaim :: Claim
  pGroup :: "(nat \<times> SplitGroup) option"
  pLevel :: u32

definition FlushPlan :: Plan where
  "FlushPlan = \<lparr>pBlocks = unset, pClaim = no_claim, pGroup = None, pLevel = 0\<rparr>"

text \<open>One pass over the claims: fold in the complete ones, keep the rest.\<close>

fun realize_pass :: "Interval \<Rightarrow> Claim list \<Rightarrow> Interval \<times> Claim list" where
  "realize_pass held [] = (held, [])"
| "realize_pass held (c # cs) =
     (if Contains held (cGroup c) then realize_pass (Interval_Union held (cBlocks c)) cs
      else case realize_pass held cs of (h, rest) \<Rightarrow> (h, c # rest))"

lemma realize_pass_length: "length (snd (realize_pass held cs)) \<le> length cs"
  by (induction held cs rule: realize_pass.induct) (auto split: prod.splits)

function realizeClaims :: "Interval \<Rightarrow> Claim list \<Rightarrow> Interval \<times> Claim list" where
  "realizeClaims held claims =
     (if claims = [] then (held, [])
      else case realize_pass held claims of (h, rest) \<Rightarrow>
        if length rest = length claims then (h, claims) else realizeClaims h rest)"
  by auto
termination
  by (relation "measure (length \<circ> snd)")
    (simp, metis comp_apply in_measure nat_less_le prod.sel(2) realize_pass_length)

declare realizeClaims.simps [simp del]

definition widestClaim :: "Claim list \<Rightarrow> Claim" where
  "widestClaim claims = foldl (\<lambda>best c. if Len (cBlocks c) > Len (cBlocks best) then c else best) no_claim claims"

fun merge_inputs :: "u32 \<Rightarrow> Interval \<Rightarrow> Claim list \<Rightarrow> Entry list \<Rightarrow> u32 \<times> Interval \<times> Claim list" where
  "merge_inputs level uni claims [] = (level, uni, claims)"
| "merge_inputs level uni claims (e # es) =
     merge_inputs (max level (eLevel e + 1)) (Interval_Union uni (eBlocks e))
       (if claim_Valid (eClaim e) then claims @ [eClaim e] else claims) es"

text \<open>\<open>ptr\<close> is the address \<^verbatim>\<open>PlanMerge\<close> allocates for the group of a split.\<close>

definition PlanMerge :: "nat \<Rightarrow> Entry list \<Rightarrow> nat \<Rightarrow> Plan list" where
  "PlanMerge ptr src n =
     (case merge_inputs 0 unset [] src of (level, uni, claims) \<Rightarrow>
      case realizeClaims uni claims of (uni', claims') \<Rightarrow>
        if n = 1 then [\<lparr>pBlocks = uni', pClaim = widestClaim claims', pGroup = None, pLevel = level\<rparr>]
        else replicate n
          \<lparr>pBlocks = unset, pClaim = no_claim, pGroup = Some (ptr, \<lparr>sgBlocks = uni', sgN = n\<rparr>), pLevel = level\<rparr>)"

subsection \<open>Allocation\<close>

definition bump :: "Interval \<Rightarrow> Block \<Rightarrow> Block" where
  "bump iv hi = (if Valid iv then MaxBlock hi (iMax iv) else hi)"

definition NextBlock :: "Index \<Rightarrow> u64 \<Rightarrow> Block" where
  "NextBlock ix term =
     (let hi = fold (\<lambda>e t. bump (cGroup (eClaim e)) (bump (eBlocks e) t)) (Entries ix) (AllocatedBlocks ix);
          hi' = fold (\<lambda>w t. bump (cGroup (wClaim w)) (bump (wBlocks w) t)) (Wanted ix) hi
      in if bTerm hi' < term then Block term 1 else Block (bTerm hi') (bN hi' + 1))"

record groupRun =
  grRun :: Interval
  grNext :: Block

record Allocator =
  aNext :: Block
  aGroups :: "nat \<rightharpoonup> groupRun"

definition NewAllocator :: "Block \<Rightarrow> Allocator" where
  "NewAllocator next' = \<lparr>aNext = next', aGroups = Map.empty\<rparr>"

definition alloc_Term :: "Allocator \<Rightarrow> u64" where
  "alloc_Term a = bTerm (aNext a)"

definition Mark :: "Allocator \<Rightarrow> Block" where
  "Mark a = Block (bTerm (aNext a)) (bN (aNext a) - 1)"

definition alloc_take :: "Allocator \<Rightarrow> u64 \<Rightarrow> Allocator \<times> Block" where
  "alloc_take a n = (a\<lparr>aNext := Block (bTerm (aNext a)) (bN (aNext a) + n)\<rparr>, aNext a)"

definition group_run :: "Allocator \<Rightarrow> nat \<Rightarrow> SplitGroup \<Rightarrow> Allocator \<times> groupRun" where
  "group_run a ptr sg =
     (case aGroups a ptr of
        Some g \<Rightarrow> (a, g)
      | None \<Rightarrow>
          (case alloc_take a (of_nat (sgN sg)) of (a1, lo) \<Rightarrow>
             let g = \<lparr>grRun = \<lparr>iMin = lo, iMax = Block (bTerm lo) (bN lo + of_nat (sgN sg) - 1), iGaps = []\<rparr>, grNext = lo\<rparr>
             in (a1\<lparr>aGroups := (aGroups a1)(ptr \<mapsto> g)\<rparr>, g)))"

definition Assign :: "Allocator \<Rightarrow> Plan \<Rightarrow> Allocator \<times> Interval \<times> Claim" where
  "Assign a p =
     (if Valid (pBlocks p) then (a, pBlocks p, pClaim p)
      else case pGroup p of
        None \<Rightarrow> (case alloc_take a 1 of (a1, b) \<Rightarrow> (a1, Single b, pClaim p))
      | Some (ptr, sg) \<Rightarrow>
          (case group_run a ptr sg of (a1, g) \<Rightarrow>
             let b = grNext g;
                 a2 = a1\<lparr>aGroups := (aGroups a1)(ptr \<mapsto> g\<lparr>grNext := Block (bTerm b) (bN b + 1)\<rparr>)\<rparr>;
                 claim = \<lparr>cBlocks = sgBlocks sg, cGroup = grRun g\<rparr>
             in if \<not> claim_Valid claim then (a2, Single b, no_claim) else (a2, Single b, claim)))"

subsection \<open>Claims realized by a merge\<close>

lemma Contains_sub: "Valid w \<Longrightarrow> blocks w \<subseteq> blocks iv \<Longrightarrow> Contains iv w"
  using blocks_empty_iff[of w] blocks_empty_iff[of iv] by (auto simp: Contains_iff)

lemma Contains_up: "Contains a w \<Longrightarrow> blocks a \<subseteq> blocks b \<Longrightarrow> Contains b w"
  by (rule Contains_sub) (auto simp: Contains_iff)

lemma realize_pass_props:
  assumes "\<forall>c \<in> set cs. claim_Valid c" "realize_pass held cs = (h, rest)"
  shows "blocks held \<subseteq> blocks h" "blocks h \<subseteq> realized_blocks cs (blocks held)" "set rest \<subseteq> set cs"
    "\<forall>c \<in> set cs - set rest. Contains h (cGroup c) \<and> blocks (cBlocks c) \<subseteq> blocks h"
    "length rest = length cs \<Longrightarrow> h = held \<and> (\<forall>c \<in> set cs. \<not> Contains held (cGroup c))"
proof -
  have "blocks held \<subseteq> blocks h \<and> blocks h \<subseteq> realized_blocks cs (blocks held) \<and> set rest \<subseteq> set cs \<and>
    (\<forall>c \<in> set cs - set rest. Contains h (cGroup c) \<and> blocks (cBlocks c) \<subseteq> blocks h) \<and>
    (length rest = length cs \<longrightarrow> h = held \<and> (\<forall>c \<in> set cs. \<not> Contains held (cGroup c)))"
    using assms
  proof (induction held cs arbitrary: rest rule: realize_pass.induct)
    case (1 held)
    then show ?case by (auto intro: realized_base)
  next
    case (2 held c cs)
    show ?case
    proof (cases "Contains held (cGroup c)")
      case True
      let ?held = "Interval_Union held (cBlocks c)"
      have r: "realize_pass ?held cs = (h, rest)" using 2(4) True by simp
      note IH = 2(1)[OF True _ r]
      have sub: "blocks ?held \<subseteq> realized_blocks (c # cs) (blocks held)"
        using True realized_steps[of c "c # cs" "blocks held"] by (auto simp: Union_correct Contains_iff intro: realized_base)
      have "realized_blocks cs (blocks ?held) \<subseteq> realized_blocks (c # cs) (realized_blocks (c # cs) (blocks held))"
        by (rule realized_mono[OF _ sub]) auto
      then have real: "blocks h \<subseteq> realized_blocks (c # cs) (blocks held)"
        using IH 2(3) by (auto simp: realized_idem)
      have len: "length rest < length (c # cs)" using realize_pass_length[of ?held cs] r by simp
      have "Contains h (cGroup c)" by (rule Contains_up[OF True]) (use IH 2(3) in \<open>auto simp: Union_correct\<close>)
      then show ?thesis using real IH 2(3) len by (auto simp: Union_correct)
    next
      case False
      then obtain rest' where r: "realize_pass held cs = (h, rest')" "rest = c # rest'"
        using 2(4) by (auto split: prod.splits)
      note IH = 2(2)[OF False _ r(1)]
      have "realized_blocks cs (blocks held) \<subseteq> realized_blocks (c # cs) (blocks held)"
        by (rule realized_mono) auto
      then show ?thesis using IH 2(3) r(2) False by auto
    qed
  qed
  then show "blocks held \<subseteq> blocks h" "blocks h \<subseteq> realized_blocks cs (blocks held)" "set rest \<subseteq> set cs"
    "\<forall>c \<in> set cs - set rest. Contains h (cGroup c) \<and> blocks (cBlocks c) \<subseteq> blocks h"
    "length rest = length cs \<Longrightarrow> h = held \<and> (\<forall>c \<in> set cs. \<not> Contains held (cGroup c))" by blast+
qed


lemma realizeClaims_props:
  assumes "\<forall>c \<in> set cs. claim_Valid c" "realizeClaims held cs = (h, rest)"
  shows "blocks h = realized_blocks cs (blocks held)" "set rest = {c \<in> set cs. \<not> Contains h (cGroup c)}"
proof -
  have "blocks held \<subseteq> blocks h \<and> blocks h \<subseteq> realized_blocks cs (blocks held) \<and>
    (\<forall>c \<in> set cs. Contains h (cGroup c) \<longrightarrow> blocks (cBlocks c) \<subseteq> blocks h) \<and>
    set rest = {c \<in> set cs. \<not> Contains h (cGroup c)}"
    using assms
  proof (induction held cs rule: realizeClaims.induct)
    case (1 held cs)
    obtain h1 r1 where p: "realize_pass held cs = (h1, r1)" by (rule prod.exhaust)
    note P = realize_pass_props[OF 1(2) p]
    consider (empty) "cs = []" | (stop) "cs \<noteq> []" "length r1 = length cs" | (again) "cs \<noteq> []" "length r1 \<noteq> length cs"
      by blast
    then show ?case
    proof cases
      case empty
      then show ?thesis using 1(3) by (auto simp: realizeClaims.simps intro: realized_base)
    next
      case stop
      then show ?thesis using 1(3) P p by (auto simp: realizeClaims.simps[of held cs])
    next
      case again
      have r: "realizeClaims h1 r1 = (h, rest)" using 1(3) again p by (simp add: realizeClaims.simps[of held cs])
      have IH: "blocks h1 \<subseteq> blocks h \<and> blocks h \<subseteq> realized_blocks r1 (blocks h1) \<and>
        (\<forall>c \<in> set r1. Contains h (cGroup c) \<longrightarrow> blocks (cBlocks c) \<subseteq> blocks h) \<and>
        set rest = {c \<in> set r1. \<not> Contains h (cGroup c)}"
        by (rule 1(1)[OF again(1) p[symmetric] again(2) _ r]) (use 1(2) P(3) in blast)
      have "realized_blocks r1 (blocks h1) \<subseteq> realized_blocks cs (realized_blocks cs (blocks held))"
        by (rule realized_mono[OF P(3) P(2)])
      then have "blocks h \<subseteq> realized_blocks cs (blocks held)" using IH by (auto simp: realized_idem)
      moreover have "Contains h (cGroup c) \<and> blocks (cBlocks c) \<subseteq> blocks h" if "c \<in> set cs - set r1" for c
        using P(4) that IH Contains_up[of h1 "cGroup c" h] by blast
      ultimately show ?thesis using IH P(1,3) by blast
    qed
  qed
  note R = this
  have "b \<in> blocks h" if "b \<in> realized_blocks cs (blocks held)" for b
    using that
  proof (induction rule: realized_blocks.induct)
    case (realized_step c b)
    then have "Contains h (cGroup c)" by (intro Contains_sub) auto
    then show ?case using R realized_step by blast
  qed (use R in blast)
  then show "blocks h = realized_blocks cs (blocks held)" "set rest = {c \<in> set cs. \<not> Contains h (cGroup c)}"
    using R by blast+
qed


lemma merge_inputs_props:
  assumes "merge_inputs level uni claims src = (level', uni', claims')"
  shows "blocks uni' = blocks uni \<union> (\<Union>e \<in> set src. blocks (eBlocks e))"
    "set claims' = set claims \<union> {c \<in> eClaim ` set src. claim_Valid c}"
    "level \<le> level' \<and> (\<forall>e \<in> set src. eLevel e + 1 \<le> level')"
proof -
  have "blocks uni' = blocks uni \<union> (\<Union>e \<in> set src. blocks (eBlocks e)) \<and>
    set claims' = set claims \<union> {c \<in> eClaim ` set src. claim_Valid c} \<and>
    level \<le> level' \<and> (\<forall>e \<in> set src. eLevel e + 1 \<le> level')"
    using assms
  proof (induction level uni claims src rule: merge_inputs.induct)
    case (2 level uni claims e es)
    from 2(1) 2(2) show ?case by (auto simp: Union_correct)
  qed auto
  then show "blocks uni' = blocks uni \<union> (\<Union>e \<in> set src. blocks (eBlocks e))"
    "set claims' = set claims \<union> {c \<in> eClaim ` set src. claim_Valid c}"
    "level \<le> level' \<and> (\<forall>e \<in> set src. eLevel e + 1 \<le> level')" by blast+
qed

lemma widestClaim_mem: "widestClaim cs = no_claim \<or> widestClaim cs \<in> set cs"
proof -
  have "foldl (\<lambda>best c. if Len (cBlocks c) > Len (cBlocks best) then c else best) b cs \<in> insert b (set cs)" for b
    by (induction cs arbitrary: b) auto
  then show ?thesis by (auto simp: widestClaim_def)
qed

text \<open>The blocks a plan inherits: the ones it names, or the ones its group will claim jointly.\<close>

definition plan_blocks :: "Plan \<Rightarrow> Interval" where
  "plan_blocks p = (case pGroup p of None \<Rightarrow> pBlocks p | Some (_, sg) \<Rightarrow> sgBlocks sg)"

lemma PlanMerge_props:
  assumes "p \<in> set (PlanMerge ptr src n)"
  shows "blocks (plan_blocks p) = realized_blocks (filter claim_Valid (map eClaim src)) (\<Union>e \<in> set src. blocks (eBlocks e))"
    "\<forall>e \<in> set src. eLevel e \<noteq> - 1 \<longrightarrow> eLevel e < pLevel p"
    "pClaim p = no_claim \<or> pClaim p \<in> eClaim ` set src \<and> \<not> Contains (plan_blocks p) (cGroup (pClaim p))"
    "pGroup p = (if n = 1 then None else Some (ptr, \<lparr>sgBlocks = plan_blocks p, sgN = n\<rparr>))" "n \<noteq> 1 \<longrightarrow> pBlocks p = unset"
proof -
  obtain level uni claims where m: "merge_inputs 0 unset [] src = (level, uni, claims)" by (rule prod_cases3)
  obtain uni' claims' where r: "realizeClaims uni claims = (uni', claims')" by (rule prod.exhaust)
  note M = merge_inputs_props[OF m]
  have cs: "set claims = set (filter claim_Valid (map eClaim src))" using M(2) by auto
  then have "\<forall>c \<in> set claims. claim_Valid c" by simp
  note R = realizeClaims_props[OF this r]
  have "realized_blocks claims S = realized_blocks (filter claim_Valid (map eClaim src)) S" for S
    using realized_mono[of claims "filter claim_Valid (map eClaim src)" S S]
      realized_mono[of "filter claim_Valid (map eClaim src)" claims S S] cs by blast
  then have B: "blocks uni' = realized_blocks (filter claim_Valid (map eClaim src)) (\<Union>e \<in> set src. blocks (eBlocks e))"
    using R(1) M(1) by simp
  have L: "eLevel e < level" if "e \<in> set src" "eLevel e \<noteq> - 1" for e
    using M(3) that unat_plus_one[of "eLevel e"] by (force simp: word_less_nat_alt word_le_nat_alt)
  have W: "widestClaim claims' = no_claim \<or> widestClaim claims' \<in> eClaim ` set src \<and> \<not> Contains uni' (cGroup (widestClaim claims'))"
    using widestClaim_mem[of claims'] R(2) M(2) by auto
  have P: "p = \<lparr>pBlocks = uni', pClaim = widestClaim claims', pGroup = None, pLevel = level\<rparr> \<and> n = 1 \<or>
    p = \<lparr>pBlocks = unset, pClaim = no_claim, pGroup = Some (ptr, \<lparr>sgBlocks = uni', sgN = n\<rparr>), pLevel = level\<rparr> \<and> n \<noteq> 1"
    using assms by (auto simp: PlanMerge_def m r split: if_splits)
  then show "blocks (plan_blocks p) = realized_blocks (filter claim_Valid (map eClaim src)) (\<Union>e \<in> set src. blocks (eBlocks e))"
    "\<forall>e \<in> set src. eLevel e \<noteq> - 1 \<longrightarrow> eLevel e < pLevel p"
    "pClaim p = no_claim \<or> pClaim p \<in> eClaim ` set src \<and> \<not> Contains (plan_blocks p) (cGroup (pClaim p))"
    "pGroup p = (if n = 1 then None else Some (ptr, \<lparr>sgBlocks = plan_blocks p, sgN = n\<rparr>))" "n \<noteq> 1 \<longrightarrow> pBlocks p = unset"
    using B L W by (auto simp: plan_blocks_def)
qed

subsection \<open>Fresh blocks\<close>

text \<open>The loop of a commit over the parts that await an identity.\<close>

fun assign_all :: "Allocator \<Rightarrow> Plan list \<Rightarrow> Allocator \<times> (Interval \<times> Claim) list" where
  "assign_all a [] = (a, [])"
| "assign_all a (p # ps) =
     (case Assign a p of (a1, ident) \<Rightarrow> case assign_all a1 ps of (a2, ids) \<Rightarrow> (a2, ident # ids))"

definition run_at :: "u64 \<Rightarrow> nat \<Rightarrow> nat \<Rightarrow> Interval" where
  "run_at t lo n = \<lparr>iMin = Block t (of_nat lo), iMax = Block t (of_nat lo + of_nat n - 1), iGaps = []\<rparr>"

text \<open>
  What an allocator has promised: \<open>used\<close> are the numbers handed out, \<open>base\<close> and \<open>pos\<close> the first
  number of each group's run and the next one to hand out of it.
\<close>

definition top_n :: "Allocator \<Rightarrow> nat" where
  "top_n a = unat (bN (aNext a))"

definition alloc_inv :: "u64 \<Rightarrow> nat \<Rightarrow> (nat \<Rightarrow> SplitGroup) \<Rightarrow> (nat \<Rightarrow> nat) \<Rightarrow> (nat \<Rightarrow> nat) \<Rightarrow> nat set \<Rightarrow> Allocator \<Rightarrow> bool" where
  "alloc_inv t n0 G base pos used a \<longleftrightarrow>
     bTerm (aNext a) = t \<and> n0 \<le> top_n a \<and> used \<subseteq> {n0..<top_n a} \<and>
     (\<forall>ptr g. aGroups a ptr = Some g \<longrightarrow> n0 \<le> base ptr \<and> base ptr \<le> pos ptr \<and> base ptr + sgN (G ptr) \<le> top_n a \<and>
        g = \<lparr>grRun = run_at t (base ptr) (sgN (G ptr)), grNext = Block t (of_nat (pos ptr))\<rparr> \<and>
        {pos ptr..<base ptr + sgN (G ptr)} \<inter> used = {}) \<and>
     (\<forall>p \<in> dom (aGroups a). \<forall>q \<in> dom (aGroups a). p \<noteq> q \<longrightarrow>
        {pos p..<base p + sgN (G p)} \<inter> {pos q..<base q + sgN (G q)} = {})"

lemma unat_of_nat64: "n < 2 ^ 64 \<Longrightarrow> unat (of_nat n :: u64) = n"
  by (simp add: unat_of_nat take_bit_nat_eq_self_iff)

lemma top_n_take:
  assumes "top_n a + n < 2 ^ 64"
  shows "top_n (fst (alloc_take a (of_nat n))) = top_n a + n"
proof -
  have "unat (of_nat n :: u64) = n" using assms by (simp add: unat_of_nat64)
  then show ?thesis using assms by (simp add: top_n_def alloc_take_def unat_plus_if')
qed

lemma assign_single:
  assumes "alloc_inv t n0 G base pos used a" "top_n a + 1 < 2 ^ 64" "\<not> Valid (pBlocks p)" "pGroup p = None"
  obtains a' where "Assign a p = (a', Single (Block t (of_nat (top_n a))), pClaim p)" "top_n a \<notin> used" "aGroups a' = aGroups a"
    "alloc_inv t n0 G base pos (insert (top_n a) used) a'" "top_n a' = top_n a + 1"
proof -
  define a' where "a' = fst (alloc_take a 1)"
  have t: "top_n a' = top_n a + 1" using top_n_take[of a 1] assms(2) by (simp add: a'_def)
  have b: "aNext a = Block t (of_nat (top_n a))" using assms(1) by (auto simp: alloc_inv_def top_n_def intro: Block.expand)
  have "Assign a p = (a', Single (aNext a), pClaim p)" using assms(3,4) by (simp add: Assign_def alloc_take_def a'_def)
  moreover have "top_n a \<notin> used" using assms(1) by (auto simp: alloc_inv_def)
  moreover have g: "aGroups a' = aGroups a" by (simp add: a'_def alloc_take_def)
  moreover have "bTerm (aNext a') = t" using assms(1) by (simp add: a'_def alloc_take_def alloc_inv_def)
  then have "alloc_inv t n0 G base pos (insert (top_n a) used) a'"
    using assms(1) t g by (fastforce simp: alloc_inv_def)
  ultimately show ?thesis using that t b by simp
qed


definition extra_need :: "Allocator \<Rightarrow> (nat \<Rightarrow> SplitGroup) \<Rightarrow> nat \<Rightarrow> nat" where
  "extra_need a G ptr = (if ptr \<in> dom (aGroups a) then 0 else sgN (G ptr))"

lemma group_run_inv:
  assumes inv: "alloc_inv t n0 G base pos used a" and room: "top_n a + extra_need a G ptr < 2 ^ 64"
    and new: "base' = (if ptr \<in> dom (aGroups a) then base else base(ptr := top_n a))"
      "pos' = (if ptr \<in> dom (aGroups a) then pos else pos(ptr := top_n a))"
  obtains a1 g where "group_run a ptr (G ptr) = (a1, g)" "aGroups a1 ptr = Some g" "alloc_inv t n0 G base' pos' used a1"
    "dom (aGroups a1) = insert ptr (dom (aGroups a))" "top_n a1 = top_n a + extra_need a G ptr"
proof (cases "aGroups a ptr")
  case (Some g)
  then have "base' = base" "pos' = pos" "ptr \<in> dom (aGroups a)" "extra_need a G ptr = 0"
    using new by (auto simp: extra_need_def)
  then show ?thesis using that[of a g] Some inv by (simp add: group_run_def insert_absorb)
next
  case None
  let ?n = "sgN (G ptr)"
  define g where "g = \<lparr>grRun = run_at t (top_n a) ?n, grNext = Block t (of_nat (top_n a))\<rparr>"
  define a1 where "a1 = (fst (alloc_take a (of_nat ?n)))\<lparr>aGroups := (aGroups a)(ptr \<mapsto> g)\<rparr>"
  have e: "extra_need a G ptr = ?n" "base' = base(ptr := top_n a)" "pos' = pos(ptr := top_n a)"
    using None new by (auto simp: extra_need_def)
  have t: "top_n a1 = top_n a + ?n" using top_n_take[of a ?n] room e(1) by (simp add: a1_def top_n_def)
  have b: "aNext a = Block t (of_nat (top_n a))" using inv by (auto simp: alloc_inv_def top_n_def intro: Block.expand)
  have "group_run a ptr (G ptr) = (a1, g)"
    using b by (simp add: group_run_def None alloc_take_def a1_def g_def run_at_def Let_def)
  moreover have "bTerm (aNext a1) = t" using b by (simp add: a1_def alloc_take_def)
  moreover have m: "used \<subseteq> {n0..<top_n a}" "n0 \<le> top_n a"
    "\<And>q h. aGroups a q = Some h \<Longrightarrow> n0 \<le> base q \<and> base q \<le> pos q \<and> base q + sgN (G q) \<le> top_n a \<and>
       h = \<lparr>grRun = run_at t (base q) (sgN (G q)), grNext = Block t (of_nat (pos q))\<rparr> \<and> {pos q..<base q + sgN (G q)} \<inter> used = {}"
    "\<And>q r. q \<in> dom (aGroups a) \<Longrightarrow> r \<in> dom (aGroups a) \<Longrightarrow> q \<noteq> r \<Longrightarrow>
       {pos q..<base q + sgN (G q)} \<inter> {pos r..<base r + sgN (G r)} = {}"
    using inv by (auto simp: alloc_inv_def)
  have a1g: "aGroups a1 = (aGroups a)(ptr \<mapsto> g)" by (simp add: a1_def)
  have old: "{pos q..<base q + sgN (G q)} \<inter> {top_n a..<top_n a + ?n} = {}" if "q \<in> dom (aGroups a)" for q
    using that m(3) by fastforce
  have "alloc_inv t n0 G base' pos' used a1"
    unfolding alloc_inv_def
  proof (intro conjI allI impI ballI)
    fix q h assume q: "aGroups a1 q = Some h"
    show "n0 \<le> base' q" "base' q \<le> pos' q" "base' q + sgN (G q) \<le> top_n a1"
      "h = \<lparr>grRun = run_at t (base' q) (sgN (G q)), grNext = Block t (of_nat (pos' q))\<rparr>"
      "{pos' q..<base' q + sgN (G q)} \<inter> used = {}"
      using q m(1,2) m(3)[of q h] t by (auto simp: a1g e g_def split: if_splits)
  next
    fix q r assume "q \<in> dom (aGroups a1)" "r \<in> dom (aGroups a1)" "q \<noteq> r"
    then show "{pos' q..<base' q + sgN (G q)} \<inter> {pos' r..<base' r + sgN (G r)} = {}"
      using m(4)[of q r] old[of q] old[of r] None by (auto simp: a1g e domIff split: if_splits)
  qed (use m t \<open>bTerm (aNext a1) = t\<close> in auto)
  ultimately show ?thesis using that[of a1 g] t e(1) a1g by simp
qed

lemma assign_group:
  assumes inv: "alloc_inv t n0 G base pos used a" and room: "top_n a + extra_need a G ptr < 2 ^ 64"
    and new: "base' = (if ptr \<in> dom (aGroups a) then base else base(ptr := top_n a))"
      "pos' = (if ptr \<in> dom (aGroups a) then pos else pos(ptr := top_n a))"
    and p: "\<not> Valid (pBlocks p)" "pGroup p = Some (ptr, G ptr)" and left: "pos' ptr < base' ptr + sgN (G ptr)"
  obtains a' where "Assign a p = (a', Single (Block t (of_nat (pos' ptr))),
      (let c = \<lparr>cBlocks = sgBlocks (G ptr), cGroup = run_at t (base' ptr) (sgN (G ptr))\<rparr> in if claim_Valid c then c else no_claim))"
    "pos' ptr \<notin> used" "alloc_inv t n0 G base' (pos'(ptr := pos' ptr + 1)) (insert (pos' ptr) used) a'"
    "dom (aGroups a') = insert ptr (dom (aGroups a))" "top_n a' = top_n a + extra_need a G ptr"
proof -
  obtain a1 g where r: "group_run a ptr (G ptr) = (a1, g)" "aGroups a1 ptr = Some g" "alloc_inv t n0 G base' pos' used a1"
    "dom (aGroups a1) = insert ptr (dom (aGroups a))" "top_n a1 = top_n a + extra_need a G ptr"
    using group_run_inv[OF inv room new] by blast
  have g: "g = \<lparr>grRun = run_at t (base' ptr) (sgN (G ptr)), grNext = Block t (of_nat (pos' ptr))\<rparr>"
    and P: "n0 \<le> base' ptr" "base' ptr \<le> pos' ptr" "base' ptr + sgN (G ptr) \<le> top_n a1"
      "{pos' ptr..<base' ptr + sgN (G ptr)} \<inter> used = {}"
    using r(2,3) unfolding alloc_inv_def by blast+
  define a' where "a' = a1\<lparr>aGroups := (aGroups a1)(ptr \<mapsto> g\<lparr>grNext := Block t (of_nat (pos' ptr + 1))\<rparr>)\<rparr>"
  have "Assign a p = (a', Single (Block t (of_nat (pos' ptr))),
      (let c = \<lparr>cBlocks = sgBlocks (G ptr), cGroup = run_at t (base' ptr) (sgN (G ptr))\<rparr> in if claim_Valid c then c else no_claim))"
    using p r(1) g by (simp add: Assign_def a'_def Let_def add.commute)
  moreover have "pos' ptr \<notin> used" using P(4) left by auto
  moreover have ag: "aGroups a' = (aGroups a1)(ptr \<mapsto> g\<lparr>grNext := Block t (of_nat (pos' ptr + 1))\<rparr>)" "top_n a' = top_n a1" "aNext a' = aNext a1"
    by (simp_all add: a'_def top_n_def)
  have D: "{pos' q..<base' q + sgN (G q)} \<inter> {pos' ptr..<base' ptr + sgN (G ptr)} = {}" if "q \<in> dom (aGroups a1)" "q \<noteq> ptr" for q
    using r(2,3) that unfolding alloc_inv_def by blast
  have "alloc_inv t n0 G base' (pos'(ptr := pos' ptr + 1)) (insert (pos' ptr) used) a'"
    unfolding alloc_inv_def
  proof (intro conjI allI impI ballI)
    fix q h assume q: "aGroups a' q = Some h"
    then have old: "q \<noteq> ptr \<Longrightarrow> n0 \<le> base' q \<and> base' q \<le> pos' q \<and> base' q + sgN (G q) \<le> top_n a1 \<and>
       h = \<lparr>grRun = run_at t (base' q) (sgN (G q)), grNext = Block t (of_nat (pos' q))\<rparr> \<and> {pos' q..<base' q + sgN (G q)} \<inter> used = {}"
      using r(3) by (simp add: ag alloc_inv_def)
    have nq: "q \<noteq> ptr \<Longrightarrow> pos' ptr \<notin> {pos' q..<base' q + sgN (G q)}" using D[of q] q left by (auto simp: ag domIff)
    show "n0 \<le> base' q" "base' q \<le> (pos'(ptr := pos' ptr + 1)) q" "base' q + sgN (G q) \<le> top_n a'"
      "h = \<lparr>grRun = run_at t (base' q) (sgN (G q)), grNext = Block t (of_nat ((pos'(ptr := pos' ptr + 1)) q))\<rparr>"
      "{(pos'(ptr := pos' ptr + 1)) q..<base' q + sgN (G q)} \<inter> insert (pos' ptr) used = {}"
      using q P old nq g by (auto simp: ag disjoint_iff split: if_splits)
  next
    fix q u assume "q \<in> dom (aGroups a')" "u \<in> dom (aGroups a')" "q \<noteq> u"
    moreover have "q \<in> dom (aGroups a1) \<Longrightarrow> u \<in> dom (aGroups a1) \<Longrightarrow> q \<noteq> u \<Longrightarrow>
      {pos' q..<base' q + sgN (G q)} \<inter> {pos' u..<base' u + sgN (G u)} = {}"
      using r(3) unfolding alloc_inv_def by blast
    ultimately show "{(pos'(ptr := pos' ptr + 1)) q..<base' q + sgN (G q)} \<inter> {(pos'(ptr := pos' ptr + 1)) u..<base' u + sgN (G u)} = {}"
      using r(2) by (auto simp: ag disjoint_iff domIff split: if_splits)
  qed (use r(3) P left in \<open>auto simp: ag alloc_inv_def\<close>)
  ultimately show ?thesis using that r(2,4,5) ag by simp
qed


text \<open>A plan that takes a fresh block, the fragments a list of plans has of a group, and how many
  numbers the list takes.\<close>

definition fresh_plan :: "Plan \<Rightarrow> bool" where
  "fresh_plan p \<longleftrightarrow> \<not> Valid (pBlocks p)"

definition fragments :: "nat \<Rightarrow> Plan list \<Rightarrow> nat" where
  "fragments ptr ps = length (filter (\<lambda>p. fresh_plan p \<and> map_option fst (pGroup p) = Some ptr) ps)"

fun need :: "nat set \<Rightarrow> Plan list \<Rightarrow> nat" where
  "need seen [] = 0"
| "need seen (p # ps) =
     (if \<not> fresh_plan p then need seen ps
      else case pGroup p of
        None \<Rightarrow> 1 + need seen ps
      | Some (ptr, sg) \<Rightarrow> (if ptr \<in> seen then 0 else sgN sg) + need (insert ptr seen) ps)"

definition fresh_blocks :: "Plan list \<Rightarrow> (Interval \<times> Claim) list \<Rightarrow> Block list" where
  "fresh_blocks ps ids = map (\<lambda>(p, iv, c). iMin iv) (filter (\<lambda>(p, iv, c). fresh_plan p) (zip ps ids))"

lemma fragments_Cons:
  "fragments ptr (p # ps) = (if fresh_plan p \<and> (\<exists>sg. pGroup p = Some (ptr, sg)) then 1 else 0) + fragments ptr ps"
  by (auto simp: fragments_def)

lemma fresh_blocks_Cons:
  "fresh_blocks (p # ps) ((iv, c) # ids) = (if fresh_plan p then [iMin iv] else []) @ fresh_blocks ps ids"
  by (simp add: fresh_blocks_def)

definition joint_claim :: "u64 \<Rightarrow> nat \<Rightarrow> SplitGroup \<Rightarrow> Claim" where
  "joint_claim t lo sg =
     (let c = \<lparr>cBlocks = sgBlocks sg, cGroup = run_at t lo (sgN sg)\<rparr> in if claim_Valid c then c else no_claim)"

definition assigned_ok :: "u64 \<Rightarrow> (nat \<Rightarrow> SplitGroup) \<Rightarrow> (nat \<Rightarrow> nat) \<Rightarrow> Plan \<Rightarrow> Interval \<Rightarrow> Claim \<Rightarrow> bool" where
  "assigned_ok t G base p iv c \<longleftrightarrow>
     (if \<not> fresh_plan p then iv = pBlocks p \<and> c = pClaim p
      else case pGroup p of
        None \<Rightarrow> (\<exists>b. iv = Single b) \<and> c = pClaim p
      | Some (ptr, sg) \<Rightarrow> c = joint_claim t (base ptr) sg \<and>
          (\<exists>n. base ptr \<le> n \<and> n < base ptr + sgN sg \<and> iv = Single (Block t (of_nat n))))"

definition room :: "Allocator \<Rightarrow> (nat \<Rightarrow> SplitGroup) \<Rightarrow> (nat \<Rightarrow> nat) \<Rightarrow> (nat \<Rightarrow> nat) \<Rightarrow> nat \<Rightarrow> nat" where
  "room a G base pos ptr = (if ptr \<in> dom (aGroups a) then base ptr + sgN (G ptr) - pos ptr else sgN (G ptr))"

lemma assign_all_fresh:
  assumes "alloc_inv t n0 G base pos used a" "\<forall>p \<in> set ps. \<forall>ptr sg. pGroup p = Some (ptr, sg) \<longrightarrow> sg = G ptr"
    and "\<forall>ptr. fragments ptr ps \<le> room a G base pos ptr"
    and "top_n a + need (dom (aGroups a)) ps < 2 ^ 64" "assign_all a ps = (a', ids)"
  shows "\<exists>base' pos' ns. alloc_inv t n0 G base' pos' (used \<union> set ns) a' \<and> distinct ns \<and> set ns \<inter> used = {} \<and>
    fresh_blocks ps ids = map (\<lambda>n. Block t (of_nat n)) ns \<and> (\<forall>ptr \<in> dom (aGroups a). base' ptr = base ptr) \<and>
    length ids = length ps \<and> (\<forall>(p, iv, c) \<in> set (zip ps ids). assigned_ok t G base' p iv c) \<and>
    top_n a' = top_n a + need (dom (aGroups a)) ps"
  using assms
proof (induction ps arbitrary: a base pos used ids)
  case Nil
  then show ?case by (intro exI[of _ base] exI[of _ pos] exI[of _ "[]"]) (auto simp: fresh_blocks_def)
next
  case (Cons p ps)
  obtain a1 iv c where A: "Assign a p = (a1, iv, c)" by (rule prod_cases3)
  obtain ids' where I: "assign_all a1 ps = (a', ids')" "ids = (iv, c) # ids'"
    using Cons(6) A by (auto split: prod.splits)
  consider (keep) "\<not> fresh_plan p" | (single) "fresh_plan p" "pGroup p = None"
    | (grp) ptr where "fresh_plan p" "pGroup p = Some (ptr, G ptr)"
    using Cons(3) by (cases "pGroup p") auto
  then show ?case
  proof cases
    case keep
    then have e: "a1 = a" "iv = pBlocks p" "c = pClaim p" using A by (auto simp: Assign_def fresh_plan_def)
    show ?thesis
      using Cons(1)[OF Cons(2) _ _ _ I(1)[unfolded e]] Cons(3-5) keep e I(2)
      by (auto simp: fragments_Cons fresh_blocks_Cons assigned_ok_def)
  next
    case single
    have cap: "top_n a + 1 < 2 ^ 64" using Cons(5) single by simp
    obtain a2 where s: "Assign a p = (a2, Single (Block t (of_nat (top_n a))), pClaim p)" "top_n a \<notin> used"
      "aGroups a2 = aGroups a" "alloc_inv t n0 G base pos (insert (top_n a) used) a2" "top_n a2 = top_n a + 1"
      using assign_single[OF Cons(2) cap _ single(2)] single(1) by (auto simp: fresh_plan_def)
    have e: "a1 = a2" "iv = Single (Block t (of_nat (top_n a)))" "c = pClaim p" using s(1) A by auto
    have fr: "\<forall>ptr. fragments ptr ps \<le> room a2 G base pos ptr" using Cons(4) s(3) single by (simp add: fragments_Cons room_def)
    obtain base' pos' ns where N: "alloc_inv t n0 G base' pos' (insert (top_n a) used \<union> set ns) a'" "distinct ns"
      "set ns \<inter> insert (top_n a) used = {}" "fresh_blocks ps ids' = map (\<lambda>n. Block t (of_nat n)) ns"
      "\<forall>ptr \<in> dom (aGroups a2). base' ptr = base ptr" "length ids' = length ps"
      "\<forall>(p, iv, c) \<in> set (zip ps ids'). assigned_ok t G base' p iv c" "top_n a' = top_n a2 + need (dom (aGroups a2)) ps"
      using Cons(1)[OF s(4) _ fr _ I(1)[unfolded e(1)]] Cons(3,5) s(3,5) single by auto
    show ?thesis
      by (intro exI[of _ base'] exI[of _ pos'] exI[of _ "top_n a # ns"])
        (use N s single e I(2) in \<open>auto simp: fresh_blocks_Cons assigned_ok_def Single_def\<close>)
  next
    case grp
    define base1 where "base1 = (if ptr \<in> dom (aGroups a) then base else base(ptr := top_n a))"
    define pos1 where "pos1 = (if ptr \<in> dom (aGroups a) then pos else pos(ptr := top_n a))"
    have cap: "top_n a + extra_need a G ptr < 2 ^ 64" using Cons(5) grp by (auto simp: extra_need_def)
    have left: "pos1 ptr < base1 ptr + sgN (G ptr)"
      using Cons(4)[rule_format, of ptr] grp by (auto simp: fragments_Cons room_def base1_def pos1_def split: if_splits)
    obtain a2 where s: "Assign a p = (a2, Single (Block t (of_nat (pos1 ptr))), joint_claim t (base1 ptr) (G ptr))" "pos1 ptr \<notin> used"
      "alloc_inv t n0 G base1 (pos1(ptr := pos1 ptr + 1)) (insert (pos1 ptr) used) a2"
      "dom (aGroups a2) = insert ptr (dom (aGroups a))" "top_n a2 = top_n a + extra_need a G ptr"
      using assign_group[OF Cons(2) cap base1_def pos1_def _ grp(2) left] grp(1)
      by (auto simp: joint_claim_def fresh_plan_def)
    have e: "a1 = a2" "iv = Single (Block t (of_nat (pos1 ptr)))" "c = joint_claim t (base1 ptr) (G ptr)" using s(1) A by auto
    have fr: "\<forall>q. fragments q ps \<le> room a2 G base1 (pos1(ptr := pos1 ptr + 1)) q"
    proof
      fix q
      show "fragments q ps \<le> room a2 G base1 (pos1(ptr := pos1 ptr + 1)) q"
        using Cons(4)[rule_format, of q] grp by (auto simp: fragments_Cons room_def s(4) base1_def pos1_def split: if_splits)
    qed
    have nd: "need (dom (aGroups a)) (p # ps) = extra_need a G ptr + need (dom (aGroups a2)) ps"
      using grp s(4) by (simp add: extra_need_def)
    have cap2: "top_n a2 + need (dom (aGroups a2)) ps < 2 ^ 64" using Cons(5) nd s(5) by simp
    have pre: "\<forall>p \<in> set ps. \<forall>ptr sg. pGroup p = Some (ptr, sg) \<longrightarrow> sg = G ptr" using Cons(3) by simp
    obtain base' pos' ns where N: "alloc_inv t n0 G base' pos' (insert (pos1 ptr) used \<union> set ns) a'" "distinct ns"
      "set ns \<inter> insert (pos1 ptr) used = {}" "fresh_blocks ps ids' = map (\<lambda>n. Block t (of_nat n)) ns"
      "\<forall>q \<in> dom (aGroups a2). base' q = base1 q" "length ids' = length ps"
      "\<forall>(p, iv, c) \<in> set (zip ps ids'). assigned_ok t G base' p iv c" "top_n a' = top_n a2 + need (dom (aGroups a2)) ps"
      using Cons(1)[OF s(3) pre fr cap2 I(1)[unfolded e(1)]] by blast
    have b1: "base' ptr = base1 ptr" "base1 ptr \<le> pos1 ptr" "\<forall>q \<in> dom (aGroups a). base' q = base q"
      using N(5) s(3,4) Cons(2) by (auto simp: base1_def pos1_def alloc_inv_def)
    show ?thesis
      by (intro exI[of _ base'] exI[of _ pos'] exI[of _ "pos1 ptr # ns"])
        (use N s(2,4,5) grp e I(2) b1 left nd in \<open>auto simp: fresh_blocks_Cons assigned_ok_def Single_def\<close>)
  qed
qed


subsection \<open>The high-water mark\<close>

definition named_blocks :: "Index \<Rightarrow> Block set" where
  "named_blocks ix = insert (AllocatedBlocks ix)
     ((\<Union>e \<in> set (Entries ix). blocks (eBlocks e) \<union> blocks (cGroup (eClaim e))) \<union>
      (\<Union>w \<in> set (Wanted ix). blocks (wBlocks w) \<union> blocks (cGroup (wClaim w))))"

lemma sep_max:
  assumes "sep rs" "b \<in> rset rs" shows "b \<le> gMax (last rs)"
  using assms
proof (induction rs)
  case (Cons r rs)
  show ?case
  proof (cases "rs = []")
    case False
    then obtain s ss where rs: "rs = s # ss" by (cases rs) auto
    have s: "okrun r" "apart r s" "sep rs" using Cons(2) rs by (auto simp: sep_Cons2)
    have "gMax r \<le> gMin s" using s(2) by (auto simp: apart_def blk_simps)
    also have "gMin s \<le> gMax (last rs)" using sep_hd_le_last[OF s(3)] rs by simp
    finally show ?thesis using Cons(1)[OF s(3)] Cons(3) False by (auto intro: order_trans)
  qed (use Cons in auto)
qed simp

lemma blocks_le_iMax:
  assumes "b \<in> blocks iv" shows "b \<le> iMax iv"
  using assms sep_max[of "runs iv" b] by (auto simp: blocks_def Valid_iff_sep split: if_splits)

lemma bump_le: "t \<le> bump iv t" "b \<in> blocks iv \<Longrightarrow> b \<le> bump iv t"
  using blocks_le_iMax[of b iv] by (auto simp: bump_def blocks_def le_max_iff_disj split: if_splits)

lemma bump_two: "t \<le> bump j (bump iv t)" "b \<in> blocks iv \<union> blocks j \<Longrightarrow> b \<le> bump j (bump iv t)"
  using bump_le(1)[of t iv] bump_le(1)[of "bump iv t" j] bump_le(2)[of b iv t] bump_le(2)[of b j "bump iv t"] by auto

lemma bump_fold_ge: "t \<le> fold (\<lambda>x t. bump (g x) (bump (f x) t)) xs t"
proof (induction xs arbitrary: t)
  case (Cons y xs)
  show ?case using order_trans[OF bump_two(1) Cons.IH] by simp
qed simp

lemma bump_fold_above:
  "x \<in> set xs \<Longrightarrow> b \<in> blocks (f x) \<union> blocks (g x) \<Longrightarrow> b \<le> fold (\<lambda>x t. bump (g x) (bump (f x) t)) xs t"
proof (induction xs arbitrary: t)
  case (Cons y xs)
  then show ?case
    using order_trans[OF bump_two(2)[of b "f y" "g y" t] bump_fold_ge] by (auto simp del: Un_iff)
qed simp

lemma NextBlock_above:
  assumes "bN (NextBlock ix term) \<noteq> 0" "x \<in> named_blocks ix"
  shows "x < NextBlock ix term" "term \<le> bTerm (NextBlock ix term)"
proof -
  define m where "m = fold (\<lambda>e t. bump (cGroup (eClaim e)) (bump (eBlocks e) t)) (Entries ix) (AllocatedBlocks ix)"
  define h where "h = fold (\<lambda>w t. bump (cGroup (wClaim w)) (bump (wBlocks w) t)) (Wanted ix) m"
  have "m \<le> h" by (simp add: h_def bump_fold_ge)
  moreover have "AllocatedBlocks ix \<le> m" by (simp add: m_def bump_fold_ge)
  moreover have "b \<le> m" if "e \<in> set (Entries ix)" "b \<in> blocks (eBlocks e) \<union> blocks (cGroup (eClaim e))" for e b
    unfolding m_def using that by (rule bump_fold_above)
  moreover have "b \<le> h" if "w \<in> set (Wanted ix)" "b \<in> blocks (wBlocks w) \<union> blocks (cGroup (wClaim w))" for w b
    unfolding h_def using that by (rule bump_fold_above)
  ultimately have le: "x \<le> h" using assms(2) unfolding named_blocks_def by (auto intro: order_trans)
  have n: "NextBlock ix term = (if bTerm h < term then Block term 1 else Block (bTerm h) (bN h + 1))"
    by (simp add: NextBlock_def Let_def m_def h_def)
  then have "h < NextBlock ix term"
    using assms(1) unat_plus_one[of "bN h"] word_plus_one_eq_0[of "bN h"]
    by (auto simp: less_Block_def word_less_nat_alt split: if_splits)
  then show "x < NextBlock ix term" using le by simp
  show "term \<le> bTerm (NextBlock ix term)" using n by auto
qed

definition plans_ok :: "Plan list \<Rightarrow> bool" where
  "plans_ok ps \<longleftrightarrow> (\<forall>p \<in> set ps. case pGroup p of None \<Rightarrow> True | Some (ptr, sg) \<Rightarrow> fragments ptr ps \<le> sgN sg \<and>
     (\<forall>q \<in> set ps. case pGroup q of None \<Rightarrow> True | Some (ptr', sg') \<Rightarrow> ptr' = ptr \<longrightarrow> sg' = sg))"

definition group_at :: "Plan list \<Rightarrow> nat \<Rightarrow> SplitGroup" where
  "group_at ps ptr = (case filter (\<lambda>p. map_option fst (pGroup p) = Some ptr) ps of
     [] \<Rightarrow> \<lparr>sgBlocks = unset, sgN = 0\<rparr> | p # _ \<Rightarrow> snd (the (pGroup p)))"

lemma group_at_props:
  assumes "plans_ok ps"
  shows "\<forall>p \<in> set ps. \<forall>ptr sg. pGroup p = Some (ptr, sg) \<longrightarrow> sg = group_at ps ptr"
    "\<forall>ptr. fragments ptr ps \<le> sgN (group_at ps ptr)"
proof -
  have same: "sg = group_at ps ptr" if "p \<in> set ps" "pGroup p = Some (ptr, sg)" for p ptr sg
  proof -
    have "p \<in> set (filter (\<lambda>p. map_option fst (pGroup p) = Some ptr) ps)" using that by simp
    then obtain q qs where q: "filter (\<lambda>p. map_option fst (pGroup p) = Some ptr) ps = q # qs"
      by (metis list.set_cases)
    then have "q \<in> set ps" "map_option fst (pGroup q) = Some ptr" by (auto dest: filter_eq_ConsD)
    moreover obtain sg' where "pGroup q = Some (ptr, sg')" using calculation(2) by auto
    moreover have "sg' = sg" using assms that calculation(1,3) unfolding plans_ok_def by fastforce
    ultimately show ?thesis using q by (simp add: group_at_def)
  qed
  then show "\<forall>p \<in> set ps. \<forall>ptr sg. pGroup p = Some (ptr, sg) \<longrightarrow> sg = group_at ps ptr" by blast
  show "\<forall>ptr. fragments ptr ps \<le> sgN (group_at ps ptr)"
  proof
    fix ptr
    show "fragments ptr ps \<le> sgN (group_at ps ptr)"
    proof (cases "filter (\<lambda>p. fresh_plan p \<and> map_option fst (pGroup p) = Some ptr) ps")
      case (Cons p qs)
      then have "p \<in> set ps" "map_option fst (pGroup p) = Some ptr" by (auto dest: filter_eq_ConsD)
      then have "p \<in> set ps" "\<exists>sg. pGroup p = Some (ptr, sg)" by auto
      then obtain sg where p: "p \<in> set ps" "pGroup p = Some (ptr, sg)" by blast
      then have "fragments ptr ps \<le> sgN sg" using assms unfolding plans_ok_def by fastforce
      then show ?thesis using same[OF p] by simp
    qed (simp add: fragments_def)
  qed
qed

lemma assign_from_new:
  assumes "plans_ok ps" "unat (bN nb) + need {} ps < 2 ^ 64" "assign_all (NewAllocator nb) ps = (a, ids)"
  shows "\<exists>base ns. distinct ns \<and> set ns \<subseteq> {unat (bN nb)..<top_n a} \<and> bTerm (aNext a) = bTerm nb \<and>
    fresh_blocks ps ids = map (\<lambda>n. Block (bTerm nb) (of_nat n)) ns \<and> length ids = length ps \<and>
    (\<forall>(p, iv, c) \<in> set (zip ps ids). assigned_ok (bTerm nb) (group_at ps) base p iv c) \<and>
    (\<forall>ptr. aGroups a ptr \<noteq> None \<longrightarrow> unat (bN nb) \<le> base ptr \<and> base ptr + sgN (group_at ps ptr) \<le> top_n a)"
proof -
  let ?a = "NewAllocator nb"
  have i: "alloc_inv (bTerm nb) (unat (bN nb)) (group_at ps) (\<lambda>_. 0) (\<lambda>_. 0) {} ?a" "top_n ?a = unat (bN nb)"
    "dom (aGroups ?a) = {}" by (simp_all add: alloc_inv_def NewAllocator_def top_n_def)
  have r: "\<forall>ptr. fragments ptr ps \<le> room ?a (group_at ps) (\<lambda>_. 0) (\<lambda>_. 0) ptr"
    using group_at_props(2)[OF assms(1)] by (simp add: room_def i(3))
  have cap: "top_n ?a + need (dom (aGroups ?a)) ps < 2 ^ 64" using assms(2) i by simp
  obtain base pos ns where "alloc_inv (bTerm nb) (unat (bN nb)) (group_at ps) base pos ({} \<union> set ns) a" "distinct ns"
    "fresh_blocks ps ids = map (\<lambda>n. Block (bTerm nb) (of_nat n)) ns" "length ids = length ps"
    "\<forall>(p, iv, c) \<in> set (zip ps ids). assigned_ok (bTerm nb) (group_at ps) base p iv c"
    using assign_all_fresh[OF i(1) group_at_props(1)[OF assms(1)] r cap assms(3)] by blast
  then show ?thesis by (intro exI[of _ base] exI[of _ ns]) (auto simp: alloc_inv_def)
qed


lemma run_at_props:
  assumes "1 \<le> lo" "1 \<le> n" "lo + n < 2 ^ 64"
  shows "Valid (run_at t lo n)" "blocks (run_at t lo n) = (\<lambda>k. Block t (of_nat k)) ` {lo..<lo + n}"
proof -
  have e: "run_at t lo n = Range t (of_nat lo) (of_nat (lo + n - 1))"
    using assms by (simp add: run_at_def Range_def of_nat_diff)
  have u: "unat (of_nat lo :: u64) = lo" "unat (of_nat (lo + n - 1) :: u64) = lo + n - 1"
    by (rule unat_of_nat64; use assms in linarith)+
  have c: "(of_nat lo :: u64) \<noteq> 0" "(of_nat lo :: u64) \<le> of_nat (lo + n - 1)"
    using u assms by (auto simp: word_le_nat_alt simp del: of_nat_add of_nat_diff)
  have "(of_nat :: nat \<Rightarrow> u64) ` {lo..<lo + n} = {of_nat lo..of_nat (lo + n - 1)}"
  proof -
    have "lo + n - 1 + 1 = lo + n" using assms(2) by simp
    then show ?thesis
      using word_range_set[of "of_nat lo :: u64" "of_nat (lo + n - 1)"] unfolding word_range_def u set_map set_upt by (simp only:)
  qed
  then show "Valid (run_at t lo n)" "blocks (run_at t lo n) = (\<lambda>k. Block t (of_nat k)) ` {lo..<lo + n}"
    using Range_props[OF c, of t] by (simp_all add: e image_image[symmetric, of "Block t" of_nat])
qed

lemma block_number_inj: "inj_on (\<lambda>k. Block t (of_nat k)) {..<2 ^ 64}"
  by (rule inj_onI) (metis Block.inject lessThan_iff unat_of_nat64)

subsection \<open>Properties of plans and allocation\<close>

text \<open>C18. A merge's outputs claim exactly what its inputs held. Whether it writes one part or splits, the
  blocks its plans inherit cover every input's blocks and stand for exactly the rows of the inputs,
  also where a complete split group among them is folded back; and the outputs' level is above every
  input's, short of the wrap-around of the 32-bit level.\<close>

theorem merge_claims_exactly_its_inputs:
  assumes "splits_rows rows (map eClaim src)" "p \<in> set (PlanMerge ptr src n)"
  shows "rows_of rows (plan_blocks p) = (\<Union>e \<in> set src. rows_of rows (eBlocks e)) \<and>
    (\<forall>e \<in> set src. Valid (eBlocks e) \<longrightarrow> Contains (plan_blocks p) (eBlocks e)) \<and>
    (\<forall>e \<in> set src. eLevel e \<noteq> - 1 \<longrightarrow> eLevel e < pLevel p)"
proof -
  note P = PlanMerge_props[OF assms(2)]
  let ?l = "filter claim_Valid (map eClaim src)" and ?S = "\<Union>e \<in> set src. blocks (eBlocks e)"
  have "splits_rows rows ?l" using assms(1) by (auto simp: splits_rows_def)
  then have "rows_of rows (plan_blocks p) = (\<Union>e \<in> set src. rows_of rows (eBlocks e))"
    using realized_rows[of rows ?l ?S] P(1) by (auto simp: rows_of_def)
  moreover have "Contains (plan_blocks p) (eBlocks e)" if "e \<in> set src" "Valid (eBlocks e)" for e
    by (rule Contains_sub) (use that P(1) in \<open>auto intro: realized_base\<close>)
  ultimately show ?thesis using P(2) by blast
qed

theorem merge_claims_exactly_its_inputs_witness:
  "(let src = [(ex_part 98 2 1)\<lparr>eClaim := ex_split\<rparr>, (ex_part 99 3 1)\<lparr>eClaim := ex_split\<rparr>];
        p = hd (PlanMerge 0 src 1)
    in plan_blocks p = Range 0 1 3 \<and> pLevel p = 2 \<and>
       rows_of ex_rows (plan_blocks p) = (\<Union>e \<in> set src. rows_of ex_rows (eBlocks e)))"
proof -
  let ?src = "[(ex_part 98 2 1)\<lparr>eClaim := ex_split\<rparr>, (ex_part 99 3 1)\<lparr>eClaim := ex_split\<rparr>]"
  have pm: "PlanMerge 0 ?src 1 = [\<lparr>pBlocks = Range 0 1 3, pClaim = no_claim, pGroup = None, pLevel = 2\<rparr>]" by code_simp
  moreover have "splits_rows ex_rows (map eClaim ?src)" using ex_rows_split by (simp add: splits_rows_def)
  ultimately show ?thesis
    using merge_claims_exactly_its_inputs[of ex_rows ?src "hd (PlanMerge 0 ?src 1)" 0 1] by (simp add: Let_def plan_blocks_def)
qed

text \<open>C19. The blocks a commit hands out are fresh: each is above every block the index names or ever
  allocated, no two new parts get the same one, none exceeds the mark the commit records, and none
  belongs to an earlier term, as long as the 64-bit numbers of the term are not exhausted.\<close>

theorem allocated_blocks_are_fresh:
  assumes "plans_ok ps" "bN (NextBlock ix term) \<noteq> 0" "unat (bN (NextBlock ix term)) + need {} ps < 2 ^ 64"
    and "assign_all (NewAllocator (NextBlock ix term)) ps = (a, ids)"
  shows "distinct (fresh_blocks ps ids) \<and>
    (\<forall>b \<in> set (fresh_blocks ps ids). (\<forall>x \<in> named_blocks ix. x < b) \<and> b \<le> Mark a \<and> term \<le> bTerm b)"
proof -
  let ?nb = "NextBlock ix term"
  obtain ns where N: "distinct ns" "set ns \<subseteq> {unat (bN ?nb)..<top_n a}" "bTerm (aNext a) = bTerm ?nb"
    "fresh_blocks ps ids = map (\<lambda>n. Block (bTerm ?nb) (of_nat n)) ns"
    using assign_from_new[OF assms(1,3,4)] by blast
  have lt: "n < 2 ^ 64" if "n \<in> set ns" for n
    using N(2) that unsigned_less[of "bN (aNext a)", where ?'a = nat] by (force simp: top_n_def)
  then have "distinct (fresh_blocks ps ids)"
    using N(1,4) block_number_inj by (auto simp: distinct_map intro: inj_on_subset)
  moreover have "(\<forall>x \<in> named_blocks ix. x < b) \<and> b \<le> Mark a \<and> term \<le> bTerm b" if b: "b \<in> set (fresh_blocks ps ids)" for b
  proof -
    obtain n where n: "n \<in> set ns" "b = Block (bTerm ?nb) (of_nat n)" using b unfolding N(4) by auto
    have u: "unat (of_nat n :: u64) = n" using lt[OF n(1)] by (rule unat_of_nat64)
    have r: "unat (bN ?nb) \<le> n" "n < top_n a" using N(2) n(1) by auto
    then have "?nb \<le> b" using n(2) u by (simp add: less_eq_Block_def word_le_nat_alt)
    moreover have "unat (bN (aNext a) - 1) = top_n a - 1" using r(2) by (simp add: top_n_def unat_minus_one unat_gt_0 flip: unat_gt_0)
    then have "b \<le> Mark a" using n(2) u r(2) N(3) by (simp add: Mark_def less_eq_Block_def word_le_nat_alt)
    ultimately show ?thesis using NextBlock_above[OF assms(2)] n(2) by (auto simp: named_blocks_def intro: order_less_le_trans)
  qed
  ultimately show ?thesis by blast
qed

theorem allocated_blocks_are_fresh_witness:
  "let ix = empty_index\<lparr>Entries := [ex_part 97 1 0], AllocatedBlocks := Block 0 4\<rparr>;
       ps = FlushPlan # PlanMerge 7 [ex_part 97 1 0] 2;
       (a, ids) = assign_all (NewAllocator (NextBlock ix 0)) ps
   in fresh_blocks ps ids = [Block 0 5, Block 0 6, Block 0 7] \<and> Mark a = Block 0 7 \<and> distinct (fresh_blocks ps ids) \<and>
      (\<forall>b \<in> set (fresh_blocks ps ids). \<forall>x \<in> named_blocks ix. x < b)"
proof -
  let ?ix = "empty_index\<lparr>Entries := [ex_part 97 1 0], AllocatedBlocks := Block 0 4\<rparr>"
  let ?ps = "FlushPlan # PlanMerge 7 [ex_part 97 1 0] 2"
  have nb: "NextBlock ?ix 0 = Block 0 5" "need {} ?ps = 3" "plans_ok ?ps" by code_simp+
  obtain a ids where r: "assign_all (NewAllocator (NextBlock ?ix 0)) ?ps = (a, ids)" by (rule prod.exhaust)
  have "fresh_blocks ?ps (snd (assign_all (NewAllocator (Block 0 5)) ?ps)) = [Block 0 5, Block 0 6, Block 0 7]"
    "Mark (fst (assign_all (NewAllocator (Block 0 5)) ?ps)) = Block 0 7" by code_simp+
  then have "fresh_blocks ?ps ids = [Block 0 5, Block 0 6, Block 0 7]" "Mark a = Block 0 7" using r nb(1) by simp_all
  then show ?thesis using allocated_blocks_are_fresh[OF nb(3) _ _ r] nb(1,2) r by (simp add: Let_def)
qed


definition fragment_of :: "nat \<Rightarrow> Plan \<Rightarrow> bool" where
  "fragment_of ptr p \<longleftrightarrow> fresh_plan p \<and> map_option fst (pGroup p) = Some ptr"

definition fragment_blocks :: "nat \<Rightarrow> Plan list \<Rightarrow> (Interval \<times> Claim) list \<Rightarrow> Block list" where
  "fragment_blocks ptr ps ids = map (\<lambda>(p, iv, c). iMin iv) (filter (\<lambda>(p, iv, c). fragment_of ptr p) (zip ps ids))"

lemma fragment_blocks_sub:
  assumes "distinct (fresh_blocks ps ids)" "length ids = length ps"
  shows "distinct (fragment_blocks ptr ps ids)" "length (fragment_blocks ptr ps ids) = fragments ptr ps"
proof -
  have "distinct (map (\<lambda>(p, iv, c). iMin iv) (filter (\<lambda>(p, iv, c). fragment_of ptr p) (filter (\<lambda>(p, iv, c). fresh_plan p) (zip ps ids))))"
    using assms(1) unfolding fresh_blocks_def by (rule distinct_map_filter)
  moreover have "filter (\<lambda>(p, iv, c). fragment_of ptr p) (filter (\<lambda>(p, iv, c). fresh_plan p) zs) =
    filter (\<lambda>(p, iv, c). fragment_of ptr p) zs" for zs :: "(Plan \<times> Interval \<times> Claim) list"
    by (induction zs) (auto simp: fragment_of_def)
  ultimately show "distinct (fragment_blocks ptr ps ids)" by (simp add: fragment_blocks_def)
  show "length (fragment_blocks ptr ps ids) = fragments ptr ps" using assms(2)
  proof (induction ids ps rule: list_induct2)
    case (Cons i ids p ps)
    then show ?case by (auto simp: fragment_blocks_def fragments_def fragment_of_def split: prod.splits)
  qed (simp add: fragment_blocks_def fragments_def)
qed

lemma Assign_dom:
  assumes "Assign a p = (a', i)"
  shows "dom (aGroups a) \<subseteq> dom (aGroups a')" "fragment_of ptr p \<Longrightarrow> ptr \<in> dom (aGroups a')"
  using assms
  by (auto simp: Assign_def group_run_def alloc_take_def fragment_of_def fresh_plan_def Let_def split: if_splits option.splits)

lemma assign_all_dom:
  "assign_all a ps = (a', ids) \<Longrightarrow> dom (aGroups a) \<subseteq> dom (aGroups a') \<and> (\<forall>p \<in> set ps. fragment_of ptr p \<longrightarrow> ptr \<in> dom (aGroups a'))"
proof (induction ps arbitrary: a ids)
  case (Cons p ps)
  obtain a1 i where A: "Assign a p = (a1, i)" by (rule prod.exhaust)
  obtain ids' where "assign_all a1 ps = (a', ids')" using Cons(2) A by (auto split: prod.splits)
  from Cons(1)[OF this] show ?case using Assign_dom(1)[OF A] Assign_dom(2)[OF A, of ptr] unfolding list.set by blast
qed simp

lemma fragment_number:
  assumes "assigned_ok t (group_at ps) base p iv c" "fragment_of ptr p" "plans_ok ps" "p \<in> set ps"
  shows "c = joint_claim t (base ptr) (group_at ps ptr)"
    "\<exists>n. base ptr \<le> n \<and> n < base ptr + sgN (group_at ps ptr) \<and> iv = Single (Block t (of_nat n))"
proof -
  obtain sg where sg: "pGroup p = Some (ptr, sg)" "fresh_plan p" using assms(2) by (auto simp: fragment_of_def)
  then have "sg = group_at ps ptr" using group_at_props(1)[OF assms(3)] assms(4) by blast
  then show "c = joint_claim t (base ptr) (group_at ps ptr)"
    "\<exists>n. base ptr \<le> n \<and> n < base ptr + sgN (group_at ps ptr) \<and> iv = Single (Block t (of_nat n))"
    using assms(1) sg by (simp_all add: assigned_ok_def)
qed

text \<open>A split group's claim is exact: once all of its fragments are numbered in one commit, every
  fragment carries the same valid claim, it names the blocks the merge consumed, and its group is
  exactly the set of the fragments' own blocks.\<close>

lemma split_group_claim_is_exact:
  assumes "plans_ok ps" "bN nb \<noteq> 0" "unat (bN nb) + need {} ps < 2 ^ 64" "assign_all (NewAllocator nb) ps = (a, ids)"
    and "p0 \<in> set ps" "fragment_of ptr p0" "pGroup p0 = Some (ptr, sg)" "Valid (sgBlocks sg)" "fragments ptr ps = sgN sg"
  shows "\<exists>c. claim_Valid c \<and> cBlocks c = sgBlocks sg \<and> blocks (cGroup c) = set (fragment_blocks ptr ps ids) \<and>
    (\<forall>(p, iv, c') \<in> set (zip ps ids). fragment_of ptr p \<longrightarrow> c' = c \<and> blocks iv = {iMin iv})"
proof -
  let ?t = "bTerm nb"
  obtain base ns where N: "distinct ns" "set ns \<subseteq> {unat (bN nb)..<top_n a}" "fresh_blocks ps ids = map (\<lambda>n. Block ?t (of_nat n)) ns"
    "length ids = length ps" "\<forall>(p, iv, c) \<in> set (zip ps ids). assigned_ok ?t (group_at ps) base p iv c"
    "\<forall>q. aGroups a q \<noteq> None \<longrightarrow> unat (bN nb) \<le> base q \<and> base q + sgN (group_at ps q) \<le> top_n a"
    using assign_from_new[OF assms(1,3,4)] by blast
  have bound: "top_n a < 2 ^ 64" using unsigned_less[of "bN (aNext a)", where ?'a = nat] by (simp add: top_n_def)
  have sg: "group_at ps ptr = sg" using group_at_props(1)[OF assms(1)] assms(5,7) by metis
  have "aGroups a ptr \<noteq> None" using assign_all_dom[OF assms(4), of ptr] assms(5,6) by blast
  then have b: "unat (bN nb) \<le> base ptr" "base ptr + sgN sg \<le> top_n a" using N(6) sg by auto
  have "0 < length (filter (fragment_of ptr) ps)" by (rule length_pos_if_in_set[of p0]) (use assms(5,6) in simp)
  moreover have "fragments ptr ps = length (filter (fragment_of ptr) ps)"
    unfolding fragments_def fragment_of_def[abs_def] by (rule refl)
  ultimately have n1: "1 \<le> sgN sg" using assms(9) by linarith
  have "1 \<le> unat (bN nb)" using assms(2) by (simp add: Suc_le_eq unat_gt_0)
  then have lo: "1 \<le> base ptr" "base ptr + sgN sg < 2 ^ 64" using b bound by linarith+
  define run where "run = run_at ?t (base ptr) (sgN sg)"
  note R = run_at_props[OF lo(1) n1 lo(2), of ?t, folded run_def]
  define c where "c = joint_claim ?t (base ptr) sg"
  have c: "claim_Valid c" "cBlocks c = sgBlocks sg" "cGroup c = run"
    using R(1) assms(8) by (simp_all add: c_def joint_claim_def run_def[symmetric] claim_Valid_def)
  have each: "c' = c \<and> blocks iv = {iMin iv} \<and> iMin iv \<in> blocks run"
    if z: "(p, iv, c') \<in> set (zip ps ids)" "fragment_of ptr p" for p iv c'
  proof -
    have "assigned_ok ?t (group_at ps) base p iv c'" using N(5) z(1) by auto
    from fragment_number[OF this z(2) assms(1) set_zip_leftD[OF z(1)]] obtain n where
      n: "c' = c" "base ptr \<le> n" "n < base ptr + sgN sg" "iv = Single (Block ?t (of_nat n))" using sg c_def by auto
    then have "bN (Block ?t (of_nat n)) \<noteq> 0" using lo unat_of_nat64[of n] by (auto simp: unat_eq_0[symmetric] simp del: unat_eq_0)
    moreover have "iMin iv = Block ?t (of_nat n)" using n(4) by (simp add: Single_def)
    ultimately show ?thesis using n R(2) by (auto simp: Single_props)
  qed
  have D: "distinct (fresh_blocks ps ids)"
    unfolding N(3) distinct_map using N(1,2) bound by (auto intro!: inj_on_subset[OF block_number_inj])
  note F = fragment_blocks_sub[OF D N(4), of ptr]
  have "set (fragment_blocks ptr ps ids) \<subseteq> blocks run" using each by (auto simp: fragment_blocks_def)
  moreover have "card (blocks run) = sgN sg"
    using card_image[OF inj_on_subset[OF block_number_inj]] R(2) lo by (simp add: subset_eq)
  moreover have "card (set (fragment_blocks ptr ps ids)) = sgN sg" using F assms(9) by (simp add: distinct_card)
  ultimately have "set (fragment_blocks ptr ps ids) = blocks run" by (simp add: card_subset_eq)
  then show ?thesis using c each by (intro exI[of _ c]) auto
qed

end
