(* ===== verification/Varint.thy ===== *)
theory Varint
  imports Prelude
begin

text \<open>
  Variable-length integers as \<^verbatim>\<open>encoding/binary\<close> writes and reads them, the readers built on them in
  \<^verbatim>\<open>src/backend/bucketindex/bucketindex.go\<close>, and the two contracts every encoder and decoder of the
  development is interpreted in: \<open>appender\<close> (an append-style encoder only appends) and \<open>codec\<close> (a
  decoder reads back what the encoder wrote and leaves the rest of the input).
\<close>

unbundle bit_operations_syntax

subsection \<open>Go's varints\<close>

definition MaxVarintLen64 :: nat where "MaxVarintLen64 = 10"

lemma unat_shift7: "unat (drop_bit 7 x) = unat x div 128" for x :: u64
  by (simp add: drop_bit_eq_div unat_div)

function AppendUvarint :: "bytes \<Rightarrow> u64 \<Rightarrow> bytes" where
  "AppendUvarint dst x =
     (if x \<ge> 0x80 then AppendUvarint (dst @ [ucast x OR 0x80]) (drop_bit 7 x) else dst @ [ucast x])"
  by pat_completeness auto
termination
proof (relation "measure (\<lambda>(dst, x). unat x)", goal_cases)
  case (2 dst x)
  then have "128 \<le> unat x" by (simp add: word_le_nat_alt)
  then show ?case by (simp add: unat_shift7)
qed simp

declare AppendUvarint.simps [simp del]

text \<open>
  \<^verbatim>\<open>binary.Uvarint\<close>: the value and the number of bytes read, 0 if the input ends first and negative on
  overflow.
\<close>

fun uvarint_loop :: "nat \<Rightarrow> u64 \<Rightarrow> bytes \<Rightarrow> u64 \<times> int" where
  "uvarint_loop i x [] = (0, 0)"
| "uvarint_loop i x (b # buf) =
     (if i = MaxVarintLen64 then (0, - (int i + 1))
      else if b < 0x80 then
        (if i = MaxVarintLen64 - 1 \<and> b > 1 then (0, - (int i + 1))
         else (x OR push_bit (7 * i) (ucast b), int i + 1))
      else uvarint_loop (i + 1) (x OR push_bit (7 * i) (ucast (b AND 0x7f))) buf)"

definition Uvarint :: "bytes \<Rightarrow> u64 \<times> int" where
  "Uvarint buf = uvarint_loop 0 0 buf"

definition AppendVarint :: "bytes \<Rightarrow> i64 \<Rightarrow> bytes" where
  "AppendVarint dst x = (let ux = push_bit 1 x in AppendUvarint dst (if sint x < 0 then NOT ux else ux))"

definition Varint :: "bytes \<Rightarrow> i64 \<times> int" where
  "Varint buf = (case Uvarint buf of (ux, n) \<Rightarrow>
     let x = drop_bit 1 ux in (if ux AND 1 \<noteq> 0 then NOT x else x, n))"

definition readUvarint :: "bytes \<Rightarrow> (u64 \<times> bytes) option" where
  "readUvarint buf = (case Uvarint buf of (v, m) \<Rightarrow> if m \<le> 0 then None else Some (v, drop (nat m) buf))"

definition readVarint :: "bytes \<Rightarrow> (i64 \<times> bytes) option" where
  "readVarint buf = (case Varint buf of (v, m) \<Rightarrow> if m \<le> 0 then None else Some (v, drop (nat m) buf))"


subsection \<open>The contracts of encoders and decoders\<close>

text \<open>An append-style encoder puts what it writes after what is there.\<close>

locale appender =
  fixes app :: "bytes \<Rightarrow> 'a \<Rightarrow> bytes"
  assumes app_only: "app dst x = dst @ app [] x"
begin

lemma app_fold: "foldl app dst xs = dst @ concat (map (app []) xs)"
proof (induction xs arbitrary: dst)
  case (Cons x xs)
  then show ?case using app_only[of dst x] by simp
qed simp

end

text \<open>
  A decoder reads an encoded value (as \<open>canon\<close> of it, where the encoding forgets something) and
  returns what follows, for the values \<open>sized\<close> admits.
\<close>

locale encoder = appender app for app :: "bytes \<Rightarrow> 'a \<Rightarrow> bytes" +
  assumes enc_pos: "app [] x \<noteq> []"
begin

lemma app_step: "dst \<noteq> [] \<Longrightarrow> app dst x = dst @ app [] x"
  by (rule app_only)

lemma app_nonempty: "app dst x \<noteq> []"
  using app_only[of dst x] enc_pos by simp

text \<open>So a count never exceeds the bytes that follow it, which is what the decoders check first.\<close>

lemma count_le: "length xs \<le> length (concat (map (app []) xs))"
  using enc_pos by (induction xs) (auto simp: Suc_le_eq add_strict_increasing)

end

locale codec = encoder app for app :: "bytes \<Rightarrow> 'a \<Rightarrow> bytes" +
  fixes dec :: "bytes \<Rightarrow> ('a \<times> bytes) option" and canon :: "'a \<Rightarrow> 'a" and sized :: "'a \<Rightarrow> bool"
  assumes dec_enc: "sized x \<Longrightarrow> dec (app [] x @ rest) = Some (canon x, rest)"

text \<open>The same for decoders that say what is wrong with the input.\<close>

locale decoder = encoder app for app :: "bytes \<Rightarrow> 'a \<Rightarrow> bytes" +
  fixes dec :: "bytes \<Rightarrow> 'e + 'a \<times> bytes" and canon :: "'a \<Rightarrow> 'a" and sized :: "'a \<Rightarrow> bool"
  assumes dec_enc: "sized x \<Longrightarrow> dec (app [] x @ rest) = Inr (canon x, rest)"

text \<open>The loop that reads \<open>n\<close> values one after another.\<close>

fun read_n :: "(bytes \<Rightarrow> ('a \<times> bytes) option) \<Rightarrow> nat \<Rightarrow> bytes \<Rightarrow> ('a list \<times> bytes) option" where
  "read_n dec 0 buf = Some ([], buf)"
| "read_n dec (Suc n) buf =
     (case dec buf of None \<Rightarrow> None
      | Some (x, buf) \<Rightarrow> (case read_n dec n buf of None \<Rightarrow> None | Some (xs, buf) \<Rightarrow> Some (x # xs, buf)))"

fun decode_n :: "(bytes \<Rightarrow> 'e + 'a \<times> bytes) \<Rightarrow> nat \<Rightarrow> bytes \<Rightarrow> 'e + 'a list \<times> bytes" where
  "decode_n dec 0 buf = Inr ([], buf)"
| "decode_n dec (Suc n) buf =
     (case dec buf of Inl e \<Rightarrow> Inl e
      | Inr (x, buf) \<Rightarrow> (case decode_n dec n buf of Inl e \<Rightarrow> Inl e | Inr (xs, buf) \<Rightarrow> Inr (x # xs, buf)))"

context codec
begin

lemma read_n_enc:
  "\<forall>x \<in> set xs. sized x \<Longrightarrow> read_n dec (length xs) (concat (map (app []) xs) @ rest) = Some (map canon xs, rest)"
  by (induction xs) (simp_all add: dec_enc)

end

context decoder
begin

lemma decode_n_enc:
  "\<forall>x \<in> set xs. sized x \<Longrightarrow> decode_n dec (length xs) (concat (map (app []) xs) @ rest) = Inr (map canon xs, rest)"
  by (induction xs) (simp_all add: dec_enc)

end

subsection \<open>Varints read back\<close>

lemma AppendUvarint_append: "AppendUvarint dst x = dst @ AppendUvarint [] x"
proof (induction "unat x" arbitrary: dst x rule: less_induct)
  case less
  show ?case
  proof (cases "x \<ge> 0x80")
    case True
    then have "unat (drop_bit 7 x) < unat x" by (simp add: word_le_nat_alt unat_shift7)
    then have "AppendUvarint d (drop_bit 7 x) = d @ AppendUvarint [] (drop_bit 7 x)" for d by (rule less)
    then show ?thesis
      using AppendUvarint.simps[of dst x] AppendUvarint.simps[of "[]" x] True by (metis append.assoc append_Nil)
  qed (simp add: AppendUvarint.simps[of _ x])
qed

lemma byte_low: "ucast (((ucast y :: u8) OR 0x80) AND 0x7f) = take_bit 7 y" for y :: u64
proof -
  have "((ucast y :: u8) OR 0x80) AND 0x7f = ucast y AND 0x7f" by (simp add: bit.conj_disj_distrib2)
  moreover have "(0x7f :: u8) = mask 7" by (simp add: mask_eq_exp_minus_1)
  ultimately show ?thesis by (auto simp: bit_eq_iff bit_simps)
qed

lemma byte_high: "\<not> (a :: u8) OR 0x80 < 0x80"
  using le_word_or1 le_word_or2 by (metis not_less)

lemma byte_whole: "y < 0x80 \<Longrightarrow> ucast (ucast y :: u8) = y" "y < 0x80 \<Longrightarrow> (ucast y :: u8) < 0x80" for y :: u64
  by (simp_all add: word_unat_eq_iff unsigned_ucast_eq word_less_nat_alt take_bit_eq_mod unat_mod)

lemma seven_more: "push_bit k (take_bit 7 y) OR push_bit (7 + k) (drop_bit 7 y) = push_bit k y" for y :: u64
proof (rule bit_word_eqI)
  fix n assume "n < LENGTH(64)"
  then show "bit (push_bit k (take_bit 7 y) OR push_bit (7 + k) (drop_bit 7 y)) n = bit (push_bit k y) n"
    by (cases "n - k < 7") (auto simp: bit_simps)
qed

lemma uvarint_loop_enc:
  "i \<le> 9 \<Longrightarrow> unat y < 2 ^ (64 - 7 * i) \<Longrightarrow>
   uvarint_loop i x (AppendUvarint [] y @ rest) = (x OR push_bit (7 * i) y, int (i + length (AppendUvarint [] y)))"
proof (induction "unat y" arbitrary: y i x rule: less_induct)
  case less
  show ?case
  proof (cases "y \<ge> 0x80")
    case False
    then have y: "y < 0x80" by simp
    have "\<not> (i = 9 \<and> (ucast y :: u8) > 1)"
    proof
      assume i: "i = 9 \<and> (ucast y :: u8) > 1"
      then have "unat y < 2" using less(3) by simp
      then show False using i y by (simp add: word_less_nat_alt unsigned_ucast_eq take_bit_eq_mod unat_mod)
    qed
    then show ?thesis using y byte_whole[OF y] False less(2)
      by (simp add: AppendUvarint.simps[of _ y] MaxVarintLen64_def)
  next
    case True
    let ?z = "drop_bit 7 y"
    have enc: "AppendUvarint [] y = (ucast y OR 0x80) # AppendUvarint [] ?z"
      using True AppendUvarint.simps[of "[]" y] AppendUvarint_append[of "[ucast y OR 0x80]" ?z] by simp
    have big: "128 \<le> unat y" using True by (simp add: word_le_nat_alt)
    have i: "i \<le> 8"
    proof (rule ccontr)
      assume "\<not> i \<le> 8"
      then have "i = 9" using less(2) by simp
      then show False using less(3) big by simp
    qed
    have "(2 :: nat) ^ (64 - 7 * i) = 2 ^ (64 - 7 * (i + 1)) * 128"
    proof -
      have "64 - 7 * i = (64 - 7 * (i + 1)) + 7" using i by simp
      then have "(2 :: nat) ^ (64 - 7 * i) = 2 ^ ((64 - 7 * (i + 1)) + 7)" by (rule arg_cong)
      also have "\<dots> = 2 ^ (64 - 7 * (i + 1)) * 2 ^ 7" by (rule power_add)
      finally show ?thesis by simp
    qed
    then have z: "unat ?z < 2 ^ (64 - 7 * (i + 1))" using less(3) by (simp add: unat_shift7 less_mult_imp_div_less)
    have "unat ?z < unat y" using big by (simp add: unat_shift7)
    from less(1)[OF this _ z] i
    have "uvarint_loop (i + 1) (x OR push_bit (7 * i) (take_bit 7 y)) (AppendUvarint [] ?z @ rest) =
      ((x OR push_bit (7 * i) (take_bit 7 y)) OR push_bit (7 * (i + 1)) ?z, int (i + 1 + length (AppendUvarint [] ?z)))"
      by simp
    moreover have "(x OR push_bit (7 * i) (take_bit 7 y)) OR push_bit (7 * (i + 1)) ?z = x OR push_bit (7 * i) y"
      using seven_more[of "7 * i" y] by (simp add: or.assoc add.commute)
    ultimately show ?thesis using i enc byte_high[of "ucast y"] byte_low[of y] by (simp add: MaxVarintLen64_def)
  qed
qed

lemma AppendUvarint_nonempty: "AppendUvarint [] x \<noteq> []"
proof (cases "x \<ge> 0x80")
  case True
  then show ?thesis
    using AppendUvarint.simps[of "[]" x] AppendUvarint_append[of "[ucast x OR 0x80]" "drop_bit 7 x"] by simp
qed (simp add: AppendUvarint.simps[of _ x])

lemma Uvarint_enc: "Uvarint (AppendUvarint [] x @ rest) = (x, int (length (AppendUvarint [] x)))"
  using uvarint_loop_enc[of 0 x 0 rest] unat64_bound[of x] by (simp add: Uvarint_def)

interpretation uv: codec AppendUvarint readUvarint "\<lambda>x. x" "\<lambda>_. True"
proof
  show "AppendUvarint dst x = dst @ AppendUvarint [] x" for dst x by (rule AppendUvarint_append)
  show "readUvarint (AppendUvarint [] x @ rest) = Some (x, rest)" for x rest
    using AppendUvarint_nonempty[of x] by (simp add: readUvarint_def Uvarint_enc)
qed (rule AppendUvarint_nonempty)

lemma shift1: "bit (push_bit 1 x) n \<longleftrightarrow> 1 \<le> n \<and> n < 64 \<and> bit x (n - 1)" for x :: u64
  unfolding bit_push_bit_iff by simp

lemma zigzag: "let ux = push_bit 1 x; u = (if sint x < 0 then NOT ux else ux) in
    (if u AND 1 \<noteq> 0 then NOT (drop_bit 1 u) else drop_bit 1 u) = x" for x :: i64
proof -
  have s: "sint x < 0 \<longleftrightarrow> bit x 63" using bit_last_iff[of x] by simp
  have b0: "u AND 1 \<noteq> 0 \<longleftrightarrow> bit u 0" for u :: u64 by (simp add: bit_0 odd_iff_mod_2_eq_one and_one_eq)
  have low: "\<not> bit (push_bit 1 x) 0" "bit (NOT (push_bit 1 x)) 0" unfolding bit_not_iff shift1 by simp_all
  have neg: "NOT (drop_bit 1 (NOT (push_bit 1 x))) = x" if "bit x 63"
  proof (rule bit_word_eqI)
    fix n assume "n < LENGTH(64)"
    then show "bit (NOT (drop_bit 1 (NOT (push_bit 1 x)))) n = bit x n"
      using that by (cases "n = 63") (simp_all only: bit_not_iff bit_drop_bit_eq comp_def shift1, simp_all)
  qed
  have pos: "drop_bit 1 (push_bit 1 x) = x" if "\<not> bit x 63"
  proof (rule bit_word_eqI)
    fix n assume "n < LENGTH(64)"
    then show "bit (drop_bit 1 (push_bit 1 x)) n = bit x n"
      using that by (cases "n = 63") (simp_all only: bit_drop_bit_eq comp_def shift1, simp_all)
  qed
  show ?thesis
    using neg pos low unfolding Let_def s b0 by (cases "bit x 63") (simp_all only: if_True if_False simp_thms)
qed

lemma Varint_enc: "Varint (AppendVarint [] x @ rest) = (x, int (length (AppendVarint [] x)))"
  unfolding Varint_def AppendVarint_def Let_def Uvarint_enc prod.case using zigzag[of x] by (simp only: Let_def)

interpretation zv: codec AppendVarint readVarint "\<lambda>x. x" "\<lambda>_. True"
proof
  show "AppendVarint dst x = dst @ AppendVarint [] x" for dst x
    unfolding AppendVarint_def Let_def by (rule AppendUvarint_append)
  show "AppendVarint [] x \<noteq> []" for x by (simp add: AppendVarint_def Let_def AppendUvarint_nonempty)
  show "readVarint (AppendVarint [] x @ rest) = Some (x, rest)" for x rest
    by (simp add: readVarint_def Varint_enc) (simp add: AppendVarint_def Let_def AppendUvarint_nonempty)
qed

lemmas [codec] = uv.dec_enc[OF TrueI] zv.dec_enc[OF TrueI]
  uv.app_step zv.app_step uv.app_nonempty zv.app_nonempty

lemma of_nat_length: "length xs < 2 ^ 64 \<Longrightarrow> unat (of_nat (length xs) :: u64) = length xs"
  by (simp add: unat_of_nat)

subsection \<open>Counted lists\<close>

text \<open>
  A counted list: the count, bounded by what the input could hold, and that many elements. The two
  errors are a count that does not parse and one the input is too short for.
\<close>

definition append_list :: "(bytes \<Rightarrow> 'a \<Rightarrow> bytes) \<Rightarrow> bytes \<Rightarrow> 'a list \<Rightarrow> bytes" where
  "append_list app dst xs = foldl app (AppendUvarint dst (of_nat (length xs))) xs"

definition decode_list :: "'e \<Rightarrow> 'e \<Rightarrow> (bytes \<Rightarrow> 'e + 'a \<times> bytes) \<Rightarrow> bytes \<Rightarrow> 'e + 'a list \<times> bytes" where
  "decode_list bad exceeds dec buf =
     (case readUvarint buf of None \<Rightarrow> Inl bad
      | Some (n, buf) \<Rightarrow> if unat n > length buf then Inl exceeds else decode_n dec (unat n) buf)"

context appender
begin

lemma list_app: "dst \<noteq> [] \<Longrightarrow> append_list app dst xs = dst @ append_list app [] xs"
  by (simp add: append_list_def app_fold codec)

end

context decoder
begin

lemma list_enc:
  assumes "length xs < 2 ^ 64" "\<forall>x \<in> set xs. sized x"
  shows "decode_list bad exceeds dec (append_list app [] xs @ rest) = Inr (map canon xs, rest)"
  using decode_n_enc[OF assms(2), of rest] count_le[of xs] assms(1)
  by (simp add: decode_list_def append_list_def app_fold codec of_nat_length not_less)

end

end
