(* ===== verification/Index_Codec.thy ===== *)
theory Index_Codec
  imports Catalog Varint
begin

text \<open>
  The binary form of the index (\<^verbatim>\<open>bucketindex.go\<close>, \<^verbatim>\<open>rollup.go\<close>): the append-style encoders, the
  defensive decoder of formats 1 to 8, and that decoding what is encoded gives the index back.

  The loop bodies the code repeats inline are named here (\<open>append_string\<close>, \<open>decodeEntry\<close>, \<open>decode_list\<close>
  and so on). A decoding error is a value of \<open>DecodeError\<close>, which wraps \<^verbatim>\<open>ErrCorrupt\<close> with its message.
\<close>

datatype DecodeError = Corrupt string | UnsupportedVersion u8

definition version :: u8 where "version = 8"

subsection \<open>Blocks, intervals, claims, layouts\<close>

definition append_string :: "bytes \<Rightarrow> bytes \<Rightarrow> bytes" where
  "append_string dst p = AppendUvarint dst (of_nat (length p)) @ p"

definition read_string :: "bytes \<Rightarrow> (bytes \<times> bytes) option" where
  "read_string buf =
     (case Uvarint buf of (l, m) \<Rightarrow>
        if m \<le> 0 \<or> unat l > length buf - nat m then None
        else let buf = drop (nat m) buf in Some (take (unat l) buf, drop (unat l) buf))"

definition appendBlock :: "bytes \<Rightarrow> Block \<Rightarrow> bytes" where
  "appendBlock dst b = AppendUvarint (AppendUvarint dst (bTerm b)) (bN b)"

definition readBlock :: "bytes \<Rightarrow> (Block \<times> bytes) option" where
  "readBlock buf =
     (case readUvarint buf of None \<Rightarrow> None
      | Some (t, buf) \<Rightarrow> (case readUvarint buf of None \<Rightarrow> None | Some (n, buf) \<Rightarrow> Some (Block t n, buf)))"

definition append_gap :: "bytes \<Rightarrow> Gap \<Rightarrow> bytes" where
  "append_gap dst g = appendBlock (appendBlock dst (gMin g)) (gMax g)"

definition readGap :: "bytes \<Rightarrow> u8 \<Rightarrow> (Gap \<times> bytes) option" where
  "readGap buf ver =
     (if ver \<ge> 7 then
        (case readBlock buf of None \<Rightarrow> None
         | Some (lo, buf) \<Rightarrow> (case readBlock buf of None \<Rightarrow> None | Some (hi, buf) \<Rightarrow> Some (Gap lo hi, buf)))
      else
        (case readUvarint buf of None \<Rightarrow> None
         | Some (lo, buf) \<Rightarrow> (case readUvarint buf of None \<Rightarrow> None
            | Some (hi, buf) \<Rightarrow> Some (Gap (Block 0 lo) (Block 0 hi), buf))))"

definition appendInterval :: "bytes \<Rightarrow> Interval \<Rightarrow> bytes" where
  "appendInterval dst iv =
     (if \<not> Valid iv then AppendUvarint dst 0
      else let dst = AppendUvarint dst (bN (iMin iv));
               dst = AppendUvarint dst (bTerm (iMin iv));
               dst = AppendUvarint dst (bTerm (iMax iv) - bTerm (iMin iv));
               dst = AppendUvarint dst (bN (iMax iv));
               dst = AppendUvarint dst (of_nat (length (iGaps iv)))
           in foldl append_gap dst (iGaps iv))"

text \<open>The terms of the bounds: term 0 before version 7.\<close>

definition read_terms :: "bytes \<Rightarrow> u8 \<Rightarrow> (u64 \<times> u64 \<times> bytes) option" where
  "read_terms buf ver =
     (if ver \<ge> 7 then
        (case readUvarint buf of None \<Rightarrow> None
         | Some (t, buf) \<Rightarrow> (case readUvarint buf of None \<Rightarrow> None
            | Some (span, buf) \<Rightarrow> if span > max_u64 - t then None else Some (t, t + span, buf)))
      else Some (0, 0, buf))"

definition readInterval :: "bytes \<Rightarrow> u8 \<Rightarrow> (Interval \<times> bytes) option" where
  "readInterval buf ver =
     (case readUvarint buf of None \<Rightarrow> None
      | Some (lo, buf) \<Rightarrow>
        if ver < 6 then
          (case readUvarint buf of None \<Rightarrow> None
           | Some (hi, buf) \<Rightarrow>
             let iv = \<lparr>iMin = Block 0 lo, iMax = Block 0 hi, iGaps = []\<rparr>
             in Some (if \<not> Valid iv then unset else iv, buf))
        else if lo = 0 then Some (unset, buf)
        else
          (case read_terms buf ver of None \<Rightarrow> None
           | Some (t, t', buf) \<Rightarrow>
             (case readUvarint buf of None \<Rightarrow> None
              | Some (hi, buf) \<Rightarrow>
                (case readUvarint buf of None \<Rightarrow> None
                 | Some (n, buf) \<Rightarrow>
                   if unat n > length buf then None
                   else
                     (case read_n (\<lambda>b. readGap b ver) (unat n) buf of None \<Rightarrow> None
                      | Some (gaps, buf) \<Rightarrow>
                        let iv = \<lparr>iMin = Block t lo, iMax = Block t' hi, iGaps = gaps\<rparr>
                        in if \<not> Valid iv then None else Some (iv, buf))))))"

definition appendClaim :: "bytes \<Rightarrow> Claim \<Rightarrow> bytes" where
  "appendClaim dst c =
     (if \<not> claim_Valid c then AppendUvarint dst 0
      else appendInterval (appendInterval (AppendUvarint dst 1) (cBlocks c)) (cGroup c))"

definition readClaim :: "bytes \<Rightarrow> u8 \<Rightarrow> (Claim \<times> bytes) option" where
  "readClaim buf ver =
     (case readUvarint buf of None \<Rightarrow> None
      | Some (present, buf) \<Rightarrow>
        if present > 1 then None
        else if present = 0 then Some (no_claim, buf)
        else
          (case readInterval buf ver of None \<Rightarrow> None
           | Some (bs, buf) \<Rightarrow>
             (case readInterval buf ver of None \<Rightarrow> None
              | Some (grp, buf) \<Rightarrow>
                let c = \<lparr>cBlocks = bs, cGroup = grp\<rparr>
                in if \<not> claim_Valid c then None else Some (c, buf))))"

definition append_tier :: "bytes \<Rightarrow> RollupTier \<Rightarrow> bytes" where
  "append_tier dst t = AppendUvarint (AppendVarint (AppendVarint dst (tBefore t)) (tInterval t)) (ucast (tAgg t))"

definition read_tier :: "bytes \<Rightarrow> (RollupTier \<times> bytes) option" where
  "read_tier buf =
     (case readVarint buf of None \<Rightarrow> None
      | Some (before, buf) \<Rightarrow>
        (case readVarint buf of None \<Rightarrow> None
         | Some (interval, buf) \<Rightarrow>
           (case readUvarint buf of None \<Rightarrow> None
            | Some (agg, buf) \<Rightarrow> if agg > 255 then None else Some (RollupTier before interval (ucast agg), buf))))"

definition appendRollup :: "bytes \<Rightarrow> Rollup option \<Rightarrow> bytes" where
  "appendRollup dst r =
     (case r of None \<Rightarrow> dst
      | Some r \<Rightarrow> foldl append_tier (AppendUvarint dst (of_nat (length (Tiers r)))) (Tiers r))"

definition readRollup :: "bytes \<Rightarrow> (Rollup \<times> bytes) option" where
  "readRollup buf =
     (case readUvarint buf of None \<Rightarrow> None
      | Some (n, buf) \<Rightarrow>
        if unat n > length buf then None
        else (case read_n read_tier (unat n) buf of None \<Rightarrow> None
              | Some (tiers, buf) \<Rightarrow> Some (Rollup tiers, buf)))"


subsection \<open>Entries\<close>

definition entryFlagHole :: u64 where "entryFlagHole = 1"
definition entryFlagRollup :: u64 where "entryFlagRollup = 2"

definition entryFlags :: "Entry \<Rightarrow> u64" where
  "entryFlags e = (if eHole e then entryFlagHole else 0) OR (if eRollup e \<noteq> None then entryFlagRollup else 0)"

definition append_entry :: "bytes \<Rightarrow> Entry \<Rightarrow> bytes" where
  "append_entry dst e =
     (let dst = append_string dst (ePrefix e);
          dst = AppendVarint dst (eMinTime e);
          dst = AppendVarint dst (eMaxTime e);
          dst = appendInterval dst (eBlocks e);
          dst = AppendUvarint dst (ucast (eLevel e));
          dst = AppendUvarint dst (entryFlags e);
          dst = appendClaim dst (eClaim e);
          dst = AppendUvarint dst (eTerm e)
      in appendRollup dst (eRollup e))"

text \<open>The optional fields by version: absent ones keep their zero value.\<close>

definition read_claim_since :: "u8 \<Rightarrow> u8 \<Rightarrow> bytes \<Rightarrow> (Claim \<times> bytes) option" where
  "read_claim_since since ver buf = (if ver \<ge> since then readClaim buf ver else Some (no_claim, buf))"

definition read_uvarint_since :: "u8 \<Rightarrow> u8 \<Rightarrow> bytes \<Rightarrow> (u64 \<times> bytes) option" where
  "read_uvarint_since since ver buf = (if ver \<ge> since then readUvarint buf else Some (0, buf))"

definition read_rollup_if :: "bool \<Rightarrow> bytes \<Rightarrow> (Rollup option \<times> bytes) option" where
  "read_rollup_if present buf =
     (if present then (case readRollup buf of None \<Rightarrow> None | Some (r, buf) \<Rightarrow> Some (Some r, buf)) else Some (None, buf))"

definition decodeBlockIdentity :: "bytes \<Rightarrow> u8 \<Rightarrow> Entry \<Rightarrow> (Entry \<times> bytes) option" where
  "decodeBlockIdentity buf ver e =
     (case readInterval buf ver of None \<Rightarrow> None
      | Some (bs, buf) \<Rightarrow>
        (case readUvarint buf of None \<Rightarrow> None
         | Some (level, buf) \<Rightarrow>
           if level > 0xFFFFFFFF then None
           else
             (case readUvarint buf of None \<Rightarrow> None
              | Some (flags, buf) \<Rightarrow>
                let known = (if ver \<ge> 8 then entryFlagHole OR entryFlagRollup else entryFlagHole)
                in if flags AND NOT known \<noteq> 0 then None
                   else
                     (case read_claim_since 6 ver buf of None \<Rightarrow> None
                      | Some (c, buf) \<Rightarrow>
                        (case read_uvarint_since 7 ver buf of None \<Rightarrow> None
                         | Some (t, buf) \<Rightarrow>
                           (case read_rollup_if (flags AND entryFlagRollup \<noteq> 0) buf of None \<Rightarrow> None
                            | Some (r, buf) \<Rightarrow>
                              Some (e\<lparr>eBlocks := bs, eLevel := ucast level, eHole := (flags AND entryFlagHole \<noteq> 0),
                                      eClaim := c, eTerm := t, eRollup := r\<rparr>, buf)))))))"

definition decodeEntry :: "u8 \<Rightarrow> bytes \<Rightarrow> DecodeError + Entry \<times> bytes" where
  "decodeEntry ver buf =
     (case read_string buf of None \<Rightarrow> Inl (Corrupt ''bad prefix length'')
      | Some (p, buf) \<Rightarrow>
        (case readVarint buf of None \<Rightarrow> Inl (Corrupt ''bad min time'')
         | Some (lo, buf) \<Rightarrow>
           (case readVarint buf of None \<Rightarrow> Inl (Corrupt ''bad max time'')
            | Some (hi, buf) \<Rightarrow>
              let e = no_entry\<lparr>ePrefix := p, eMinTime := lo, eMaxTime := hi\<rparr>
              in if ver \<ge> 5 then
                   (case decodeBlockIdentity buf ver e of None \<Rightarrow> Inl (Corrupt ''bad block identity'')
                    | Some r \<Rightarrow> Inr r)
                 else Inr (e, buf))))"

definition decodeEntries :: "u8 \<Rightarrow> bytes \<Rightarrow> DecodeError + Entry list \<times> bytes" where
  "decodeEntries ver = decode_list (Corrupt ''bad count'') (Corrupt ''count exceeds input'') (decodeEntry ver)"

subsection \<open>Tombstones, watermarks, wants, catalog\<close>

definition append_removal :: "bytes \<Rightarrow> Removal \<Rightarrow> bytes" where
  "append_removal dst r =
     AppendUvarint (AppendUvarint (append_string dst (rPrefix r)) (gTerm (rGen r))) (gCounter (rGen r))"

definition decodeRemoval :: "bytes \<Rightarrow> DecodeError + Removal \<times> bytes" where
  "decodeRemoval buf =
     (case read_string buf of None \<Rightarrow> Inl (Corrupt ''bad removal prefix length'')
      | Some (p, buf) \<Rightarrow>
        (case readUvarint buf of None \<Rightarrow> Inl (Corrupt ''bad removal term'')
         | Some (t, buf) \<Rightarrow>
           (case readUvarint buf of None \<Rightarrow> Inl (Corrupt ''bad removal counter'')
            | Some (n, buf) \<Rightarrow> Inr (\<lparr>rPrefix = p, rGen = Generation t n\<rparr>, buf))))"

definition decodeRemovals :: "bytes \<Rightarrow> DecodeError + Removal list \<times> bytes" where
  "decodeRemovals = decode_list (Corrupt ''bad removal count'') (Corrupt ''removal count exceeds input'') decodeRemoval"

definition append_writer :: "bytes \<Rightarrow> WriterEpoch \<Rightarrow> bytes" where
  "append_writer dst w =
     (let dst = append_string dst (wWriter w);
          dst = AppendUvarint dst (wEpoch w)
      in AppendUvarint (AppendUvarint dst (gTerm (wGen w))) (gCounter (wGen w)))"

definition decodeWriterEpoch :: "bytes \<Rightarrow> DecodeError + WriterEpoch \<times> bytes" where
  "decodeWriterEpoch buf =
     (case read_string buf of None \<Rightarrow> Inl (Corrupt ''bad writer length'')
      | Some (p, buf) \<Rightarrow>
        (case readUvarint buf of None \<Rightarrow> Inl (Corrupt ''bad writer epoch'')
         | Some (epoch, buf) \<Rightarrow>
           (case readUvarint buf of None \<Rightarrow> Inl (Corrupt ''bad writer term'')
            | Some (t, buf) \<Rightarrow>
              (case readUvarint buf of None \<Rightarrow> Inl (Corrupt ''bad writer counter'')
               | Some (n, buf) \<Rightarrow> Inr (\<lparr>wWriter = p, wEpoch = epoch, wGen = Generation t n\<rparr>, buf)))))"

definition decodeWriterEpochs :: "bytes \<Rightarrow> DecodeError + WriterEpoch list \<times> bytes" where
  "decodeWriterEpochs = decode_list (Corrupt ''bad writer count'') (Corrupt ''writer count exceeds input'') decodeWriterEpoch"

definition append_want :: "bytes \<Rightarrow> Want \<Rightarrow> bytes" where
  "append_want dst w =
     (let dst = append_string dst (wPrefix w);
          dst = appendInterval dst (wBlocks w);
          dst = AppendUvarint dst (ucast (wLevel w));
          dst = AppendVarint dst (wMinTime w);
          dst = AppendVarint dst (wMaxTime w);
          dst = AppendUvarint dst (gTerm (wGeneration w));
          dst = AppendUvarint dst (gCounter (wGeneration w));
          dst = appendClaim dst (wClaim w)
      in AppendUvarint dst (wTerm w))"

text \<open>The fields of a want after its level, in the order they are read.\<close>

definition decode_want_rest :: "u8 \<Rightarrow> Want \<Rightarrow> bytes \<Rightarrow> DecodeError + Want \<times> bytes" where
  "decode_want_rest ver w buf =
     (case readVarint buf of None \<Rightarrow> Inl (Corrupt ''bad want min time'')
      | Some (lo, buf) \<Rightarrow>
        (case readVarint buf of None \<Rightarrow> Inl (Corrupt ''bad want max time'')
         | Some (hi, buf) \<Rightarrow>
           (case readUvarint buf of None \<Rightarrow> Inl (Corrupt ''bad want term'')
            | Some (t, buf) \<Rightarrow>
              (case readUvarint buf of None \<Rightarrow> Inl (Corrupt ''bad want counter'')
               | Some (n, buf) \<Rightarrow>
                 (case read_claim_since 6 ver buf of None \<Rightarrow> Inl (Corrupt ''bad want claim'')
                  | Some (c, buf) \<Rightarrow>
                    (case read_uvarint_since 7 ver buf of None \<Rightarrow> Inl (Corrupt ''bad want tenure'')
                     | Some (tenure, buf) \<Rightarrow>
                       Inr (w\<lparr>wMinTime := lo, wMaxTime := hi, wGeneration := Generation t n, wClaim := c,
                              wTerm := tenure\<rparr>, buf)))))))"

definition decodeWant :: "u8 \<Rightarrow> bytes \<Rightarrow> DecodeError + Want \<times> bytes" where
  "decodeWant ver buf =
     (case read_string buf of None \<Rightarrow> Inl (Corrupt ''bad want prefix length'')
      | Some (p, buf) \<Rightarrow>
        (case readInterval buf ver of None \<Rightarrow> Inl (Corrupt ''bad want blocks'')
         | Some (bs, buf) \<Rightarrow>
           (case readUvarint buf of None \<Rightarrow> Inl (Corrupt ''bad want level'')
            | Some (level, buf) \<Rightarrow>
              if level > 0xFFFFFFFF then Inl (Corrupt ''bad want level'')
              else decode_want_rest ver
                     \<lparr>wPrefix = p, wBlocks = bs, wClaim = no_claim, wLevel = ucast level, wTerm = 0,
                      wMinTime = 0, wMaxTime = 0, wGeneration = Generation 0 0\<rparr> buf)))"

definition decodeWants :: "u8 \<Rightarrow> bytes \<Rightarrow> DecodeError + Want list \<times> bytes" where
  "decodeWants ver = decode_list (Corrupt ''bad want count'') (Corrupt ''want count exceeds input'') (decodeWant ver)"

definition append_catalog_claim :: "bytes \<Rightarrow> Claim \<Rightarrow> bytes" where
  "append_catalog_claim dst c = appendInterval (appendInterval dst (cBlocks c)) (cGroup c)"

definition read_catalog_claim :: "bytes \<Rightarrow> (Claim \<times> bytes) option" where
  "read_catalog_claim buf =
     (case readInterval buf version of None \<Rightarrow> None
      | Some (bs, buf) \<Rightarrow>
        (case readInterval buf version of None \<Rightarrow> None
         | Some (grp, buf) \<Rightarrow>
           let c = \<lparr>cBlocks = bs, cGroup = grp\<rparr> in if \<not> claim_Valid c then None else Some (c, buf)))"

fun ascending :: "Claim list \<Rightarrow> bool" where
  "ascending (a # b # cs) \<longleftrightarrow> compareClaims a b < 0 \<and> ascending (b # cs)"
| "ascending _ \<longleftrightarrow> True"

definition readCatalog :: "bytes \<Rightarrow> Claim list option" where
  "readCatalog buf =
     (case readUvarint buf of None \<Rightarrow> None
      | Some (n, buf) \<Rightarrow>
        if unat n > length buf then None
        else (case read_n read_catalog_claim (unat n) buf of None \<Rightarrow> None
              | Some (out, buf) \<Rightarrow> if ascending out then Some out else None))"

subsection \<open>The index\<close>

definition magic0 :: u8 where "magic0 = 66"
definition magic1 :: u8 where "magic1 = 73"

definition AppendBinary :: "Index \<Rightarrow> bytes \<Rightarrow> bytes" where
  "AppendBinary ix dst =
     (let dst = dst @ [magic0, magic1, version];
          dst = append_list append_entry dst (Entries ix);
          dst = AppendUvarint dst (FlushedEpoch ix);
          dst = AppendUvarint dst (gTerm (IGeneration ix));
          dst = AppendUvarint dst (gCounter (IGeneration ix));
          dst = append_list append_removal dst (Removed ix);
          dst = append_list append_writer dst (Epochs ix);
          dst = append_list append_want dst (Wanted ix);
          dst = AppendUvarint dst (LostParts ix);
          dst = AppendUvarint dst (bTerm (AllocatedBlocks ix));
          dst = AppendUvarint dst (bN (AllocatedBlocks ix))
      in append_list append_catalog_claim dst (Catalog ix))"

definition decodeTail :: "Index \<Rightarrow> bytes \<Rightarrow> u8 \<Rightarrow> DecodeError + Index" where
  "decodeTail ix buf ver =
     (case decodeWants ver buf of Inl err \<Rightarrow> Inl err
      | Inr (wanted, buf) \<Rightarrow>
        (case readUvarint buf of None \<Rightarrow> Inl (Corrupt ''bad lost part count'')
         | Some (lost, buf) \<Rightarrow>
           let ix = ix\<lparr>Wanted := wanted, LostParts := lost\<rparr>
           in if ver < 6 then Inr ix
              else
                (case read_uvarint_since 7 ver buf of None \<Rightarrow> Inl (Corrupt ''bad allocated term'')
                 | Some (t, buf) \<Rightarrow>
                   (case readUvarint buf of None \<Rightarrow> Inl (Corrupt ''bad allocated blocks'')
                    | Some (n, buf) \<Rightarrow>
                      let ix = ix\<lparr>AllocatedBlocks := Block t n\<rparr>
                      in if ver < 8 then Inr ix
                         else
                           (case readCatalog buf of None \<Rightarrow> Inl (Corrupt ''bad lineage catalog'')
                            | Some cs \<Rightarrow> Inr (ix\<lparr>Catalog := cs\<rparr>))))))"

text \<open>The version 3 part (commit generation and tombstones) and what follows it.\<close>

definition decode_epochs :: "Index \<Rightarrow> bytes \<Rightarrow> u8 \<Rightarrow> DecodeError + Index" where
  "decode_epochs ix buf ver =
     (if ver < 4 then Inr ix
      else
        (case decodeWriterEpochs buf of Inl err \<Rightarrow> Inl err
         | Inr (epochs, buf) \<Rightarrow>
           let ix = ix\<lparr>Epochs := epochs\<rparr> in if ver \<ge> 5 then decodeTail ix buf ver else Inr ix))"

definition decode_generation :: "Index \<Rightarrow> bytes \<Rightarrow> u8 \<Rightarrow> DecodeError + Index" where
  "decode_generation ix buf ver =
     (if ver < 3 then Inr ix
      else
        (case readUvarint buf of None \<Rightarrow> Inl (Corrupt ''bad generation term'')
         | Some (t, buf) \<Rightarrow>
           (case readUvarint buf of None \<Rightarrow> Inl (Corrupt ''bad generation counter'')
            | Some (n, buf) \<Rightarrow>
              (case decodeRemovals buf of Inl err \<Rightarrow> Inl err
               | Inr (removed, buf) \<Rightarrow>
                 decode_epochs (ix\<lparr>IGeneration := Generation t n, Removed := removed\<rparr>) buf ver))))"

definition Decode :: "bytes \<Rightarrow> DecodeError + Index" where
  "Decode data =
     (case data of
        m0 # m1 # ver # buf \<Rightarrow>
          if m0 \<noteq> magic0 \<or> m1 \<noteq> magic1 then Inl (Corrupt ''bad magic'')
          else if ver < 1 \<or> ver > version then Inl (UnsupportedVersion ver)
          else
            (case decodeEntries ver buf of Inl err \<Rightarrow> Inl err
             | Inr (entries, buf) \<Rightarrow>
               let ix = empty_index\<lparr>Entries := entries\<rparr>
               in if ver < 2 then Inr ix
                  else
                    (case readUvarint buf of None \<Rightarrow> Inl (Corrupt ''bad flushed epoch'')
                     | Some (epoch, buf) \<Rightarrow> decode_generation (ix\<lparr>FlushedEpoch := epoch\<rparr>) buf ver))
      | _ \<Rightarrow> Inl (Corrupt ''bad magic''))"


subsection \<open>Every encoder is read back by its decoder\<close>

interpretation strc: codec append_string read_string "\<lambda>p. p" "\<lambda>p. length p < 2 ^ 64"
proof
  fix p rest :: bytes
  assume "length p < 2 ^ 64"
  then show "read_string (append_string [] p @ rest) = Some (p, rest)"
    using uv.enc_pos[of "of_nat (length p)"]
    by (simp add: read_string_def append_string_def Uvarint_enc of_nat_length Let_def)
qed (simp_all add: append_string_def uv.app_nonempty uv.app_only[symmetric] append_assoc[symmetric] del: append_assoc)

lemmas [codec] = strc.dec_enc strc.app_step strc.app_nonempty

interpretation blkc: codec appendBlock readBlock "\<lambda>b. b" "\<lambda>_. True"
proof
  show "appendBlock dst x = dst @ appendBlock [] x" for dst x
    by (cases "dst = []") (simp_all add: appendBlock_def codec)
qed (simp_all add: appendBlock_def readBlock_def codec)

lemmas [codec] = blkc.dec_enc[OF TrueI] blkc.app_step blkc.app_nonempty

interpretation gapc: codec append_gap "\<lambda>b. readGap b version" "\<lambda>g. g" "\<lambda>_. True"
proof
  show "append_gap dst x = dst @ append_gap [] x" for dst x
    by (cases "dst = []") (simp_all add: append_gap_def codec)
qed (simp_all add: append_gap_def readGap_def version_def codec)

lemmas [codec] = gapc.dec_enc[OF TrueI] gapc.app_step gapc.app_nonempty


definition canon_interval :: "Interval \<Rightarrow> Interval" where
  "canon_interval iv = (if Valid iv then iv else unset)"

definition sized_interval :: "Interval \<Rightarrow> bool" where
  "sized_interval iv \<longleftrightarrow> length (iGaps iv) < 2 ^ 64"

lemma Valid_bounds:
  assumes "Valid iv"
  shows "bN (iMin iv) \<noteq> 0" "bTerm (iMin iv) \<le> bTerm (iMax iv)"
proof -
  have "iMin iv \<le> iMax iv" "bN (iMin iv) \<noteq> 0"
    using assms sep_hd_le_last[of "runs iv"] runs_ends[of iv] Valid_runs_ok[OF assms, of "hd (runs iv)"]
    by (auto simp: Valid_iff_sep okrun_alt)
  then show "bN (iMin iv) \<noteq> 0" "bTerm (iMin iv) \<le> bTerm (iMax iv)"
    by (auto simp: less_eq_Block_def)
qed

lemma span_ok:
  fixes a b :: u64
  assumes "a \<le> b"
  shows "\<not> b - a > max_u64 - a" "a + (b - a) = b"
proof -
  have "a \<le> max_u64" "b \<le> max_u64" by simp_all
  then have "b - a \<le> max_u64 - a"
    unfolding word_le_nat_alt unat_sub[OF assms] unat_sub[OF \<open>a \<le> max_u64\<close>] by simp
  then show "\<not> b - a > max_u64 - a" by simp
qed simp

interpretation ivc: codec appendInterval "\<lambda>b. readInterval b version" canon_interval sized_interval
proof
  show "appendInterval dst x = dst @ appendInterval [] x" for dst x
    by (cases "dst = []") (simp_all add: appendInterval_def Let_def gapc.app_fold codec)
  show "appendInterval [] x \<noteq> []" for x
    by (simp add: appendInterval_def Let_def gapc.app_fold codec)
  fix iv rest
  assume sized: "sized_interval iv"
  show "readInterval (appendInterval [] iv @ rest) version = Some (canon_interval iv, rest)"
  proof (cases "Valid iv")
    case True
    note b = Valid_bounds[OF True]
    have n: "unat (of_nat (length (iGaps iv)) :: u64) = length (iGaps iv)"
      using sized by (simp add: sized_interval_def of_nat_length)
    have cnt: "\<not> length (iGaps iv) > length (concat (map (append_gap []) (iGaps iv)) @ rest)"
      using gapc.count_le[of "iGaps iv"] by simp
    have gaps: "read_n (\<lambda>b. readGap b version) (length (iGaps iv)) (concat (map (append_gap []) (iGaps iv)) @ rest) =
        Some (iGaps iv, rest)"
      using gapc.read_n_enc[of "iGaps iv" rest] by simp
    have iv: "Valid \<lparr>iMin = iMin iv, iMax = iMax iv, iGaps = iGaps iv\<rparr>" using True by (cases iv) simp
    show ?thesis
      using True b span_ok[OF b(2)] n cnt gaps iv
      by (simp add: readInterval_def appendInterval_def read_terms_def Let_def gapc.app_fold codec canon_interval_def version_def)
  qed (simp add: readInterval_def appendInterval_def codec canon_interval_def version_def)
qed

lemmas [codec] = ivc.dec_enc ivc.app_step ivc.app_nonempty


definition canon_claim :: "Claim \<Rightarrow> Claim" where
  "canon_claim c = (if claim_Valid c then c else no_claim)"

definition sized_claim :: "Claim \<Rightarrow> bool" where
  "sized_claim c \<longleftrightarrow> sized_interval (cBlocks c) \<and> sized_interval (cGroup c)"

interpretation clc: codec appendClaim "\<lambda>b. readClaim b version" canon_claim sized_claim
proof
  show "appendClaim dst x = dst @ appendClaim [] x" for dst x
    by (cases "dst = []") (simp_all add: appendClaim_def codec)
  fix c rest
  assume "sized_claim c"
  moreover have "claim_Valid c \<Longrightarrow> \<lparr>cBlocks = canon_interval (cBlocks c), cGroup = canon_interval (cGroup c)\<rparr> = c"
    by (cases c) (simp add: claim_Valid_def canon_interval_def)
  ultimately show "readClaim (appendClaim [] c @ rest) version = Some (canon_claim c, rest)"
    by (simp add: readClaim_def appendClaim_def codec canon_claim_def sized_claim_def Let_def)
qed (simp add: appendClaim_def codec)

lemmas [codec] = clc.dec_enc clc.app_step clc.app_nonempty

interpretation tierc: codec append_tier read_tier "\<lambda>t. t" "\<lambda>_. True"
proof
  show "append_tier dst x = dst @ append_tier [] x" for dst x
    by (cases "dst = []") (simp_all add: append_tier_def codec)
  fix t rest
  have "\<not> (ucast (tAgg t) :: u64) > 255" "ucast (ucast (tAgg t) :: u64) = tAgg t"
    using unsigned_less[of "tAgg t", where ?'a = nat] by (simp_all add: word_less_nat_alt unsigned_ucast_eq take_bit_eq_mod[where 'a = nat] take_bit_word_eq_self)
  then show "read_tier (append_tier [] t @ rest) = Some (t, rest)"
    by (simp add: read_tier_def append_tier_def codec)
qed (simp add: append_tier_def codec)

text \<open>A layout is optional: without one nothing is written, and nothing is read.\<close>

definition sized_rollup :: "Rollup option \<Rightarrow> bool" where
  "sized_rollup r \<longleftrightarrow> (\<forall>x. r = Some x \<longrightarrow> length (Tiers x) < 2 ^ 64)"

interpretation rollc: appender appendRollup
proof
  show "appendRollup dst x = dst @ appendRollup [] x" for dst x
    by (cases "dst = []") (simp_all add: appendRollup_def tierc.app_fold codec split: option.split)
qed

lemma appendRollup_step [codec]: "dst \<noteq> [] \<Longrightarrow> appendRollup dst r = dst @ appendRollup [] r"
  by (rule rollc.app_only)

lemma rollup_read:
  assumes "sized_rollup r"
  shows "read_rollup_if (r \<noteq> None) (appendRollup [] r @ rest) = Some (r, rest)"
proof (cases r)
  case (Some x)
  have "unat (of_nat (length (Tiers x)) :: u64) = length (Tiers x)"
    using assms Some by (simp add: sized_rollup_def of_nat_length)
  moreover have "\<not> length (Tiers x) > length (concat (map (append_tier []) (Tiers x)) @ rest)"
    using tierc.count_le[of "Tiers x"] by simp
  moreover have "read_n read_tier (length (Tiers x)) (concat (map (append_tier []) (Tiers x)) @ rest) = Some (Tiers x, rest)"
    using tierc.read_n_enc[of "Tiers x" rest] by simp
  ultimately show ?thesis
    using Some by (simp add: read_rollup_if_def readRollup_def appendRollup_def tierc.app_fold codec)
qed (simp add: read_rollup_if_def appendRollup_def)


lemma level_fits: "\<not> (ucast lv :: u64) > 0xFFFFFFFF" "ucast (ucast lv :: u64) = lv" for lv :: u32
  using unsigned_less[of lv, where ?'a = nat]
  by (simp_all add: word_less_nat_alt unsigned_ucast_eq take_bit_eq_mod[where 'a = nat] take_bit_word_eq_self)

lemma flags_known: "entryFlags e AND NOT (entryFlagHole OR entryFlagRollup) = 0"
    "entryFlags e AND entryFlagHole \<noteq> 0 \<longleftrightarrow> eHole e" "entryFlags e AND entryFlagRollup \<noteq> 0 \<longleftrightarrow> eRollup e \<noteq> None"
  by (simp_all add: entryFlags_def entryFlagHole_def entryFlagRollup_def)

definition canon_entry :: "Entry \<Rightarrow> Entry" where
  "canon_entry e = e\<lparr>eBlocks := canon_interval (eBlocks e), eClaim := canon_claim (eClaim e)\<rparr>"

definition sized_entry :: "Entry \<Rightarrow> bool" where
  "sized_entry e \<longleftrightarrow> length (ePrefix e) < 2 ^ 64 \<and> sized_interval (eBlocks e) \<and> sized_claim (eClaim e) \<and>
     sized_rollup (eRollup e)"

lemma since_version [codec]:
  "read_claim_since 6 version buf = readClaim buf version" "read_uvarint_since 7 version buf = readUvarint buf"
  by (simp_all add: read_claim_since_def read_uvarint_since_def version_def)

interpretation entc: decoder append_entry "decodeEntry version" canon_entry sized_entry
proof
  show "append_entry dst x = dst @ append_entry [] x" for dst x
    by (cases "dst = []") (simp_all add: append_entry_def Let_def codec)
  show "append_entry [] x \<noteq> []" for x
    by (simp add: append_entry_def Let_def codec)
  fix e rest
  assume sized: "sized_entry e"
  have known: "(if (8 :: u8) \<le> version then entryFlagHole OR entryFlagRollup else entryFlagHole) =
      entryFlagHole OR entryFlagRollup" "(5 :: u8) \<le> version" by (simp_all add: version_def)
  have roll: "read_rollup_if (entryFlags e AND entryFlagRollup \<noteq> 0) (appendRollup [] (eRollup e) @ rest) = Some (eRollup e, rest)"
    using rollup_read sized by (simp add: flags_known(3) sized_entry_def)
  have upd: "no_entry\<lparr>ePrefix := ePrefix e, eMinTime := eMinTime e, eMaxTime := eMaxTime e,
      eBlocks := canon_interval (eBlocks e), eLevel := eLevel e, eHole := eHole e,
      eClaim := canon_claim (eClaim e), eTerm := eTerm e, eRollup := eRollup e\<rparr> = canon_entry e"
    by (cases e) (simp add: no_entry_def canon_entry_def)
  show "decodeEntry version (append_entry [] e @ rest) = Inr (canon_entry e, rest)"
    using sized roll
    by (simp add: sized_entry_def append_entry_def decodeEntry_def decodeBlockIdentity_def Let_def codec known
        flags_known flags_known(1)[unfolded bit.de_Morgan_disj] level_fits upd)
qed


definition sized_removal :: "Removal \<Rightarrow> bool" where
  "sized_removal r \<longleftrightarrow> length (rPrefix r) < 2 ^ 64"

interpretation remc: decoder append_removal decodeRemoval "\<lambda>r. r" sized_removal
proof
  show "append_removal dst x = dst @ append_removal [] x" for dst x
    by (cases "dst = []") (simp_all add: append_removal_def codec)
qed (simp_all add: append_removal_def decodeRemoval_def sized_removal_def codec)

definition sized_writer :: "WriterEpoch \<Rightarrow> bool" where
  "sized_writer w \<longleftrightarrow> length (wWriter w) < 2 ^ 64"

interpretation wric: decoder append_writer decodeWriterEpoch "\<lambda>w. w" sized_writer
proof
  show "append_writer dst x = dst @ append_writer [] x" for dst x
    by (cases "dst = []") (simp_all add: append_writer_def Let_def codec)
qed (simp_all add: append_writer_def decodeWriterEpoch_def sized_writer_def Let_def codec)

definition canon_want :: "Want \<Rightarrow> Want" where
  "canon_want w = w\<lparr>wBlocks := canon_interval (wBlocks w), wClaim := canon_claim (wClaim w)\<rparr>"

definition sized_want :: "Want \<Rightarrow> bool" where
  "sized_want w \<longleftrightarrow> length (wPrefix w) < 2 ^ 64 \<and> sized_interval (wBlocks w) \<and> sized_claim (wClaim w)"

interpretation wanc: decoder append_want "decodeWant version" canon_want sized_want
proof
  show "append_want dst x = dst @ append_want [] x" for dst x
    by (cases "dst = []") (simp_all add: append_want_def Let_def codec)
  fix w rest
  assume "sized_want w"
  moreover have "\<lparr>wPrefix = wPrefix w, wBlocks = canon_interval (wBlocks w), wClaim = canon_claim (wClaim w), wLevel = wLevel w,
      wTerm = wTerm w, wMinTime = wMinTime w, wMaxTime = wMaxTime w, wGeneration = wGeneration w\<rparr> = canon_want w"
    by (cases w) (simp add: canon_want_def)
  ultimately show "decodeWant version (append_want [] w @ rest) = Inr (canon_want w, rest)"
    by (simp add: sized_want_def append_want_def decodeWant_def decode_want_rest_def Let_def codec level_fits)
qed (simp add: append_want_def Let_def codec)

definition sized_catalog_claim :: "Claim \<Rightarrow> bool" where
  "sized_catalog_claim c \<longleftrightarrow> claim_Valid c \<and> sized_claim c"

interpretation catc: codec append_catalog_claim read_catalog_claim "\<lambda>c. c" sized_catalog_claim
proof
  show "append_catalog_claim dst x = dst @ append_catalog_claim [] x" for dst x
    by (cases "dst = []") (simp_all add: append_catalog_claim_def codec)
  fix c rest
  assume "sized_catalog_claim c"
  moreover from this have "\<lparr>cBlocks = canon_interval (cBlocks c), cGroup = canon_interval (cGroup c)\<rparr> = c"
    by (cases c) (simp add: claim_Valid_def canon_interval_def sized_catalog_claim_def)
  ultimately show "read_catalog_claim (append_catalog_claim [] c @ rest) = Some (c, rest)"
    by (simp add: read_catalog_claim_def append_catalog_claim_def codec sized_catalog_claim_def sized_claim_def Let_def)
qed (simp add: append_catalog_claim_def codec)

lemma ascending_iff: "ascending cs \<longleftrightarrow> cat.asc cs"
proof (induction cs rule: ascending.induct)
  case (1 a b cs)
  then show ?case by (auto simp: cat.cmp_neg intro: less_trans)
qed simp_all

lemma ascending_catalog: "catalog_ok cs \<Longrightarrow> ascending cs"
  by (simp add: ascending_iff catalog_ok_def)


lemmas [codec] = remc.list_enc wric.list_enc wanc.list_enc entc.list_enc
  remc.list_app wric.list_app wanc.list_app entc.list_app catc.list_app

lemma catalog_read:
  assumes "catalog_ok cs" "length cs < 2 ^ 64" "\<forall>c \<in> set cs. sized_claim c"
  shows "readCatalog (append_list append_catalog_claim [] cs) = Some cs"
proof -
  have "\<forall>c \<in> set cs. sized_catalog_claim c" using assms by (auto simp: sized_catalog_claim_def catalog_ok_def)
  from catc.read_n_enc[OF this, of "[]"] show ?thesis
    using assms(2) ascending_catalog[OF assms(1)] catc.count_le[of cs]
    by (simp add: readCatalog_def append_list_def catc.app_fold codec of_nat_length not_less)
qed

subsection \<open>The index is read back\<close>

definition canon_index :: "Index \<Rightarrow> Index" where
  "canon_index ix = ix\<lparr>Entries := map canon_entry (Entries ix), Wanted := map canon_want (Wanted ix)\<rparr>"

text \<open>Everything fits the 64-bit counts it is written with.\<close>

definition sized_index :: "Index \<Rightarrow> bool" where
  "sized_index ix \<longleftrightarrow>
     length (Entries ix) < 2 ^ 64 \<and> (\<forall>e \<in> set (Entries ix). sized_entry e) \<and>
     length (Removed ix) < 2 ^ 64 \<and> (\<forall>r \<in> set (Removed ix). sized_removal r) \<and>
     length (Epochs ix) < 2 ^ 64 \<and> (\<forall>w \<in> set (Epochs ix). sized_writer w) \<and>
     length (Wanted ix) < 2 ^ 64 \<and> (\<forall>w \<in> set (Wanted ix). sized_want w) \<and>
     length (Catalog ix) < 2 ^ 64 \<and> (\<forall>c \<in> set (Catalog ix). sized_claim c)"

lemma Decode_AppendBinary:
  assumes "sized_index ix" "catalog_ok (Catalog ix)"
  shows "Decode (AppendBinary ix []) = Inr (canon_index ix)"
proof -
  have ver: "\<not> version < 1" "\<not> version < 2" "\<not> version < 3" "\<not> version < 4" "\<not> version < 6" "\<not> version < 8" "5 \<le> version" "version \<noteq> 0"
    by (simp_all add: version_def)
  have fin: "\<lparr>Entries = map canon_entry (Entries ix), FlushedEpoch = FlushedEpoch ix, IGeneration = IGeneration ix,
      Removed = Removed ix, Epochs = Epochs ix, Wanted = map canon_want (Wanted ix), LostParts = LostParts ix,
      AllocatedBlocks = AllocatedBlocks ix, Catalog = Catalog ix\<rparr> = canon_index ix"
    by (cases ix) (simp add: canon_index_def)
  show ?thesis
    using assms(1) catalog_read[OF assms(2)]
    by (simp add: Decode_def AppendBinary_def Let_def codec sized_index_def ver decodeEntries_def decodeRemovals_def
        decodeWriterEpochs_def decodeWants_def decode_generation_def decode_epochs_def decodeTail_def empty_index_def fin)
qed


lemma AppendBinary_canon: "AppendBinary (canon_index ix) dst = AppendBinary ix dst"
proof -
  have iv: "appendInterval d (canon_interval iv) = appendInterval d iv" for d iv
    by (simp add: appendInterval_def canon_interval_def)
  have cl: "appendClaim d (canon_claim c) = appendClaim d c" for d c
    by (simp add: appendClaim_def canon_claim_def no_claim_def claim_Valid_def)
  have "append_entry d (canon_entry e) = append_entry d e" "append_want d (canon_want w) = append_want d w" for d e w
    by (simp_all add: append_entry_def append_want_def canon_entry_def canon_want_def entryFlags_def Let_def iv cl)
  then have "append_list append_entry d (map canon_entry es) = append_list append_entry d es"
    "append_list append_want d (map canon_want ws) = append_list append_want d ws" for d es ws
    by (simp_all add: append_list_def foldl_map)
  then show ?thesis by (simp add: AppendBinary_def canon_index_def Let_def)
qed

subsection \<open>Whatever is decoded is canonical\<close>

text \<open>
  The decoder's output is in the form the encoder writes, whatever bytes it was given; inputs are
  taken to be shorter than the 64-bit counts can express.
\<close>

definition short :: "bytes \<Rightarrow> bool" where
  "short buf \<longleftrightarrow> length buf < 2 ^ 64"

lemma short_reads:
  "readUvarint buf = Some (v, rest) \<Longrightarrow> short buf \<Longrightarrow> short rest"
  "readVarint buf = Some (t, rest) \<Longrightarrow> short buf \<Longrightarrow> short rest"
  "read_string buf = Some (p, rest) \<Longrightarrow> short buf \<Longrightarrow> short rest \<and> length p < 2 ^ 64"
  by (auto simp: readUvarint_def readVarint_def read_string_def short_def Let_def split: prod.splits if_splits)

lemma short_block: "readBlock buf = Some (b, rest) \<Longrightarrow> short buf \<Longrightarrow> short rest"
  by (auto simp: readBlock_def split: option.splits dest!: short_reads)

lemma short_gap: "readGap buf ver = Some (g, rest) \<Longrightarrow> short buf \<Longrightarrow> short rest"
  by (auto simp: readGap_def split: option.splits if_splits dest!: short_reads short_block)

lemma read_n_all:
  assumes "\<And>buf x rest. dec buf = Some (x, rest) \<Longrightarrow> short buf \<Longrightarrow> short rest \<and> P x"
  shows "read_n dec n buf = Some (xs, rest) \<Longrightarrow> short buf \<Longrightarrow> short rest \<and> length xs = n \<and> (\<forall>x \<in> set xs. P x)"
proof (induction n arbitrary: buf xs)
  case (Suc n)
  then show ?case using assms by (fastforce split: option.splits)
qed simp

lemma decode_n_all:
  assumes "\<And>buf x rest. dec buf = Inr (x, rest) \<Longrightarrow> short buf \<Longrightarrow> short rest \<and> P x"
  shows "decode_n dec n buf = Inr (xs, rest) \<Longrightarrow> short buf \<Longrightarrow> short rest \<and> length xs = n \<and> (\<forall>x \<in> set xs. P x)"
proof (induction n arbitrary: buf xs)
  case (Suc n)
  then show ?case using assms by (fastforce split: sum.splits)
qed simp

lemma decode_list_all:
  assumes "\<And>buf x rest. dec buf = Inr (x, rest) \<Longrightarrow> short buf \<Longrightarrow> short rest \<and> P x"
    and "decode_list bad exceeds dec buf = Inr (xs, rest)" "short buf"
  shows "short rest \<and> length xs < 2 ^ 64 \<and> (\<forall>x \<in> set xs. P x)"
proof -
  obtain n buf' where n: "readUvarint buf = Some (n, buf')" "\<not> unat n > length buf'" "decode_n dec (unat n) buf' = Inr (xs, rest)"
    using assms(2) by (auto simp: decode_list_def split: option.splits if_splits)
  have "short buf'" using short_reads(1)[OF n(1) assms(3)] .
  from decode_n_all[of dec P, OF assms(1) n(3) this] n(2) \<open>short buf'\<close> show ?thesis by (simp add: short_def)
qed


lemma short_terms: "read_terms buf ver = Some (t, t', rest) \<Longrightarrow> short buf \<Longrightarrow> short rest"
  by (auto simp: read_terms_def split: option.splits if_splits dest!: short_reads)

definition good_interval :: "Interval \<Rightarrow> bool" where
  "good_interval iv \<longleftrightarrow> canon_interval iv = iv \<and> sized_interval iv"

definition good_claim :: "Claim \<Rightarrow> bool" where
  "good_claim c \<longleftrightarrow> canon_claim c = c \<and> sized_claim c"

lemma good_unset: "good_interval unset" "good_claim no_claim"
  by (simp_all add: good_interval_def good_claim_def canon_interval_def canon_claim_def sized_interval_def sized_claim_def
      unset_def no_claim_def)

lemma good_Interval:
  assumes "readInterval buf ver = Some (iv, rest)" "short buf"
  shows "short rest \<and> good_interval iv"
proof -
  obtain lo b1 where 1: "readUvarint buf = Some (lo, b1)" using assms(1) by (auto simp: readInterval_def split: option.splits)
  note s1 = short_reads(1)[OF 1 assms(2)]
  consider (old) "ver < 6" | (unset) "\<not> ver < 6" "lo = 0" | (set) "\<not> ver < 6" "lo \<noteq> 0" by blast
  then show ?thesis
  proof cases
    case old
    then obtain hi where "readUvarint b1 = Some (hi, rest)"
      "iv = unset \<or> Valid iv \<and> iGaps iv = []"
      using assms(1) 1 by (auto simp: readInterval_def Let_def split: option.splits if_splits)
    then show ?thesis using short_reads(1)[OF _ s1] good_unset(1) by (auto simp: good_interval_def canon_interval_def sized_interval_def)
  next
    case unset
    then show ?thesis using assms(1) 1 s1 good_unset(1) by (simp add: readInterval_def)
  next
    case set
    then obtain t t' b2 hi b3 n b4 gaps where r: "read_terms b1 ver = Some (t, t', b2)" "readUvarint b2 = Some (hi, b3)"
      "readUvarint b3 = Some (n, b4)" "\<not> unat n > length b4" "read_n (\<lambda>b. readGap b ver) (unat n) b4 = Some (gaps, rest)"
      "Valid iv" "iGaps iv = gaps"
      using assms(1) 1 by (auto simp: readInterval_def Let_def split: option.splits if_splits)
    have s4: "short b4" using short_reads(1)[OF r(3) short_reads(1)[OF r(2) short_terms[OF r(1) s1]]] .
    have "short rest \<and> length gaps = unat n"
      using read_n_all[of "\<lambda>b. readGap b ver" "\<lambda>_. True", OF _ r(5) s4] short_gap by blast
    then show ?thesis using r(4,6,7) s4 by (simp add: good_interval_def canon_interval_def sized_interval_def short_def)
  qed
qed

lemma good_Claim:
  assumes "readClaim buf ver = Some (c, rest)" "short buf"
  shows "short rest \<and> good_claim c"
proof -
  obtain present b1 where 1: "readUvarint buf = Some (present, b1)" using assms(1) by (auto simp: readClaim_def split: option.splits)
  note s1 = short_reads(1)[OF 1 assms(2)]
  show ?thesis
  proof (cases "present = 0")
    case True
    then show ?thesis using assms(1) 1 s1 good_unset(2) by (auto simp: readClaim_def)
  next
    case False
    then obtain b2 where r: "readInterval b1 ver = Some (cBlocks c, b2)" "readInterval b2 ver = Some (cGroup c, rest)" "claim_Valid c"
      using assms(1) 1 by (auto simp: readClaim_def Let_def split: option.splits if_splits)
    then show ?thesis
      using good_Interval[OF r(1) s1] good_Interval[OF r(2)]
      by (simp add: good_claim_def good_interval_def canon_claim_def sized_claim_def)
  qed
qed

lemma short_tier: "read_tier buf = Some (t, rest) \<Longrightarrow> short buf \<Longrightarrow> short rest"
  by (auto simp: read_tier_def split: option.splits if_splits dest!: short_reads)

lemma good_Rollup: "read_rollup_if present buf = Some (r, rest) \<Longrightarrow> short buf \<Longrightarrow> short rest \<and> sized_rollup r"
proof (cases present)
  case True
  assume a: "read_rollup_if present buf = Some (r, rest)" "short buf"
  then obtain n b1 tiers where r: "readUvarint buf = Some (n, b1)" "\<not> unat n > length b1"
    "read_n read_tier (unat n) b1 = Some (tiers, rest)" "r = Some (Rollup tiers)"
    using True by (auto simp: read_rollup_if_def readRollup_def split: option.splits if_splits)
  have s: "short b1" using short_reads(1)[OF r(1) a(2)] .
  have "short rest \<and> length tiers = unat n"
    using read_n_all[of read_tier "\<lambda>_. True", OF _ r(3) s] short_tier by blast
  then show ?thesis using r(2,4) s by (simp add: sized_rollup_def short_def)
qed (auto simp: read_rollup_if_def sized_rollup_def)


definition good_entry :: "Entry \<Rightarrow> bool" where
  "good_entry e \<longleftrightarrow> canon_entry e = e \<and> sized_entry e"

definition good_want :: "Want \<Rightarrow> bool" where
  "good_want w \<longleftrightarrow> canon_want w = w \<and> sized_want w"

lemma good_claim_since: "read_claim_since v ver buf = Some (c, rest) \<Longrightarrow> short buf \<Longrightarrow> short rest \<and> good_claim c"
  using good_Claim[of buf ver c rest] good_unset(2) by (auto simp: read_claim_since_def split: if_splits)

lemma short_uvarint_since: "read_uvarint_since v ver buf = Some (n, rest) \<Longrightarrow> short buf \<Longrightarrow> short rest"
  using short_reads(1)[of buf n rest] by (auto simp: read_uvarint_since_def split: if_splits)

lemma good_identity:
  assumes "decodeBlockIdentity buf ver e = Some (e', rest)" "short buf"
  shows "short rest \<and> good_interval (eBlocks e') \<and> good_claim (eClaim e') \<and> sized_rollup (eRollup e') \<and> ePrefix e' = ePrefix e"
proof -
  obtain bs b1 lv b2 fl b3 c b4 t b5 r where r:
    "readInterval buf ver = Some (bs, b1)" "readUvarint b1 = Some (lv, b2)" "readUvarint b2 = Some (fl, b3)"
    "read_claim_since 6 ver b3 = Some (c, b4)" "read_uvarint_since 7 ver b4 = Some (t, b5)"
    "read_rollup_if (fl AND entryFlagRollup \<noteq> 0) b5 = Some (r, rest)"
    "e' = e\<lparr>eBlocks := bs, eLevel := ucast lv, eHole := (fl AND entryFlagHole \<noteq> 0), eClaim := c, eTerm := t, eRollup := r\<rparr>"
    using assms(1) by (auto simp: decodeBlockIdentity_def Let_def split: option.splits if_splits)
  note g1 = good_Interval[OF r(1) assms(2)]
  have s3: "short b3" using short_reads(1)[OF r(3)] short_reads(1)[OF r(2)] g1 by blast
  note g2 = good_claim_since[OF r(4) s3]
  have "short b5" using short_uvarint_since[OF r(5)] g2 by blast
  from good_Rollup[OF r(6) this] show ?thesis using g1 g2 r(7) by simp
qed

lemma good_Entry:
  assumes "decodeEntry ver buf = Inr (e, rest)" "short buf"
  shows "short rest \<and> good_entry e"
proof -
  obtain p b1 lo b2 hi b3 where r: "read_string buf = Some (p, b1)" "readVarint b1 = Some (lo, b2)" "readVarint b2 = Some (hi, b3)"
    using assms(1) by (auto simp: decodeEntry_def split: option.splits)
  have s: "short b3" "length p < 2 ^ 64"
    using short_reads(2)[OF r(3)] short_reads(2)[OF r(2)] short_reads(3)[OF r(1) assms(2)] by blast+
  let ?e = "no_entry\<lparr>ePrefix := p, eMinTime := lo, eMaxTime := hi\<rparr>"
  show ?thesis
  proof (cases "ver \<ge> 5")
    case True
    then have "decodeBlockIdentity b3 ver ?e = Some (e, rest)"
      using assms(1) r by (auto simp: decodeEntry_def Let_def split: option.splits)
    from good_identity[OF this s(1)] s(2) show ?thesis
      by (simp add: good_entry_def canon_entry_def sized_entry_def good_interval_def good_claim_def)
  next
    case False
    then have "e = ?e" "rest = b3" using assms(1) r by (auto simp: decodeEntry_def Let_def)
    then show ?thesis using s good_unset
      by (simp add: good_entry_def canon_entry_def sized_entry_def no_entry_def good_interval_def good_claim_def sized_rollup_def)
  qed
qed

lemma good_Want:
  assumes "decodeWant ver buf = Inr (w, rest)" "short buf"
  shows "short rest \<and> good_want w"
proof -
  obtain p b1 bs b2 lv b3 where r: "read_string buf = Some (p, b1)" "readInterval b1 ver = Some (bs, b2)" "readUvarint b2 = Some (lv, b3)"
    and rest: "decode_want_rest ver \<lparr>wPrefix = p, wBlocks = bs, wClaim = no_claim, wLevel = ucast lv, wTerm = 0,
                      wMinTime = 0, wMaxTime = 0, wGeneration = Generation 0 0\<rparr> b3 = Inr (w, rest)"
    using assms(1) by (auto simp: decodeWant_def split: option.splits if_splits)
  note p = short_reads(3)[OF r(1) assms(2)]
  note g = good_Interval[OF r(2) conjunct1[OF p]]
  have s3: "short b3" using short_reads(1)[OF r(3)] g by blast
  obtain lo b4 hi b5 t b6 n b7 c b8 where q: "readVarint b3 = Some (lo, b4)" "readVarint b4 = Some (hi, b5)"
    "readUvarint b5 = Some (t, b6)" "readUvarint b6 = Some (n, b7)" "read_claim_since 6 ver b7 = Some (c, b8)"
    "\<exists>u. read_uvarint_since 7 ver b8 = Some (u, rest)" "wPrefix w = p" "wBlocks w = bs" "wClaim w = c"
    using rest by (auto simp: decode_want_rest_def split: option.splits)
  have s7: "short b7"
    using short_reads(1)[OF q(4)] short_reads(1)[OF q(3)] short_reads(2)[OF q(2)] short_reads(2)[OF q(1) s3] by blast
  note gc = good_claim_since[OF q(5) s7]
  show ?thesis
    using short_uvarint_since q(6-9) gc g p
    by (auto simp: good_want_def canon_want_def sized_want_def good_interval_def good_claim_def)
qed


lemma good_Catalog:
  assumes "readCatalog buf = Some cs" "short buf"
  shows "catalog_ok cs \<and> length cs < 2 ^ 64 \<and> (\<forall>c \<in> set cs. sized_claim c)"
proof -
  obtain n b1 rest where r: "readUvarint buf = Some (n, b1)" "\<not> unat n > length b1"
    "read_n read_catalog_claim (unat n) b1 = Some (cs, rest)" "ascending cs"
    using assms(1) by (auto simp: readCatalog_def split: option.splits if_splits)
  have s: "short b1" using short_reads(1)[OF r(1) assms(2)] .
  have one: "short rest' \<and> claim_Valid c \<and> sized_claim c" if a: "read_catalog_claim b = Some (c, rest')" "short b" for b c rest'
  proof -
    obtain b2 where q: "readInterval b version = Some (cBlocks c, b2)" "readInterval b2 version = Some (cGroup c, rest')" "claim_Valid c"
      using a(1) by (auto simp: read_catalog_claim_def Let_def split: option.splits if_splits)
    then show ?thesis
      using good_Interval[OF q(1) a(2)] good_Interval[OF q(2)] by (simp add: sized_claim_def good_interval_def)
  qed
  have "short rest \<and> length cs = unat n \<and> (\<forall>c \<in> set cs. claim_Valid c \<and> sized_claim c)"
    using read_n_all[of read_catalog_claim "\<lambda>c. claim_Valid c \<and> sized_claim c", OF _ r(3) s] one by blast
  then show ?thesis using r(2,4) s by (simp add: catalog_ok_def ascending_iff short_def)
qed

definition good_index :: "Index \<Rightarrow> bool" where
  "good_index ix \<longleftrightarrow> canon_index ix = ix \<and> sized_index ix \<and> catalog_ok (Catalog ix)"

lemma canon_index_iff: "canon_index ix = ix \<longleftrightarrow>
    (\<forall>e \<in> set (Entries ix). canon_entry e = e) \<and> (\<forall>w \<in> set (Wanted ix). canon_want w = w)"
proof -
  have "map f xs = xs \<longleftrightarrow> (\<forall>x \<in> set xs. f x = x)" for f :: "Want \<Rightarrow> Want" and xs by (induction xs) auto
  moreover have "map f xs = xs \<longleftrightarrow> (\<forall>x \<in> set xs. f x = x)" for f :: "Entry \<Rightarrow> Entry" and xs by (induction xs) auto
  ultimately show ?thesis by (cases ix) (simp add: canon_index_def)
qed

lemma good_Removal: "decodeRemoval buf = Inr (r, rest) \<Longrightarrow> short buf \<Longrightarrow> short rest \<and> sized_removal r"
  by (auto simp: decodeRemoval_def sized_removal_def split: option.splits dest!: short_reads)

lemma good_Writer: "decodeWriterEpoch buf = Inr (w, rest) \<Longrightarrow> short buf \<Longrightarrow> short rest \<and> sized_writer w"
  by (auto simp: decodeWriterEpoch_def sized_writer_def split: option.splits dest!: short_reads)

lemma good_Tail:
  assumes "decodeTail ix buf ver = Inr ix'" "short buf" "good_index ix"
  shows "good_index ix'"
proof -
  obtain ws b1 lost b2 where r: "decodeWants ver buf = Inr (ws, b1)" "readUvarint b1 = Some (lost, b2)"
    using assms(1) by (auto simp: decodeTail_def split: sum.splits option.splits)
  have w: "short b1" "length ws < 2 ^ 64" "\<forall>w \<in> set ws. good_want w"
    using decode_list_all[of "decodeWant ver" good_want, OF _ r(1)[unfolded decodeWants_def] assms(2)] good_Want by blast+
  let ?ix = "ix\<lparr>Wanted := ws, LostParts := lost\<rparr>"
  have g: "good_index ?ix"
    using assms(3) w by (simp add: good_index_def canon_index_iff sized_index_def good_want_def)
  show ?thesis
  proof (cases "ver < 6")
    case True
    then show ?thesis using assms(1) r g by (simp add: decodeTail_def)
  next
    case False
    then obtain t b3 n b4 where q: "read_uvarint_since 7 ver b2 = Some (t, b3)" "readUvarint b3 = Some (n, b4)"
      "ix' = ?ix\<lparr>AllocatedBlocks := Block t n\<rparr> \<or>
       (\<exists>cs. readCatalog b4 = Some cs \<and> ix' = ?ix\<lparr>AllocatedBlocks := Block t n, Catalog := cs\<rparr>)"
      using assms(1) r by (auto simp: decodeTail_def Let_def split: option.splits if_splits)
    have "short b4" using short_reads(1)[OF q(2)] short_uvarint_since[OF q(1)] short_reads(1)[OF r(2) w(1)] by blast
    then show ?thesis
      using q(3) g good_Catalog by (auto simp: good_index_def canon_index_iff sized_index_def)
  qed
qed

lemma good_Epochs:
  assumes "decode_epochs ix buf ver = Inr ix'" "short buf" "good_index ix"
  shows "good_index ix'"
proof (cases "ver < 4")
  case False
  then obtain es b1 where r: "decodeWriterEpochs buf = Inr (es, b1)"
    "(if ver \<ge> 5 then decodeTail (ix\<lparr>Epochs := es\<rparr>) b1 ver else Inr (ix\<lparr>Epochs := es\<rparr>)) = Inr ix'"
    using assms(1) by (auto simp: decode_epochs_def Let_def split: sum.splits)
  have w: "short b1" "length es < 2 ^ 64" "\<forall>w \<in> set es. sized_writer w"
    using decode_list_all[of decodeWriterEpoch sized_writer, OF _ r(1)[unfolded decodeWriterEpochs_def] assms(2)] good_Writer by blast+
  then have "good_index (ix\<lparr>Epochs := es\<rparr>)"
    using assms(3) by (simp add: good_index_def canon_index_iff sized_index_def)
  then show ?thesis using good_Tail[OF _ w(1)] r(2) by (auto split: if_splits)
qed (use assms in \<open>simp add: decode_epochs_def\<close>)

lemma good_Generation:
  assumes "decode_generation ix buf ver = Inr ix'" "short buf" "good_index ix"
  shows "good_index ix'"
proof (cases "ver < 3")
  case False
  then obtain t b1 n b2 rs b3 where r: "readUvarint buf = Some (t, b1)" "readUvarint b1 = Some (n, b2)" "decodeRemovals b2 = Inr (rs, b3)"
    "decode_epochs (ix\<lparr>IGeneration := Generation t n, Removed := rs\<rparr>) b3 ver = Inr ix'"
    using assms(1) by (auto simp: decode_generation_def split: sum.splits option.splits)
  have s2: "short b2" using short_reads(1)[OF r(2)] short_reads(1)[OF r(1) assms(2)] by blast
  have w: "short b3" "length rs < 2 ^ 64" "\<forall>w \<in> set rs. sized_removal w"
    using decode_list_all[of decodeRemoval sized_removal, OF _ r(3)[unfolded decodeRemovals_def] s2] good_Removal by blast+
  then have "good_index (ix\<lparr>IGeneration := Generation t n, Removed := rs\<rparr>)"
    using assms(3) by (simp add: good_index_def canon_index_iff sized_index_def)
  then show ?thesis using good_Epochs[OF r(4) w(1)] by blast
qed (use assms in \<open>simp add: decode_generation_def\<close>)

lemma Decode_good:
  assumes "Decode data = Inr ix" "short data"
  shows "good_index ix"
proof -
  obtain ver buf es b1 where d: "data = magic0 # magic1 # ver # buf" "decodeEntries ver buf = Inr (es, b1)"
    using assms(1) by (auto simp: Decode_def split: list.splits if_splits sum.splits)
  have "short buf" using assms(2) d(1) by (simp add: short_def)
  then have w: "short b1" "length es < 2 ^ 64" "\<forall>e \<in> set es. good_entry e"
    using decode_list_all[of "decodeEntry ver" good_entry, OF _ d(2)[unfolded decodeEntries_def]] good_Entry by blast+
  have g: "good_index (empty_index\<lparr>Entries := es, FlushedEpoch := n\<rparr>)" for n
    using w by (simp add: good_index_def canon_index_iff sized_index_def good_entry_def empty_index_def catalog_ok_def)
  have g0: "good_index (empty_index\<lparr>Entries := es\<rparr>)"
    using g[of 0] by (simp add: empty_index_def)
  show ?thesis
  proof (cases "ver < 2")
    case True
    then show ?thesis using assms(1) d g0 by (simp add: Decode_def split: if_splits)
  next
    case False
    then obtain n b2 where "readUvarint b1 = Some (n, b2)" "decode_generation (empty_index\<lparr>Entries := es, FlushedEpoch := n\<rparr>) b2 ver = Inr ix"
      using assms(1) d by (auto simp: Decode_def split: if_splits option.splits)
    then show ?thesis using good_Generation[OF _ _ g] short_reads(1)[OF _ w(1)] by blast
  qed
qed


subsection \<open>Properties of the codec\<close>

text \<open>C20. Decoding an encoded index gives it back, with every interval and claim in canonical form (an
  unset one where the index held none), and encoding that again gives the same bytes.\<close>

theorem index_round_trip:
  assumes "sized_index ix" "catalog_ok (Catalog ix)"
  shows "Decode (AppendBinary ix []) = Inr (canon_index ix) \<and> AppendBinary (canon_index ix) [] = AppendBinary ix []"
  using Decode_AppendBinary[OF assms] AppendBinary_canon by simp

theorem index_round_trip_witness:
  "let ix = empty_index\<lparr>Entries := [no_entry\<lparr>ePrefix := [97], eMinTime := - 5, eBlocks := TermBlocks 2 [1, 3], eHole := True,
       eRollup := Some (Rollup [RollupTier 7 60 1])\<rparr>], Catalog := [ex_split], AllocatedBlocks := Block 2 3\<rparr>
   in Decode (AppendBinary ix []) = Inr ix"
proof -
  let ?e = "no_entry\<lparr>ePrefix := [97], eMinTime := - 5, eBlocks := TermBlocks 2 [1, 3], eHole := True,
       eRollup := Some (Rollup [RollupTier 7 60 1])\<rparr>"
  let ?ix = "empty_index\<lparr>Entries := [?e], Catalog := [ex_split], AllocatedBlocks := Block 2 3\<rparr>"
  have "length (iGaps (TermBlocks 2 [1, 3])) = 1" by code_simp
  then have "sized_index ?ix"
    by (simp add: sized_index_def sized_entry_def sized_interval_def sized_claim_def sized_rollup_def no_entry_def
        empty_index_def no_claim_def unset_def ex_split_def Single_def Range_def)
  moreover have "catalog_ok (Catalog ?ix)"
    by (simp add: catalog_ok_def ex_split_def claim_Valid_def Single_props Range_props)
  moreover have "canon_index ?ix = ?ix"
    by (simp add: canon_index_iff canon_entry_def canon_interval_def canon_claim_def TermBlocks_props no_entry_def
        no_claim_def claim_Valid_def empty_index_def)
  ultimately show ?thesis using index_round_trip[of ?ix] by (simp add: Let_def)
qed

text \<open>C21. Whatever bytes it is given, of any of the eight formats, the decoder either refuses them or
  returns an index in canonical form: every interval valid or unset, every claim valid or absent, the
  catalog strictly sorted; and that index survives being written and read again.\<close>

theorem decoded_index_is_canonical:
  assumes "Decode data = Inr ix" "length data < 2 ^ 64"
  shows "canon_index ix = ix \<and> catalog_ok (Catalog ix) \<and> Decode (AppendBinary ix []) = Inr ix"
  using Decode_good[OF assms(1)] assms(2) Decode_AppendBinary[of ix] by (auto simp: good_index_def short_def)

theorem decoded_index_is_canonical_witness:
  "Decode [66, 73, 5, 1, 1, 97, 2, 4, 9, 3, 0, 0, 0, 0, 0, 0, 0, 0, 0] =
     Inr (empty_index\<lparr>Entries := [no_entry\<lparr>ePrefix := [97], eMinTime := 1, eMaxTime := 2\<rparr>]\<rparr>) \<and>
   catalog_ok (Catalog (empty_index\<lparr>Entries := [no_entry\<lparr>ePrefix := [97], eMinTime := 1, eMaxTime := 2\<rparr>]\<rparr>))"
proof -
  have "Decode [66, 73, 5, 1, 1, 97, 2, 4, 9, 3, 0, 0, 0, 0, 0, 0, 0, 0, 0] =
     Inr (empty_index\<lparr>Entries := [no_entry\<lparr>ePrefix := [97], eMinTime := 1, eMaxTime := 2\<rparr>]\<rparr>)" by code_simp
  from decoded_index_is_canonical[OF this] this show ?thesis by simp
qed




end
