(* ===== verification/Store.thy ===== *)
theory Store
  imports Plan Index_Codec "HOL-Library.AList" "HOL-Library.Sublist"
begin

unbundle bit_operations_syntax

text \<open>
  The object store an index is committed to: the in-memory backend (\<^verbatim>\<open>src/backend/backend.go\<close>), which is
  the reference implementation of the \<^verbatim>\<open>Backend\<close> interface, its content versions
  (\<^verbatim>\<open>src/backend/version.go\<close>), loading and saving an index through it (\<^verbatim>\<open>bucketindex.go\<close>), and the
  confirmation of commits whose answer was lost (\<^verbatim>\<open>src/internal/indexcommit/save.go\<close>).

  Each operation holds the backend's lock from end to end, so one operation is one step; what other
  writers do happens between steps. The locale \<open>versioned_store\<close> states what a conditional write
  promises; everything a committer relies on is proved from it.
\<close>

subsection \<open>SHA-256 (crypto/sha256) and hexadecimal text (encoding/hex)\<close>

definition rotr32 :: "nat \<Rightarrow> u32 \<Rightarrow> u32" where
  "rotr32 n w = drop_bit n w OR push_bit (32 - n) w"

text \<open>The constants are the fractional bits of the square and cube roots of the first primes.\<close>

fun int_root :: "nat \<Rightarrow> int \<Rightarrow> nat \<Rightarrow> int \<Rightarrow> int" where
  "int_root k n 0 r = r"
| "int_root k n (Suc b) r = int_root k n b (if (r + 2 ^ b) ^ k \<le> n then r + 2 ^ b else r)"

definition sha_primes :: "nat list" where
  "sha_primes = filter (\<lambda>n. list_all (\<lambda>d. n mod d \<noteq> 0) [2..<n]) [2..<312]"

definition sha_K :: "u32 list" where
  "sha_K = map (\<lambda>p. of_int (int_root 3 (int p * 2 ^ 96) 36 0)) sha_primes"

text \<open>The message schedule, newest word first.\<close>

definition sha_next :: "u32 list \<Rightarrow> u32" where
  "sha_next w =
     (let x = w ! 1; y = w ! 14
      in (rotr32 17 x XOR rotr32 19 x XOR drop_bit 10 x) + w ! 6 +
         (rotr32 7 y XOR rotr32 18 y XOR drop_bit 3 y) + w ! 15)"

definition sha_schedule :: "u32 list \<Rightarrow> u32 list" where
  "sha_schedule ws = rev (((\<lambda>w. sha_next w # w) ^^ 48) (rev ws))"

datatype sha_state = Sha u32 u32 u32 u32 u32 u32 u32 u32

fun sha_words :: "sha_state \<Rightarrow> u32 list" where
  "sha_words (Sha a b c d e f g h) = [a, b, c, d, e, f, g, h]"

fun sha_round :: "sha_state \<Rightarrow> u32 \<times> u32 \<Rightarrow> sha_state" where
  "sha_round (Sha a b c d e f g h) (k, w) =
     (let t1 = h + (rotr32 6 e XOR rotr32 11 e XOR rotr32 25 e) + ((e AND f) XOR (NOT e AND g)) + k + w;
          t2 = (rotr32 2 a XOR rotr32 13 a XOR rotr32 22 a) + ((a AND b) XOR (a AND c) XOR (b AND c))
      in Sha (t1 + t2) a b c (d + t1) e f g)"

fun sha_add :: "sha_state \<Rightarrow> sha_state \<Rightarrow> sha_state" where
  "sha_add (Sha a b c d e f g h) (Sha a' b' c' d' e' f' g' h') =
     Sha (a + a') (b + b') (c + c') (d + d') (e + e') (f + f') (g + g') (h + h')"

definition sha_block :: "sha_state \<Rightarrow> u32 list \<Rightarrow> sha_state" where
  "sha_block hs ws = sha_add hs (foldl sha_round hs (zip sha_K (sha_schedule ws)))"

fun be_words :: "bytes \<Rightarrow> u32 list" where
  "be_words (a # b # c # d # bs) =
     (push_bit 24 (ucast a) OR push_bit 16 (ucast b) OR push_bit 8 (ucast c) OR ucast d) # be_words bs"
| "be_words _ = []"

definition be_bytes32 :: "u32 \<Rightarrow> bytes" where
  "be_bytes32 w = [ucast (drop_bit 24 w), ucast (drop_bit 16 w), ucast (drop_bit 8 w), ucast w]"

definition be_bytes64 :: "u64 \<Rightarrow> bytes" where
  "be_bytes64 w = map (\<lambda>n. ucast (drop_bit n w)) [56, 48, 40, 32, 24, 16, 8, 0]"

definition sha_pad :: "bytes \<Rightarrow> bytes" where
  "sha_pad m = m @ [0x80] @ replicate ((64 - (length m + 9) mod 64) mod 64) 0 @ be_bytes64 (of_nat (8 * length m))"

definition sha_H :: sha_state where
  "sha_H = (let h = (\<lambda>p. of_int (int_root 2 (p * 2 ^ 64) 36 0)) in Sha (h 2) (h 3) (h 5) (h 7) (h 11) (h 13) (h 17) (h 19))"

fun sha_blocks :: "sha_state \<Rightarrow> u32 list \<Rightarrow> sha_state" where
  "sha_blocks hs ws = (if length ws < 16 then hs else sha_blocks (sha_block hs (take 16 ws)) (drop 16 ws))"

declare sha_blocks.simps [simp del]

definition Sum256 :: "bytes \<Rightarrow> bytes" where
  "Sum256 m = concat (map be_bytes32 (sha_words (sha_blocks sha_H (be_words (sha_pad m)))))"

definition hex_digit :: "u8 \<Rightarrow> u8" where
  "hex_digit d = (if d < 10 then 48 + d else 87 + d)"

definition EncodeToString :: "bytes \<Rightarrow> bytes" where
  "EncodeToString bs = concat (map (\<lambda>b. [hex_digit (drop_bit 4 b), hex_digit (b AND 15)]) bs)"

subsection \<open>Versions (version.go)\<close>

type_synonym Version = bytes

definition VersionAbsent :: Version where "VersionAbsent = []"

definition ContentVersion :: "bytes \<Rightarrow> Version" where
  "ContentVersion data = EncodeToString (take 16 (Sum256 data))"

subsection \<open>The in-memory backend (backend.go)\<close>

datatype StoreError = NotExist bytes | Conflict | BadIndex DecodeError | Unanswered | NegativeRange

text \<open>The map of objects, as an association list; the zero-length object is not an absent one.\<close>

type_synonym memoryBackend = "(bytes \<times> bytes) list"

definition mem_Write :: "memoryBackend \<Rightarrow> bytes \<Rightarrow> bytes \<Rightarrow> memoryBackend" where
  "mem_Write m key data = AList.update key data m"

definition PutIfAbsent :: "memoryBackend \<Rightarrow> bytes \<Rightarrow> bytes \<Rightarrow> memoryBackend \<times> bool" where
  "PutIfAbsent m key data =
     (case map_of m key of Some _ \<Rightarrow> (m, False) | None \<Rightarrow> (AList.update key data m, True))"

definition CompareAndSwap :: "memoryBackend \<Rightarrow> bytes \<Rightarrow> Version \<Rightarrow> bytes \<Rightarrow> memoryBackend \<times> Version \<times> bool" where
  "CompareAndSwap m key expected data =
     (let current = (case map_of m key of Some cur \<Rightarrow> ContentVersion cur | None \<Rightarrow> VersionAbsent)
      in if current \<noteq> expected then (m, VersionAbsent, False)
         else (AList.update key data m, ContentVersion data, True))"

definition ReadVersioned :: "memoryBackend \<Rightarrow> bytes \<Rightarrow> bytes \<times> Version" where
  "ReadVersioned m key =
     (case map_of m key of None \<Rightarrow> ([], VersionAbsent) | Some v \<Rightarrow> (v, ContentVersion v))"

definition mem_Read :: "memoryBackend \<Rightarrow> bytes \<Rightarrow> StoreError + bytes" where
  "mem_Read m key = (case map_of m key of None \<Rightarrow> Inl (NotExist key) | Some v \<Rightarrow> Inr v)"

definition mem_List :: "memoryBackend \<Rightarrow> bytes \<Rightarrow> bytes list" where
  "mem_List m pre = sort (filter (prefix pre) (map fst m))"

definition clampRange :: "bytes \<Rightarrow> int \<Rightarrow> int \<Rightarrow> bytes" where
  "clampRange data off n =
     (if off \<ge> int (length data) then []
      else take (nat (min n (int (length data) - off))) (drop (nat off) data))"

definition ReadAt :: "memoryBackend \<Rightarrow> bytes \<Rightarrow> int \<Rightarrow> int \<Rightarrow> StoreError + bytes" where
  "ReadAt m key off n =
     (if off < 0 \<or> n < 0 then Inl NegativeRange
      else case map_of m key of None \<Rightarrow> Inl (NotExist key) | Some v \<Rightarrow> Inr (clampRange v off n))"

definition mem_Size :: "memoryBackend \<Rightarrow> bytes \<Rightarrow> StoreError + int" where
  "mem_Size m key = (case map_of m key of None \<Rightarrow> Inl (NotExist key) | Some v \<Rightarrow> Inr (int (length v)))"

definition mem_Delete :: "memoryBackend \<Rightarrow> bytes \<Rightarrow> memoryBackend \<times> StoreError option" where
  "mem_Delete m key =
     (case map_of m key of None \<Rightarrow> (m, Some (NotExist key)) | Some _ \<Rightarrow> (AList.delete key m, None))"

subsection \<open>Requests whose answer may be lost\<close>

text \<open>
  A returned error says nothing about whether a write landed: a request is answered, or lost before
  it took effect, or lost after.
\<close>

datatype Outcome = Answered | LostBefore | LostAfter

definition request_cas :: "Outcome \<Rightarrow> memoryBackend \<Rightarrow> bytes \<Rightarrow> Version \<Rightarrow> bytes \<Rightarrow> memoryBackend \<times> (StoreError + Version \<times> bool)" where
  "request_cas oc m key expected data =
     (case CompareAndSwap m key expected data of (m', v, ok) \<Rightarrow>
        case oc of Answered \<Rightarrow> (m', Inr (v, ok)) | LostBefore \<Rightarrow> (m, Inl Unanswered) | LostAfter \<Rightarrow> (m', Inl Unanswered))"

definition request_read :: "bool \<Rightarrow> memoryBackend \<Rightarrow> bytes \<Rightarrow> StoreError + bytes \<times> Version" where
  "request_read answered m key = (if answered then Inr (ReadVersioned m key) else Inl Unanswered)"

subsection \<open>Loading and saving an index (bucketindex.go)\<close>

definition Load :: "memoryBackend \<Rightarrow> bytes \<Rightarrow> StoreError + Index" where
  "Load m key =
     (case mem_Read m key of
        Inl e \<Rightarrow> (case e of NotExist _ \<Rightarrow> Inr empty_index | _ \<Rightarrow> Inl e)
      | Inr data \<Rightarrow> (case Decode data of Inl e \<Rightarrow> Inl (BadIndex e) | Inr ix \<Rightarrow> Inr ix))"

definition LoadVersioned :: "bool \<Rightarrow> memoryBackend \<Rightarrow> bytes \<Rightarrow> StoreError + Index \<times> Version" where
  "LoadVersioned answered m key =
     (case request_read answered m key of
        Inl e \<Rightarrow> Inl e
      | Inr (data, ver) \<Rightarrow>
          if ver = VersionAbsent then Inr (empty_index, VersionAbsent)
          else (case Decode data of Inl e \<Rightarrow> Inl (BadIndex e) | Inr ix \<Rightarrow> Inr (ix, ver)))"

definition Save :: "Outcome \<Rightarrow> Index \<Rightarrow> memoryBackend \<Rightarrow> bytes \<Rightarrow> Version \<Rightarrow> memoryBackend \<times> (StoreError + Version)" where
  "Save oc ix m key expected =
     (case request_cas oc m key expected (AppendBinary ix []) of
        (m', Inl e) \<Rightarrow> (m', Inl e)
      | (m', Inr (ver, ok)) \<Rightarrow> if \<not> ok then (m', Inl Conflict) else (m', Inr ver))"

subsection \<open>Confirming a lost answer (indexcommit/save.go)\<close>

text \<open>\<open>rivals\<close> is what other writers do to the store between the two requests.\<close>

definition indexcommit_Save ::
  "Outcome \<Rightarrow> (memoryBackend \<Rightarrow> memoryBackend) \<Rightarrow> bool \<Rightarrow> Index \<Rightarrow> memoryBackend \<Rightarrow> bytes \<Rightarrow> Version \<Rightarrow>
     memoryBackend \<times> (StoreError + Version)" where
  "indexcommit_Save oc rivals answered ix m key expected =
     (let data = AppendBinary ix []
      in case request_cas oc m key expected data of
           (m1, Inr (ver, ok)) \<Rightarrow> if \<not> ok then (m1, Inl Conflict) else (m1, Inr ver)
         | (m1, Inl e) \<Rightarrow>
             let m2 = rivals m1
             in case request_read answered m2 key of
                  Inl _ \<Rightarrow> (m2, Inl e)
                | Inr (stored, current) \<Rightarrow>
                    if current \<noteq> VersionAbsent \<and> stored = data then (m2, Inr current) else (m2, Inl e))"

subsection \<open>What a conditional write promises\<close>

locale versioned_store =
  fixes read_at :: "'s \<Rightarrow> bytes \<Rightarrow> bytes \<times> Version" and cas :: "'s \<Rightarrow> bytes \<Rightarrow> Version \<Rightarrow> bytes \<Rightarrow> 's \<times> Version \<times> bool"
  assumes cas_won: "cas s k v d = (s', v', True) \<Longrightarrow> snd (read_at s k) = v \<and> read_at s' k = (d, v')"
    and cas_lost: "cas s k v d = (s', v', False) \<Longrightarrow> s' = s \<and> snd (read_at s k) \<noteq> v"
    and cas_other: "k' \<noteq> k \<Longrightarrow> read_at (fst (cas s k v d)) k' = read_at s k'"
begin

lemma cas_iff: "snd (snd (cas s k v d)) \<longleftrightarrow> snd (read_at s k) = v"
proof -
  obtain s' v' ok where c: "cas s k v d = (s', v', ok)" by (rule prod_cases3)
  show ?thesis using cas_won[of s k v d s' v'] cas_lost[of s k v d s' v'] c by (cases ok) simp_all
qed

text \<open>Of two writers that read the same version, only one wins, unless the winner stored the same version again.\<close>

lemma one_winner:
  assumes "cas s k v d = (s', v', True)" "v' \<noteq> v"
  shows "\<not> snd (snd (cas s' k v d2))"
  using cas_won[OF assms(1)] assms(2) by (simp add: cas_iff)

lemma winner_chain:
  assumes "cas s k v d = (s', v', True)" "cas s' k v' d2 = (s'', v'', ok)"
  shows "ok" "read_at s'' k = (d2, v'')"
  using cas_won[OF assms(1)] cas_iff[of s' k v' d2] cas_won[of s' k v' d2] assms(2) by auto

end

lemma length_be_bytes32 [simp]: "length (be_bytes32 w) = 4"
  by (simp add: be_bytes32_def)

lemma Sum256_length: "length (Sum256 m) = 32"
proof -
  have "length (sha_words h) = 8" for h by (cases h) simp
  then show ?thesis by (simp add: Sum256_def length_concat comp_def sum_list_triv)
qed

lemma ContentVersion_length [simp]: "length (ContentVersion d) = 32"
  by (simp add: ContentVersion_def EncodeToString_def length_concat comp_def sum_list_triv Sum256_length)

lemma ContentVersion_present [simp]: "ContentVersion d \<noteq> VersionAbsent" "VersionAbsent \<noteq> ContentVersion d"
  using ContentVersion_length[of d] by (metis VersionAbsent_def list.size(3) zero_neq_numeral)+

interpretation memstore: versioned_store ReadVersioned CompareAndSwap
  by unfold_locales
    (auto simp: CompareAndSwap_def ReadVersioned_def update_conv' Let_def split: if_splits option.splits)


subsection \<open>Commits\<close>

text \<open>The bytes stored under a key.\<close>

abbreviation stored :: "memoryBackend \<Rightarrow> bytes \<Rightarrow> bytes option" where
  "stored m key \<equiv> map_of m key"

definition version_of :: "bytes option \<Rightarrow> Version" where
  "version_of d = (case d of None \<Rightarrow> VersionAbsent | Some d \<Rightarrow> ContentVersion d)"

text \<open>No two of the given contents share a version.\<close>

definition no_collision :: "bytes option set \<Rightarrow> bool" where
  "no_collision D \<longleftrightarrow> inj_on version_of D"

lemma CompareAndSwap_cases:
  "CompareAndSwap m key expected data =
     (if version_of (stored m key) = expected then (AList.update key data m, ContentVersion data, True) else (m, VersionAbsent, False))"
  by (simp add: CompareAndSwap_def version_of_def Let_def split: option.splits)

lemma ReadVersioned_version: "snd (ReadVersioned m key) = version_of (stored m key)"
  by (simp add: ReadVersioned_def version_of_def split: option.splits)

lemma LoadVersioned_version:
  "LoadVersioned answered m key = Inr (ix, v) \<Longrightarrow> v = version_of (stored m key) \<and>
     (case stored m key of None \<Rightarrow> ix = empty_index | Some d \<Rightarrow> Decode d = Inr ix)"
  by (auto simp: LoadVersioned_def request_read_def ReadVersioned_def version_of_def split: if_splits option.splits sum.splits)

lemma Save_answered:
  "Save Answered ix m key v =
     (if version_of (stored m key) = v then (AList.update key (AppendBinary ix []) m, Inr (ContentVersion (AppendBinary ix [])))
      else (m, Inl Conflict))"
  by (simp add: Save_def request_cas_def CompareAndSwap_cases)

lemma indexcommit_answered:
  "indexcommit_Save Answered rivals answered ix m key v = Save Answered ix m key v"
  by (simp add: indexcommit_Save_def Save_def request_cas_def CompareAndSwap_cases Let_def)

lemma indexcommit_lost:
  assumes "m1 = (if oc = LostAfter then fst (CompareAndSwap m key v (AppendBinary ix [])) else m)" "oc \<noteq> Answered"
  shows "indexcommit_Save oc rivals answered ix m key v =
    (rivals m1, if answered \<and> stored (rivals m1) key = Some (AppendBinary ix []) then Inr (ContentVersion (AppendBinary ix [])) else Inl Unanswered)"
proof -
  have "request_cas oc m key v (AppendBinary ix []) = (m1, Inl Unanswered)"
    using assms by (cases oc) (auto simp: request_cas_def split: prod.splits)
  then show ?thesis
    by (cases "stored (rivals m1) key") (simp_all add: indexcommit_Save_def request_read_def ReadVersioned_def Let_def)
qed

text \<open>C17. A commit replaces exactly the index its committer loaded, or nothing. If the object changed in
  between, the save reports a conflict and leaves the store as it is; if the save succeeds, the object
  still held the very bytes that were loaded (versions of the two contents not colliding), it now
  holds the committed index, loading it gives that index back with the returned version, and a second
  committer holding the old version can no longer win.\<close>

theorem commit_replaces_only_what_was_loaded:
  assumes "LoadVersioned True m key = Inr (ix, v)" "no_collision {stored m key, stored m' key}"
    and "sized_index ix'" "catalog_ok (Catalog ix')"
  shows "case Save Answered ix' m' key v of
      (m'', Inl e) \<Rightarrow> e = Conflict \<and> m'' = m' \<and> stored m' key \<noteq> stored m key
    | (m'', Inr v') \<Rightarrow> stored m' key = stored m key \<and> LoadVersioned True m'' key = Inr (canon_index ix', v') \<and>
        (v' = v \<or> (\<forall>rival. Save Answered rival m'' key v = (m'', Inl Conflict)))"
proof (cases "version_of (stored m' key) = v")
  case True
  have v: "v = version_of (stored m key)" using LoadVersioned_version[OF assms(1)] by simp
  have same: "stored m' key = stored m key"
    by (rule inj_onD[OF assms(2)[unfolded no_collision_def]]) (simp_all add: True flip: v)
  have "LoadVersioned True (AList.update key (AppendBinary ix' []) m') key =
      Inr (canon_index ix', ContentVersion (AppendBinary ix' []))"
    by (simp add: LoadVersioned_def request_read_def ReadVersioned_def update_conv' Decode_AppendBinary[OF assms(3,4)])
  then show ?thesis using True same by (simp add: Save_answered update_conv' version_of_def)
next
  case False
  then show ?thesis using LoadVersioned_version[OF assms(1)] by (auto simp: Save_answered)
qed

theorem commit_replaces_only_what_was_loaded_witness:
  "\<exists>m v. Save Answered empty_index [] [107] VersionAbsent = (m, Inr v) \<and> LoadVersioned True m [107] = Inr (empty_index, v) \<and>
     Save Answered empty_index m [107] VersionAbsent = (m, Inl Conflict)"
proof -
  have "LoadVersioned True [] [107] = Inr (empty_index, VersionAbsent)"
    by (simp add: LoadVersioned_def request_read_def ReadVersioned_def)
  moreover have "sized_index empty_index" "catalog_ok (Catalog empty_index)" "canon_index empty_index = empty_index"
    by (simp_all add: sized_index_def catalog_ok_def canon_index_def empty_index_def)
  moreover obtain m v where s: "Save Answered empty_index [] [107] VersionAbsent = (m, Inr v)" "v \<noteq> VersionAbsent"
    by (simp add: Save_answered version_of_def)
  ultimately show ?thesis
    using commit_replaces_only_what_was_loaded[of "[]" "[107]" empty_index VersionAbsent "[]" empty_index]
    by (simp add: no_collision_def)
qed

text \<open>C35. A confirmed commit is in the store, an unconfirmed one may or may not be. Whatever was lost and
  whatever rivals did in between, a save that returns a version leaves the object holding exactly the
  candidate under that version, a reported conflict means that this save wrote nothing, and an answer
  lost before the write took effect is never taken for a commit, unless a rival stored the very
  same bytes.\<close>

theorem confirmed_commits_are_stored:
  "case indexcommit_Save oc rivals answered ix m key expected of (m', r) \<Rightarrow>
     (\<forall>v. r = Inr v \<longrightarrow> ReadVersioned m' key = (AppendBinary ix [], v) \<and> v = ContentVersion (AppendBinary ix [])) \<and>
     (r = Inl Conflict \<longrightarrow> m' = m \<and> version_of (stored m key) \<noteq> expected) \<and>
     (oc = LostBefore \<and> stored (rivals m) key \<noteq> Some (AppendBinary ix []) \<longrightarrow> r = Inl Unanswered)"
proof (cases oc)
  case Answered
  then show ?thesis by (cases "version_of (stored m key) = expected") (simp_all add: indexcommit_answered Save_answered ReadVersioned_def update_conv')
next
  case LostBefore
  then show ?thesis
    by (cases "answered \<and> stored (rivals m) key = Some (AppendBinary ix [])") (auto simp: indexcommit_lost ReadVersioned_def)
next
  case LostAfter
  let ?m = "rivals (fst (CompareAndSwap m key expected (AppendBinary ix [])))"
  show ?thesis
    by (cases "answered \<and> stored ?m key = Some (AppendBinary ix [])") (use LostAfter in \<open>auto simp: indexcommit_lost ReadVersioned_def\<close>)
qed

theorem confirmed_commits_are_stored_witness:
  "\<exists>m. indexcommit_Save LostAfter (\<lambda>m. m) True empty_index [] [107] VersionAbsent =
     (m, Inr (ContentVersion (AppendBinary empty_index []))) \<and> stored m [107] = Some (AppendBinary empty_index [])"
proof -
  obtain m v where r: "indexcommit_Save LostAfter (\<lambda>m. m) True empty_index [] [107] VersionAbsent = (m, Inr v)"
    by (simp add: indexcommit_Save_def request_cas_def request_read_def CompareAndSwap_cases ReadVersioned_def version_of_def Let_def)
  with confirmed_commits_are_stored[where oc = LostAfter and rivals = "\<lambda>m. m" and answered = True and ix = empty_index and m = "[]" and
      key = "[107]" and expected = VersionAbsent] show ?thesis
    by (auto simp: ReadVersioned_def split: option.splits)
qed

end
