(* ===== verification/Commit.thy ===== *)
theory Commit
  imports Store
begin

text \<open>
  How an engine commits its part set (\<^verbatim>\<open>src/engine/index.go\<close>, \<^verbatim>\<open>blockid.go\<close>, \<^verbatim>\<open>entrylayout.go\<close>): building
  the next index, saving it conditionally, rebasing on a rival's index when the race is lost, and
  loading the index back.

  The engine's lock is held through each definition below; where the code admits other writers to
  the store (during a request), the store is an argument. A part handle is identified by its prefix,
  which is unique to the part; a Go map of prefixes is a list in the order it is ranged over. What
  opening a part's objects finds is an argument of the definitions that open parts.
\<close>

subsection \<open>Parts\<close>

record DownsampleTier =
  dsBefore :: i64
  dsInterval :: i64
  dsAgg :: u8

record part =
  ptPrefix :: bytes
  ptMinTime :: i64
  ptMaxTime :: i64
  ptBlocks :: Interval
  ptClaim :: Claim
  ptLevel :: u32
  ptTerm :: u64
  ptPending :: "Plan option"
  ptRollup :: "DownsampleTier list"
  ptRollupKnown :: bool

definition entryRollup :: "part \<Rightarrow> Rollup option" where
  "entryRollup p =
     (if \<not> ptRollupKnown p then None
      else Some (Rollup (map (\<lambda>t. RollupTier (dsBefore t) (dsInterval t) (dsAgg t)) (ptRollup p))))"

definition entryTiers :: "Rollup option \<Rightarrow> DownsampleTier list" where
  "entryTiers r =
     (case r of None \<Rightarrow> []
      | Some r \<Rightarrow> map (\<lambda>t. \<lparr>dsBefore = tBefore t, dsInterval = tInterval t, dsAgg = tAgg t\<rparr>) (Tiers r))"

definition fillRollup :: "Entry \<Rightarrow> part \<Rightarrow> Entry" where
  "fillRollup ent p = (if eRollup ent = None then ent\<lparr>eRollup := entryRollup p\<rparr> else ent)"

definition matchesEntry :: "part \<Rightarrow> Entry \<Rightarrow> bool" where
  "matchesEntry p ent \<longleftrightarrow> ptPending p = None \<and> ptMinTime p = eMinTime ent \<and> ptMaxTime p = eMaxTime ent \<and>
     ptLevel p = eLevel ent \<and> ptTerm p = eTerm ent \<and> Equal (ptBlocks p) (eBlocks ent) \<and> claim_Equal (ptClaim p) (eClaim ent)"

definition planFlushBlocks :: "part \<Rightarrow> part" where
  "planFlushBlocks p = p\<lparr>ptPending := Some FlushPlan\<rparr>"

definition planMergeBlocks :: "nat \<Rightarrow> part list \<Rightarrow> part list \<Rightarrow> part list" where
  "planMergeBlocks ptr src out =
     map2 (\<lambda>p plan. p\<lparr>ptPending := Some plan\<rparr>) out
       (PlanMerge ptr (map (\<lambda>p. no_entry\<lparr>eBlocks := ptBlocks p, eClaim := ptClaim p, eLevel := ptLevel p\<rparr>) src) (length out))"

subsection \<open>The engine's commit state\<close>

datatype CommitError =
    FencedBy CommitError
  | Tenure Superseded
  | NotEstablished u64
  | StoreFailed StoreError
  | GuardFailed bytes
  | Contended nat
  | PartFailed bytes

record Engine =
  enTerm :: "u64 option"
  enWriterID :: bytes
  enKey :: bytes
  enParts :: "part list"
  enForeign :: "Entry list"
  enForeignParts :: "bytes \<rightharpoonup> part"
  enGeneration :: Generation
  enEpochs :: "WriterEpoch list"
  enAnonEpoch :: u64
  enFlushedEpoch :: u64
  enWants :: "Want list"
  enPendingWants :: "Want list"
  enAdoptedWants :: "Want list"
  enPendingHoles :: "Want list"
  enHoles :: "Entry list"
  enLostParts :: u64
  enAllocated :: Block
  enCatalog :: "Claim list"
  enIndexed :: "bytes list"
  enRemovals :: "Removal list"
  enIndexVersion :: Version
  enEstablished :: u64
  enLoadErr :: "CommitError option"
  enCorruptLoads :: "bytes \<Rightarrow> nat"

text \<open>\<open>enTerm\<close> is \<^verbatim>\<open>cfg.Term\<close>: absent with no cluster, otherwise the term it currently reports.\<close>

definition engine_term :: "Engine \<Rightarrow> u64" where
  "engine_term e = (case enTerm e of None \<Rightarrow> 0 | Some t \<Rightarrow> t)"

subsection \<open>Building the next index\<close>

definition nextBlockLocked :: "Engine \<Rightarrow> Index \<Rightarrow> part list \<Rightarrow> Block" where
  "nextBlockLocked e ix parts =
     NextBlock (empty_index\<lparr>
        Entries := Entries ix @ enHoles e @ map (\<lambda>p. no_entry\<lparr>eBlocks := ptBlocks p, eClaim := ptClaim p\<rparr>) parts,
        Wanted := enWants e @ enPendingWants e @ enAdoptedWants e @ enPendingHoles e,
        AllocatedBlocks := enAllocated e\<rparr>) (engine_term e)"

record blockAssignment =
  baPart :: bytes
  baBlocks :: Interval
  baClaim :: Claim
  baLevel :: u32
  baTerm :: u64

definition part_identity :: "Allocator \<Rightarrow> part \<Rightarrow> Allocator \<times> blockAssignment" where
  "part_identity alloc p =
     (case ptPending p of
        None \<Rightarrow> (alloc, \<lparr>baPart = ptPrefix p, baBlocks = ptBlocks p, baClaim = ptClaim p, baLevel = ptLevel p, baTerm = ptTerm p\<rparr>)
      | Some plan \<Rightarrow>
          (case Assign alloc plan of (alloc', iv, c) \<Rightarrow>
             (alloc', \<lparr>baPart = ptPrefix p, baBlocks = iv, baClaim = c, baLevel = pLevel plan, baTerm = alloc_Term alloc'\<rparr>)))"

definition part_entry :: "part \<Rightarrow> blockAssignment \<Rightarrow> Entry" where
  "part_entry p a = \<lparr>ePrefix = ptPrefix p, eMinTime = ptMinTime p, eMaxTime = ptMaxTime p, eBlocks = baBlocks a,
     eLevel = baLevel a, eClaim = baClaim a, eTerm = baTerm a, eRollup = entryRollup p, eHole = False\<rparr>"

fun add_parts :: "Allocator \<Rightarrow> Index \<Rightarrow> part list \<Rightarrow> Allocator \<times> Index \<times> blockAssignment list" where
  "add_parts alloc ix [] = (alloc, ix, [])"
| "add_parts alloc ix (p # ps) =
     (case part_identity alloc p of (alloc', a) \<Rightarrow>
      case add_parts alloc' (Add ix (part_entry p a)) ps of (alloc'', ix', as) \<Rightarrow>
        (alloc'', ix', if ptPending p = None then as else a # as))"

text \<open>The writer's own watermark, and a rival's entries: what the next index starts from.\<close>

definition next_base :: "Engine \<Rightarrow> u64 \<Rightarrow> Index" where
  "next_base e epoch =
     (let g = gen_Next (enGeneration e) (engine_term e);
          ix = SetWriterEpoch (empty_index\<lparr>FlushedEpoch := enAnonEpoch e, Epochs := enEpochs e, IGeneration := g\<rparr>)
                 (enWriterID e) epoch g
      in foldl Add (ix\<lparr>Epochs := TrimWriters (Epochs ix) (enWriterID e) MaxWriters\<rparr>) (enForeign e))"

definition state_want :: "Generation \<Rightarrow> Index \<Rightarrow> Want \<Rightarrow> Index" where
  "state_want g ix w = RecordWant ix (w\<lparr>wGeneration := g\<rparr>)"

definition nextIndexLocked :: "Engine \<Rightarrow> part list \<Rightarrow> u64 \<Rightarrow> Engine \<times> Index \<times> blockAssignment list" where
  "nextIndexLocked e parts epoch =
     (let base = next_base e epoch;
          g = IGeneration base
      in case add_parts (NewAllocator (nextBlockLocked e base parts)) base parts of (alloc, ix1, assigned) \<Rightarrow>
         let live = map ptPrefix parts;
             removals = enRemovals e @
               map (\<lambda>p. \<lparr>rPrefix = p, rGen = g\<rparr>) (filter (\<lambda>p. p \<notin> set live) (enIndexed e));
             ix2 = ix1\<lparr>AllocatedBlocks := Mark alloc, LostParts := enLostParts e\<rparr>;
             trimmed = TrimHoles (enHoles e) (Entries ix2) (enCatalog e);
             ix3 = foldl Add ix2 trimmed;
             ix4 = foldl (\<lambda>ix w. fst (RecordHole ix w)) ix3 (enPendingHoles e);
             live' = remdups (live @ map ePrefix trimmed @ map wPrefix (enPendingHoles e));
             removals' = TrimRemovals removals (set live') MaxRemovals;
             ix5 = foldl (state_want g) (ix4\<lparr>Removed := removals', Wanted := enWants e\<rparr>) (enPendingWants e @ enAdoptedWants e);
             ix6 = ix5\<lparr>Wanted := TrimWants (Wanted ix5) (Entries ix5) (enCatalog e), Catalog := enCatalog e\<rparr>;
             e' = e\<lparr>enGeneration := g, enEpochs := Epochs base, enAnonEpoch := FlushedEpoch base,
                    enRemovals := removals', enIndexed := live'\<rparr>
         in (e', fst (RecordLineage ix6), assigned))"

subsection \<open>One commit attempt\<close>

definition apply_assignments :: "blockAssignment list \<Rightarrow> part \<Rightarrow> part" where
  "apply_assignments as p =
     (case filter (\<lambda>a. baPart a = ptPrefix p) as of
        [] \<Rightarrow> p
      | a # _ \<Rightarrow> p\<lparr>ptBlocks := baBlocks a, ptClaim := baClaim a, ptLevel := baLevel a, ptTerm := baTerm a, ptPending := None\<rparr>)"

text \<open>The fate of a save: its outcome, what rivals do before a confirmation, whether that is answered.\<close>

record Fate =
  fOutcome :: Outcome
  fRivals :: "memoryBackend \<Rightarrow> memoryBackend"
  fConfirm :: bool

definition landed :: "Engine \<Rightarrow> Index \<Rightarrow> blockAssignment list \<Rightarrow> Version \<Rightarrow> Engine" where
  "landed e ix assigned v =
     e\<lparr>enIndexVersion := v, enWants := Wanted ix, enPendingWants := [], enAdoptedWants := [],
       enParts := map (apply_assignments assigned) (enParts e), enHoles := Holes ix, enLostParts := LostParts ix,
       enAllocated := AllocatedBlocks ix, enCatalog := Catalog ix, enPendingHoles := []\<rparr>"

definition commitOnceLocked :: "Fate \<Rightarrow> Engine \<Rightarrow> memoryBackend \<Rightarrow> part list \<Rightarrow> u64 \<Rightarrow>
    Engine \<times> memoryBackend \<times> part list \<times> (CommitError + bool)" where
  "commitOnceLocked f e m parts epoch =
     (case nextIndexLocked e parts epoch of (e1, ix, assigned) \<Rightarrow>
      case indexcommit_Save (fOutcome f) (fRivals f) (fConfirm f) ix m (enKey e) (enIndexVersion e1) of
        (m', Inr v) \<Rightarrow> (landed e1 ix assigned v, m', map (apply_assignments assigned) parts, Inr True)
      | (m', Inl Conflict) \<Rightarrow> (e1, m', parts, Inr False)
      | (m', Inl err) \<Rightarrow> (e1, m', parts, Inl (StoreFailed err)))"

subsection \<open>Rebasing on a rival's index\<close>

definition mergeHoles :: "Entry list \<Rightarrow> Entry list \<Rightarrow> Entry list" where
  "mergeHoles cur other = Entries (foldl Add (empty_index\<lparr>Entries := cur\<rparr>) other)"

definition foreignEntries :: "Entry list \<Rightarrow> bytes list \<Rightarrow> Removal list \<Rightarrow> Want list \<Rightarrow> Entry list" where
  "foreignEntries entries indexed removals wants =
     filter (\<lambda>e. \<not> eHole e \<and> ePrefix e \<notin> set indexed \<and> \<not> list_ex (\<lambda>r. rPrefix r = ePrefix e) removals \<and>
       \<not> list_ex (\<lambda>w. wPrefix w = ePrefix e) wants) entries"

text \<open>\<open>open_part\<close> is what opening the objects under a prefix gives here, if it succeeds.\<close>

fun open_foreign :: "(bytes \<Rightarrow> part option) \<Rightarrow> (bytes \<rightharpoonup> part) \<Rightarrow> (bytes \<rightharpoonup> part) \<Rightarrow> Entry list \<Rightarrow> Entry list \<times> (bytes \<rightharpoonup> part)" where
  "open_foreign open_part had opened [] = ([], opened)"
| "open_foreign open_part had opened (ent # es) =
     (case (case had (ePrefix ent) of
              Some p \<Rightarrow> (fillRollup ent p, opened(ePrefix ent \<mapsto> p))
            | None \<Rightarrow>
                (case open_part (ePrefix ent) of
                   None \<Rightarrow> (ent, opened)
                 | Some p \<Rightarrow> (fillRollup ent p, opened(ePrefix ent \<mapsto> p\<lparr>ptMinTime := eMinTime ent, ptMaxTime := eMaxTime ent\<rparr>)))) of
        (ent', opened') \<Rightarrow> case open_foreign open_part had opened' es of (es', all) \<Rightarrow> (ent' # es', all))"

definition openForeignLocked :: "(bytes \<Rightarrow> part option) \<Rightarrow> Engine \<Rightarrow> Engine" where
  "openForeignLocked open_part e =
     (if enForeign e = [] then e\<lparr>enForeignParts := Map.empty\<rparr>
      else case open_foreign open_part (enForeignParts e) Map.empty (enForeign e) of
        (es, opened) \<Rightarrow> e\<lparr>enForeign := es, enForeignParts := opened\<rparr>)"

definition rebase :: "Engine \<Rightarrow> Index \<Rightarrow> Version \<Rightarrow> Engine" where
  "rebase e ix ver =
     (let wants = Wanted (foldl RecordWant (empty_index\<lparr>Wanted := enWants e\<rparr>) (Wanted ix))
      in e\<lparr>enIndexVersion := ver,
           enGeneration := (if gen_Compare (IGeneration ix) (enGeneration e) > 0 then IGeneration ix else enGeneration e),
           enEpochs := Epochs ix, enAnonEpoch := FlushedEpoch ix, enWants := wants,
           enHoles := mergeHoles (enHoles e) (Holes ix), enLostParts := max (enLostParts e) (LostParts ix),
           enAllocated := MaxBlock (enAllocated e) (AllocatedBlocks ix), enCatalog := MergeLineage [enCatalog e, Catalog ix],
           enForeign := foreignEntries (Entries ix) (enIndexed e) (enRemovals e) wants\<rparr>)"

definition adoptIndexLocked :: "bool \<Rightarrow> (bytes \<Rightarrow> part option) \<Rightarrow> Engine \<Rightarrow> memoryBackend \<Rightarrow> Engine \<times> CommitError option" where
  "adoptIndexLocked answered open_part e m =
     (case LoadVersioned answered m (enKey e) of
        Inl err \<Rightarrow> (e, Some (StoreFailed err))
      | Inr (ix, ver) \<Rightarrow> (openForeignLocked open_part (rebase e ix ver), None))"

definition readablePartsLocked :: "Engine \<Rightarrow> bytes list \<Rightarrow> part list" where
  "readablePartsLocked e order = enParts e @ List.map_filter (enForeignParts e) order"


subsection \<open>The commit fence and the retry loop\<close>

definition fenceLocked :: "Engine \<Rightarrow> CommitError option" where
  "fenceLocked e = map_option FencedBy (enLoadErr e)"

definition tenureLocked :: "Engine \<Rightarrow> u64 \<Rightarrow> CommitError option" where
  "tenureLocked e stamp =
     (case enTerm e of
        None \<Rightarrow> None
      | Some current \<Rightarrow>
          (case CheckTenure stamp current (gTerm (enGeneration e)) of
             Inl s \<Rightarrow> Some (Tenure s)
           | Inr _ \<Rightarrow> if enEstablished e \<noteq> current then Some (NotEstablished current) else None))"

definition indexCommitAttempts :: nat where "indexCommitAttempts = 8"

text \<open>What one attempt meets: the term reported, rivals before the save and before the reload, the
  fate of the save, whether the reload is answered, and what opening a rival's parts gives.\<close>

record Attempt =
  atTerm :: u64
  atBefore :: "memoryBackend \<Rightarrow> memoryBackend"
  atFate :: Fate
  atAfter :: "memoryBackend \<Rightarrow> memoryBackend"
  atReload :: bool
  atOpen :: "bytes \<Rightarrow> part option"

type_synonym Guard = "(Engine \<Rightarrow> CommitError option) option"

definition run_guard :: "Guard \<Rightarrow> Engine \<Rightarrow> CommitError option" where
  "run_guard guard e = (case guard of None \<Rightarrow> None | Some g \<Rightarrow> g e)"

fun commit_attempts :: "nat \<Rightarrow> (nat \<Rightarrow> Attempt) \<Rightarrow> Guard \<Rightarrow> Engine \<Rightarrow> memoryBackend \<Rightarrow> part list \<Rightarrow> u64 \<Rightarrow> u64 \<Rightarrow>
    Engine \<times> memoryBackend \<times> part list \<times> CommitError option" where
  "commit_attempts 0 env guard e m parts epoch stamp = (e, m, parts, Some (Contended indexCommitAttempts))"
| "commit_attempts (Suc n) env guard e m parts epoch stamp =
     (let at = env n; e0 = e\<lparr>enTerm := map_option (\<lambda>_. atTerm at) (enTerm e)\<rparr>
      in case tenureLocked e0 stamp of
           Some err \<Rightarrow> (e0, m, parts, Some err)
         | None \<Rightarrow>
       case run_guard guard e0 of
           Some err \<Rightarrow> (e0, m, parts, Some err)
         | None \<Rightarrow>
       case commitOnceLocked (atFate at) e0 (atBefore at m) parts epoch of
           (e1, m1, parts1, Inl err) \<Rightarrow> (e1, m1, parts1, Some err)
         | (e1, m1, parts1, Inr True) \<Rightarrow> (e1, m1, parts1, None)
         | (e1, m1, parts1, Inr False) \<Rightarrow>
       case adoptIndexLocked (atReload at) (atOpen at) e1 (atAfter at m1) of
           (e2, Some err) \<Rightarrow> (e2, atAfter at m1, parts1, Some err)
         | (e2, None) \<Rightarrow>
       case run_guard guard e2 of
           Some err \<Rightarrow> (e2, atAfter at m1, parts1, Some err)
         | None \<Rightarrow> commit_attempts n env guard e2 (atAfter at m1) parts1 epoch stamp)"

definition commitIndexLocked :: "(nat \<Rightarrow> Attempt) \<Rightarrow> Guard \<Rightarrow> Engine \<Rightarrow> memoryBackend \<Rightarrow> part list \<Rightarrow> u64 \<Rightarrow> u64 \<Rightarrow>
    Engine \<times> memoryBackend \<times> part list \<times> CommitError option" where
  "commitIndexLocked env guard e m parts epoch stamp =
     (case fenceLocked e of
        Some err \<Rightarrow> (e, m, parts, Some err)
      | None \<Rightarrow> commit_attempts indexCommitAttempts env guard e m parts epoch stamp)"

definition updateIndexLocked :: "(nat \<Rightarrow> Attempt) \<Rightarrow> Engine \<Rightarrow> memoryBackend \<Rightarrow> Engine \<times> memoryBackend \<times> part list \<times> CommitError option" where
  "updateIndexLocked env e m = commitIndexLocked env None e m (enParts e) (enFlushedEpoch e) (engine_term e)"

subsection \<open>Loading the index\<close>

definition corruptLoadsBeforeWant :: nat where "corruptLoadsBeforeWant = 3"

text \<open>What opening a part's objects finds: the part, nothing, damage, or another failure; and whether
  a probe finds the manifest of a part already open.\<close>

datatype OpenError = Gone | Damaged | Failed bytes

record Objects =
  obPresent :: "bytes \<Rightarrow> OpenError + bool"
  obOpen :: "bytes \<Rightarrow> OpenError + part"

definition livePart :: "Objects \<Rightarrow> Entry \<Rightarrow> (bytes \<rightharpoonup> part) \<Rightarrow> (bytes \<rightharpoonup> part) \<times> (OpenError + part)" where
  "livePart ob ent open_map =
     (let fresh = (case obOpen ob (ePrefix ent) of
                     Inl err \<Rightarrow> (open_map, Inl err)
                   | Inr p \<Rightarrow> (open_map(ePrefix ent := None),
                       Inr (p\<lparr>ptMinTime := eMinTime ent, ptMaxTime := eMaxTime ent, ptBlocks := eBlocks ent,
                         ptClaim := eClaim ent, ptLevel := eLevel ent, ptTerm := eTerm ent\<rparr>)))
      in case open_map (ePrefix ent) of
           None \<Rightarrow> fresh
         | Some p \<Rightarrow>
             if \<not> matchesEntry p ent then fresh
             else case obPresent ob (ePrefix ent) of
                 Inl err \<Rightarrow> (open_map, Inl err)
               | Inr present \<Rightarrow> if present then (open_map(ePrefix ent := None), Inr p) else fresh)"

record indexLoad =
  ldParts :: "part list"
  ldIndexed :: "bytes list"
  ldHoles :: "Entry list"
  ldLost :: "Want list"
  ldCorrupt :: "bytes list"
  ldFatal :: "bytes option"

fun read_entries :: "Objects \<Rightarrow> (bytes \<Rightarrow> nat) \<Rightarrow> Generation \<Rightarrow> (bytes \<rightharpoonup> part) \<Rightarrow> indexLoad \<Rightarrow> Entry list \<Rightarrow>
    CommitError + (bytes \<rightharpoonup> part) \<times> indexLoad" where
  "read_entries ob runs' g open_map l [] = Inr (open_map, l)"
| "read_entries ob runs' g open_map l (ent # es) =
     (if eHole ent then read_entries ob runs' g open_map (l\<lparr>ldHoles := ldHoles l @ [ent]\<rparr>) es
      else case livePart ob ent open_map of
        (open_map', Inr p) \<Rightarrow>
          read_entries ob runs' g open_map' (l\<lparr>ldParts := ldParts l @ [p], ldIndexed := ldIndexed l @ [ptPrefix p]\<rparr>) es
      | (open_map', Inl Gone) \<Rightarrow> read_entries ob runs' g open_map' (l\<lparr>ldLost := ldLost l @ [WantOf ent g]\<rparr>) es
      | (open_map', Inl (Failed err)) \<Rightarrow> Inl (PartFailed err)
      | (open_map', Inl Damaged) \<Rightarrow>
          if runs' (ePrefix ent) < corruptLoadsBeforeWant
          then read_entries ob runs' g open_map' (l\<lparr>ldCorrupt := ldCorrupt l @ [ePrefix ent], ldFatal := (case ldFatal l of None \<Rightarrow> Some (ePrefix ent) | Some p \<Rightarrow> Some p)\<rparr>) es
          else read_entries ob runs' g open_map'
                 (l\<lparr>ldCorrupt := ldCorrupt l @ [ePrefix ent], ldLost := ldLost l @ [WantOf ent g]\<rparr>) es)"

definition no_load :: indexLoad where
  "no_load = \<lparr>ldParts = [], ldIndexed = [], ldHoles = [], ldLost = [], ldCorrupt = [], ldFatal = None\<rparr>"

definition open_parts :: "part list \<Rightarrow> (bytes \<rightharpoonup> part)" where
  "open_parts ps = foldl (\<lambda>m p. m(ptPrefix p \<mapsto> p)) Map.empty ps"

text \<open>Flushed parts whose commit never landed stay.\<close>

definition carried_parts :: "Index \<Rightarrow> part list \<Rightarrow> part list" where
  "carried_parts ix ps = filter (\<lambda>p. ptPrefix p \<notin> ePrefix ` set (Entries ix) \<and> ptPending p \<noteq> None) ps"

datatype LoadResult = Loaded Index Version indexLoad "part list" | LoadFailed CommitError "bytes list"

definition readIndexLocked :: "bool \<Rightarrow> Objects \<Rightarrow> Engine \<Rightarrow> memoryBackend \<Rightarrow> LoadResult" where
  "readIndexLocked answered ob e m =
     (case LoadVersioned answered m (enKey e) of
        Inl err \<Rightarrow> LoadFailed (StoreFailed err) []
      | Inr (ix, ver) \<Rightarrow>
          (case read_entries ob (enCorruptLoads e) (enGeneration e) (open_parts (enParts e)) no_load (Entries ix) of
             Inl err \<Rightarrow> LoadFailed err []
           | Inr (open_map, l) \<Rightarrow>
               case ldFatal l of
                 Some p \<Rightarrow> LoadFailed (PartFailed p) (ldCorrupt l)
               | None \<Rightarrow> Loaded ix ver (l\<lparr>ldParts := ldParts l @ carried_parts ix (enParts e)\<rparr>) (carried_parts ix (enParts e))))"

definition adoptLoadLocked :: "Engine \<Rightarrow> Index \<Rightarrow> Version \<Rightarrow> indexLoad \<Rightarrow> part list \<Rightarrow> Engine" where
  "adoptLoadLocked e ix ver l carried =
     (let flushed = Writer_Epoch ix (enWriterID e)
      in e\<lparr>enIndexVersion := ver, enForeign := [], enForeignParts := Map.empty, enHoles := ldHoles l,
           enLostParts := LostParts ix, enAllocated := AllocatedBlocks ix, enCatalog := Catalog ix,
           enParts := ldParts l, enIndexed := ldIndexed l,
           enFlushedEpoch := (if carried \<noteq> [] then max flushed (enFlushedEpoch e) else flushed),
           enEpochs := Epochs ix, enAnonEpoch := FlushedEpoch ix, enGeneration := IGeneration ix,
           enRemovals := Removed ix, enWants := Wanted ix, enPendingWants := ldLost l,
           enLoadErr := None, enCorruptLoads := (\<lambda>_. 0)\<rparr>)"

definition nextCorruptLoads :: "(bytes \<Rightarrow> nat) \<Rightarrow> bytes list \<Rightarrow> bytes \<Rightarrow> nat" where
  "nextCorruptLoads prev corrupt p = (if p \<in> set corrupt then prev p + 1 else 0)"

text \<open>The part of \<^verbatim>\<open>loadPartsLocked\<close> that replaces the engine's state or fences it.\<close>

definition load_index :: "bool \<Rightarrow> Objects \<Rightarrow> Engine \<Rightarrow> memoryBackend \<Rightarrow> Engine \<times> CommitError option" where
  "load_index answered ob e m =
     (case readIndexLocked answered ob e m of
        LoadFailed err corrupt \<Rightarrow>
          (e\<lparr>enLoadErr := Some err, enCorruptLoads := nextCorruptLoads (enCorruptLoads e) corrupt\<rparr>, Some err)
      | Loaded ix ver l carried \<Rightarrow> (adoptLoadLocked e ix ver l carried, None))"

definition establishTenureLocked :: "bool \<Rightarrow> Objects \<Rightarrow> u64 \<Rightarrow> Fate \<Rightarrow> Engine \<Rightarrow> memoryBackend \<Rightarrow> Engine \<times> memoryBackend \<times> CommitError option" where
  "establishTenureLocked answered ob now f e m =
     (case enTerm e of
        None \<Rightarrow> (e, m, None)
      | Some term \<Rightarrow>
          if term = 0 \<or> enEstablished e = term then (e, m, None)
          else case load_index answered ob e m of
            (e1, Some err) \<Rightarrow> (e1, m, Some err)
          | (e1, None) \<Rightarrow>
              let e2 = e1\<lparr>enTerm := Some now\<rparr>
              in case CheckTenure term now (gTerm (enGeneration e2)) of
                   Inl s \<Rightarrow> (e2, m, Some (Tenure s))
                 | Inr _ \<Rightarrow>
                     (case commitOnceLocked f e2 m (enParts e2) (enFlushedEpoch e2) of
                        (e3, m', parts, Inl err) \<Rightarrow> (e3, m', Some err)
                      | (e3, m', parts, Inr ok) \<Rightarrow>
                          if \<not> ok then (e3, m', Some (StoreFailed Conflict)) else (e3\<lparr>enEstablished := term\<rparr>, m', None)))"

end
