(* ===== verification/Accounting.thy ===== *)
theory Accounting
  imports Commit
begin

text \<open>
  No part leaves the index silently. Writers over one prefix overwrite one object, so each commit
  must account for every entry of the index it replaces: publish it again, record its removal, or
  state the obligation to get it back. \<open>accounted\<close> is what an engine knows about the index whose
  version it holds; building the next index, landing it, losing the race, rebasing and loading keep
  it, and the conditional write makes the replaced index the one that was accounted for.
\<close>

subsection \<open>The entries of the next index\<close>

lemma foldl_Add:
  "foldl Add ix es = ix\<lparr>Entries := foldl (put_sorted compareEntryPrefix) (Entries ix) es\<rparr>"
  by (induction es arbitrary: ix) (simp_all add: Add_def)

lemma foldl_put_keys:
  "ePrefix ` set (foldl (put_sorted compareEntryPrefix) xs es) = ePrefix ` set xs \<union> ePrefix ` set es"
  by (induction es arbitrary: xs) (auto simp: ent.put_sorted_keys)

lemma foldl_Add_keys:
  "ePrefix ` set (Entries (foldl Add ix es)) = ePrefix ` set (Entries ix) \<union> ePrefix ` set es"
  by (simp add: foldl_Add foldl_put_keys)

lemma foldl_RecordWant:
  "foldl RecordWant ix ws = ix\<lparr>Wanted := foldl (put_sorted compareWantPrefix) (Wanted ix) ws\<rparr>"
  by (induction ws arbitrary: ix) (simp_all add: RecordWant_def)

lemma foldl_put_want_keys:
  "wPrefix ` set (foldl (put_sorted compareWantPrefix) xs ws) = wPrefix ` set xs \<union> wPrefix ` set ws"
  by (induction ws arbitrary: xs) (auto simp: wan.put_sorted_keys)

lemma state_want_fold:
  "foldl (state_want g) ix ws = foldl RecordWant ix (map (\<lambda>w. w\<lparr>wGeneration := g\<rparr>) ws)"
  by (induction ws arbitrary: ix) (simp_all add: state_want_def)

definition hole_of :: "Want \<Rightarrow> Entry" where
  "hole_of w = (want_Entry w)\<lparr>eHole := True\<rparr>"

lemma RecordHole_fold:
  "Entries (foldl (\<lambda>ix w. fst (RecordHole ix w)) ix ws) = foldl (put_sorted compareEntryPrefix) (Entries ix) (map hole_of ws)"
proof (induction ws arbitrary: ix)
  case (Cons w ws)
  have "Entries (fst (RecordHole ix w)) = put_sorted compareEntryPrefix (Entries ix) (hole_of w)"
    by (simp add: RecordHole_def Let_def Add_def hole_of_def)
  then show ?case using Cons by simp
qed simp

lemma hole_of_simps [simp]: "ePrefix (hole_of w) = wPrefix w" "eHole (hole_of w)"
  by (simp_all add: hole_of_def want_Entry_def)

lemma add_parts_adds:
  "add_parts a ix ps = (a', ix', as) \<Longrightarrow>
   \<exists>es. ix' = foldl Add ix es \<and> map ePrefix es = map ptPrefix ps \<and> (\<forall>e \<in> set es. \<not> eHole e)"
proof (induction ps arbitrary: a ix as)
  case (Cons p ps)
  obtain a1 i where i: "part_identity a p = (a1, i)" by (rule prod.exhaust)
  obtain as' where r: "add_parts a1 (Add ix (part_entry p i)) ps = (a', ix', as')"
    using Cons(2) i by (auto split: prod.splits)
  from Cons(1)[OF this] obtain es where "ix' = foldl Add (Add ix (part_entry p i)) es" "map ePrefix es = map ptPrefix ps"
    "\<forall>e \<in> set es. \<not> eHole e" by blast
  then show ?case by (intro exI[of _ "part_entry p i # es"]) (simp add: part_entry_def)
qed auto

text \<open>What the next index is made of.\<close>

definition tombstones :: "Engine \<Rightarrow> part list \<Rightarrow> Generation \<Rightarrow> Removal list" where
  "tombstones e parts g =
     enRemovals e @ map (\<lambda>p. \<lparr>rPrefix = p, rGen = g\<rparr>) (filter (\<lambda>p. p \<notin> ptPrefix ` set parts) (enIndexed e))"

definition stated_wants :: "Engine \<Rightarrow> Generation \<Rightarrow> Want list" where
  "stated_wants e g = foldl (put_sorted compareWantPrefix) (enWants e)
     (map (\<lambda>w. w\<lparr>wGeneration := g\<rparr>) (enPendingWants e @ enAdoptedWants e))"

lemma stated_wants_keys:
  "wPrefix ` set (stated_wants e g) = wPrefix ` set (enWants e @ enPendingWants e @ enAdoptedWants e)"
  by (auto simp: stated_wants_def foldl_put_want_keys image_image)

lemma RecordLineage_frame:
  "Entries (fst (RecordLineage ix)) = Entries ix" "Wanted (fst (RecordLineage ix)) = Wanted ix"
  "Removed (fst (RecordLineage ix)) = Removed ix"
  by (simp_all add: RecordLineage_def TrimCatalog_def Let_def)

lemma nextIndexLocked_facts:
  assumes "nextIndexLocked e parts epoch = (e', ix', as)"
  obtains own trimmed where "map ePrefix own = map ptPrefix parts" "\<forall>x \<in> set own. \<not> eHole x"
    "trimmed = TrimHoles (enHoles e) (foldl (put_sorted compareEntryPrefix) [] (enForeign e @ own)) (enCatalog e)"
    "Entries ix' = foldl (put_sorted compareEntryPrefix) [] (enForeign e @ own @ trimmed @ map hole_of (enPendingHoles e))"
    "enIndexed e' = remdups (map ptPrefix parts @ map ePrefix trimmed @ map wPrefix (enPendingHoles e))"
    "Removed ix' = TrimRemovals (tombstones e parts (enGeneration e')) (set (enIndexed e')) MaxRemovals"
    "Wanted ix' = TrimWants (stated_wants e (enGeneration e')) (Entries ix') (enCatalog e)"
    "catalog_ok (Catalog ix')" "enRemovals e' = Removed ix'" "enHoles e' = enHoles e" "enForeign e' = enForeign e"
    "enWants e' = enWants e" "enPendingWants e' = enPendingWants e" "enIndexVersion e' = enIndexVersion e" "enKey e' = enKey e"
    "IGeneration ix' = gen_Next (enGeneration e) (engine_term e)"
proof -
  define base where "base = next_base e epoch"
  obtain alloc ix1 assigned where a: "add_parts (NewAllocator (nextBlockLocked e base parts)) base parts = (alloc, ix1, assigned)"
    by (rule prod_cases3)
  obtain own where own: "ix1 = foldl Add base own" "map ePrefix own = map ptPrefix parts" "\<forall>x \<in> set own. \<not> eHole x"
    using add_parts_adds[OF a] by blast
  have be: "Entries base = foldl (put_sorted compareEntryPrefix) [] (enForeign e)"
    by (simp add: base_def next_base_def Let_def foldl_Add SetWriterEpoch_def empty_index_def)
  define trimmed where "trimmed = TrimHoles (enHoles e) (Entries ix1) (enCatalog e)"
  have e1: "Entries ix1 = foldl (put_sorted compareEntryPrefix) [] (enForeign e @ own)" by (simp add: own(1) foldl_Add be)
  define live where "live = remdups (map ptPrefix parts @ map ePrefix trimmed @ map wPrefix (enPendingHoles e))"
  define rems where "rems = TrimRemovals (tombstones e parts (IGeneration base)) (set live) MaxRemovals"
  define ix4 where "ix4 = foldl (\<lambda>ix w. fst (RecordHole ix w))
    (foldl Add (ix1\<lparr>AllocatedBlocks := Mark alloc, LostParts := enLostParts e\<rparr>) trimmed) (enPendingHoles e)"
  define ix5 where "ix5 = foldl (state_want (IGeneration base)) (ix4\<lparr>Removed := rems, Wanted := enWants e\<rparr>) (enPendingWants e @ enAdoptedWants e)"
  have N: "e' = e\<lparr>enGeneration := IGeneration base, enEpochs := Epochs base, enAnonEpoch := FlushedEpoch base,
        enRemovals := rems, enIndexed := live\<rparr>"
    "ix' = fst (RecordLineage (ix5\<lparr>Wanted := TrimWants (Wanted ix5) (Entries ix5) (enCatalog e), Catalog := enCatalog e\<rparr>))"
    using assms unfolding nextIndexLocked_def Let_def base_def[symmetric] a prod.case
    by (simp_all add: ix5_def ix4_def rems_def live_def trimmed_def tombstones_def)
  have e4: "Entries ix4 = foldl (put_sorted compareEntryPrefix) [] (enForeign e @ own @ trimmed @ map hole_of (enPendingHoles e))"
    by (simp add: ix4_def RecordHole_fold foldl_Add e1)
  have w5: "ix5 = ix4\<lparr>Removed := rems, Wanted := stated_wants e (IGeneration base)\<rparr>"
    by (simp add: ix5_def state_want_fold foldl_RecordWant stated_wants_def)
  have hg: "IGeneration (foldl (\<lambda>ix w. fst (RecordHole ix w)) ix ws) = IGeneration ix" for ix ws
    by (induction ws arbitrary: ix) (simp_all add: RecordHole_def Let_def Add_def SatisfyWant_def split: prod.splits)
  have "IGeneration base = gen_Next (enGeneration e) (engine_term e)"
    by (simp add: base_def next_base_def Let_def foldl_Add SetWriterEpoch_def empty_index_def)
  then have gen: "IGeneration ix' = gen_Next (enGeneration e) (engine_term e)"
    by (simp add: N(2) RecordLineage_def TrimCatalog_def Let_def w5 ix4_def hg foldl_Add own(1))
  have cat: "catalog_ok (Catalog ix')" unfolding N(2) by (rule RecordLineage_ok)
  have ents: "Entries ix' = Entries ix4" "Wanted ix' = TrimWants (stated_wants e (IGeneration base)) (Entries ix4) (enCatalog e)" "Removed ix' = rems"
    by (simp_all add: N(2) RecordLineage_frame w5)
  show ?thesis
    by (rule that[OF own(2,3), of trimmed]) (use ents e4 gen cat in \<open>simp_all add: N(1) trimmed_def e1 live_def rems_def\<close>)
qed


subsection \<open>Accounting for an index\<close>

definition accounted :: "Engine \<Rightarrow> Index \<Rightarrow> bool" where
  "accounted e ix \<longleftrightarrow> (\<forall>x \<in> set (Entries ix).
     if eHole x then ePrefix x \<in> ePrefix ` set (enHoles e)
     else ePrefix x \<in> set (enIndexed e) \<union> ePrefix ` set (enForeign e) \<union> rPrefix ` set (enRemovals e) \<union>
       wPrefix ` set (enWants e @ enPendingWants e))"

definition data_keys :: "Index \<Rightarrow> bytes set" where
  "data_keys ix = ePrefix ` {x \<in> set (Entries ix). \<not> eHole x}"

definition hole_keys :: "Index \<Rightarrow> bytes set" where
  "hole_keys ix = ePrefix ` {x \<in> set (Entries ix). eHole x}"

lemma accounted_iff:
  "accounted e ix \<longleftrightarrow> hole_keys ix \<subseteq> ePrefix ` set (enHoles e) \<and>
     data_keys ix \<subseteq> set (enIndexed e) \<union> ePrefix ` set (enForeign e) \<union> rPrefix ` set (enRemovals e) \<union>
       (wPrefix ` set (enWants e) \<union> wPrefix ` set (enPendingWants e))"
  by (auto simp: accounted_def data_keys_def hole_keys_def image_Un split: if_splits)

text \<open>
  How an entry of the replaced index is accounted for by the one that replaces it: its part is still
  named, its removal is recorded, it is owed, or an obligation for it was dropped because the entries
  published answer it; a hole is still named, or was revoked because they do.
\<close>

definition entry_kept :: "Claim list \<Rightarrow> Index \<Rightarrow> Entry \<Rightarrow> bool" where
  "entry_kept catalog ix' x \<longleftrightarrow>
     ePrefix x \<in> ePrefix ` set (Entries ix') \<or>
     (if eHole x then (\<exists>holes h live. h \<in> set holes \<and> ePrefix h = ePrefix x \<and> h \<notin> set (TrimHoles holes live catalog) \<and>
          ePrefix ` set live \<subseteq> ePrefix ` set (Entries ix'))
      else ePrefix x \<in> rPrefix ` set (Removed ix') \<or> ePrefix x \<in> wPrefix ` set (Wanted ix') \<or>
        (\<exists>wants w. w \<in> set wants \<and> wPrefix w = ePrefix x \<and> w \<notin> set (TrimWants wants (Entries ix') catalog)))"

definition tombstones_fit :: "Engine \<Rightarrow> part list \<Rightarrow> bool" where
  "tombstones_fit e parts \<longleftrightarrow> length (tombstones e parts (Generation 0 0)) \<le> MaxRemovals"

lemma tombstones_length: "length (tombstones e parts g) = length (tombstones e parts h)"
  by (simp add: tombstones_def)

lemma TrimRemovals_keys:
  assumes "length removals \<le> MaxRemovals"
  shows "rPrefix ` set (TrimRemovals removals live MaxRemovals) = rPrefix ` set removals - live"
proof -
  have "\<not> length (filter (\<lambda>r. rPrefix r \<notin> live) removals) > MaxRemovals"
    using order_trans[OF length_filter_le[of "\<lambda>r. rPrefix r \<notin> live" removals] assms] by (simp only: not_less)
  then show ?thesis by (auto simp: TrimRemovals_def Let_def rem.sort_func_set)
qed

lemma tombstones_keys:
  "rPrefix ` set (tombstones e parts g) = rPrefix ` set (enRemovals e) \<union> (set (enIndexed e) - ptPrefix ` set parts)"
  by (simp add: tombstones_def image_Un image_image set_diff_eq)

lemma next_keys:
  assumes "nextIndexLocked e parts epoch = (e', ix', as)"
  shows "ePrefix ` set (Entries ix') = ePrefix ` set (enForeign e) \<union> set (enIndexed e')"
    "ptPrefix ` set parts \<subseteq> set (enIndexed e')"
proof (atomize(full), rule nextIndexLocked_facts[OF assms], goal_cases)
  case (1 own trimmed)
  then have "ePrefix ` set own = ptPrefix ` set parts" by (metis set_map)
  then show ?case using 1(4,5) by (auto simp: foldl_put_keys image_image)
qed

lemma next_removed:
  assumes "nextIndexLocked e parts epoch = (e', ix', as)" "tombstones_fit e parts"
  shows "rPrefix ` set (Removed ix') = rPrefix ` set (enRemovals e) \<union> (set (enIndexed e) - ptPrefix ` set parts) - set (enIndexed e')"
proof (rule nextIndexLocked_facts[OF assms(1)], goal_cases)
  case (1 own trimmed)
  have "length (tombstones e parts (enGeneration e')) \<le> MaxRemovals"
    using assms(2) tombstones_length[of e parts "enGeneration e'" "Generation 0 0"] by (simp add: tombstones_fit_def)
  then show ?case using 1(6) by (simp add: TrimRemovals_keys tombstones_keys)
qed

lemma next_index_keeps:
  assumes "accounted e ix" "nextIndexLocked e parts epoch = (e', ix', as)" "tombstones_fit e parts" "x \<in> set (Entries ix)"
  shows "entry_kept (enCatalog e) ix' x"
proof (rule nextIndexLocked_facts[OF assms(2)], goal_cases)
  case (1 own trimmed)
  note K = next_keys[OF assms(2)] and R = next_removed[OF assms(2,3)]
  show ?case
  proof (cases "eHole x")
    case True
    then obtain h where h: "h \<in> set (enHoles e)" "ePrefix h = ePrefix x" using assms(1,4) by (fastforce simp: accounted_def)
    show ?thesis
    proof (cases "h \<in> set trimmed")
      case True
      then have "ePrefix h \<in> set (enIndexed e')" using 1(5) by simp
      then show ?thesis using K(1) h(2) by (simp add: entry_kept_def)
    next
      case False
      let ?live = "foldl (put_sorted compareEntryPrefix) [] (enForeign e @ own)"
      have "ePrefix ` set ?live \<subseteq> ePrefix ` set (Entries ix')" using 1(4) by (auto simp: foldl_put_keys)
      moreover have "h \<notin> set (TrimHoles (enHoles e) ?live (enCatalog e))" using False 1(3) by simp
      ultimately have "\<exists>holes h live. h \<in> set holes \<and> ePrefix h = ePrefix x \<and> h \<notin> set (TrimHoles holes live (enCatalog e)) \<and>
          ePrefix ` set live \<subseteq> ePrefix ` set (Entries ix')" using h by blast
      then show ?thesis using True by (simp add: entry_kept_def)
    qed
  next
    case False
    then consider "ePrefix x \<in> ePrefix ` set (Entries ix')" | "ePrefix x \<in> rPrefix ` set (Removed ix')"
      | (want) "ePrefix x \<in> wPrefix ` set (stated_wants e (enGeneration e'))"
    proof -
      have "ePrefix x \<in> data_keys ix" using False assms(4) by (simp add: data_keys_def)
      then have "ePrefix x \<in> set (enIndexed e) \<union> ePrefix ` set (enForeign e) \<union> rPrefix ` set (enRemovals e) \<union>
          (wPrefix ` set (enWants e) \<union> wPrefix ` set (enPendingWants e))"
        using assms(1) unfolding accounted_iff by blast
      then show ?thesis using that K unfolding R stated_wants_keys set_append image_Un by blast
    qed
    then show ?thesis
    proof cases
      case want
      then obtain w where w: "w \<in> set (stated_wants e (enGeneration e'))" "wPrefix w = ePrefix x" by auto
      show ?thesis
      proof (cases "w \<in> set (Wanted ix')")
        case True
        then have "ePrefix x \<in> wPrefix ` set (Wanted ix')" using w(2) by (metis imageI)
        then show ?thesis using False by (simp add: entry_kept_def)
      next
        case dropped: False
        show ?thesis using False w dropped[unfolded 1(7)] unfolding entry_kept_def by auto
      qed
    qed (use False in \<open>simp_all add: entry_kept_def\<close>)
  qed
qed

subsection \<open>What keeps the accounts\<close>

lemma accounted_after_attempt:
  assumes "accounted e ix" "nextIndexLocked e parts epoch = (e', ix', as)" "tombstones_fit e parts"
  shows "accounted e' ix"
proof (rule nextIndexLocked_facts[OF assms(2)], goal_cases)
  case (1 own trimmed)
  show ?case
    using assms(1) next_keys(2)[OF assms(2)] unfolding accounted_iff 1(9-13) next_removed[OF assms(2,3)] by blast
qed

lemma accounted_landed:
  assumes "nextIndexLocked e parts epoch = (e', ix', as)"
  shows "accounted (landed e' ix' as v) ix'"
proof (rule nextIndexLocked_facts[OF assms], goal_cases)
  case (1 own trimmed)
  have "data_keys ix' \<subseteq> ePrefix ` set (Entries ix')" by (auto simp: data_keys_def)
  then have "data_keys ix' \<subseteq> set (enIndexed e') \<union> ePrefix ` set (enForeign e')" unfolding next_keys(1)[OF assms] 1(11) by blast
  moreover have "hole_keys ix' \<subseteq> ePrefix ` set (Holes ix')" by (auto simp: hole_keys_def Holes_def)
  ultimately show ?case unfolding accounted_iff landed_def by auto
qed

lemma accounted_rebase: "accounted (rebase e ix ver) ix"
proof -
  have "ePrefix ` set (mergeHoles (enHoles e) (Holes ix)) = ePrefix ` set (enHoles e) \<union> ePrefix ` set (Holes ix)"
    by (simp add: mergeHoles_def foldl_Add_keys)
  then have "hole_keys ix \<subseteq> ePrefix ` set (enHoles (rebase e ix ver))"
    by (auto simp: rebase_def Let_def hole_keys_def Holes_def)
  moreover have "ePrefix x \<in> set (enIndexed (rebase e ix ver)) \<union> ePrefix ` set (enForeign (rebase e ix ver)) \<union>
      rPrefix ` set (enRemovals (rebase e ix ver)) \<union> wPrefix ` set (enWants (rebase e ix ver))"
    if "x \<in> set (Entries ix)" "\<not> eHole x" for x
    using that by (force simp: rebase_def Let_def foreignEntries_def list_ex_iff)
  ultimately show ?thesis unfolding accounted_iff data_keys_def by blast
qed

lemma open_foreign_keys:
  "open_foreign op had opened es = (es', all) \<Longrightarrow> map ePrefix es' = map ePrefix es"
proof (induction es arbitrary: opened es')
  case (Cons x es)
  have "ePrefix (fillRollup x p) = ePrefix x" for p by (simp add: fillRollup_def)
  then show ?case using Cons by (auto split: prod.splits option.splits)
qed simp

lemma accounted_openForeign: "accounted e ix \<Longrightarrow> accounted (openForeignLocked op e) ix"
proof -
  obtain es opened where o: "open_foreign op (enForeignParts e) Map.empty (enForeign e) = (es, opened)" by (rule prod.exhaust)
  then have "map ePrefix es = map ePrefix (enForeign e)" by (rule open_foreign_keys)
  then have "ePrefix ` set es = ePrefix ` set (enForeign e)" by (metis set_map)
  then show "accounted e ix \<Longrightarrow> accounted (openForeignLocked op e) ix"
    using o unfolding accounted_iff openForeignLocked_def by (cases "enForeign e = []") simp_all
qed

definition names_itself :: "(bytes \<rightharpoonup> part) \<Rightarrow> bool" where
  "names_itself om \<longleftrightarrow> (\<forall>p q. om p = Some q \<longrightarrow> ptPrefix q = p)"

text \<open>Opening the objects under a prefix gives a handle of that prefix.\<close>

definition opens_own :: "Objects \<Rightarrow> bool" where
  "opens_own ob \<longleftrightarrow> (\<forall>p q. obOpen ob p = Inr q \<longrightarrow> ptPrefix q = p)"

lemma livePart_own:
  assumes "livePart ob ent om = (om', r)" "opens_own ob" "names_itself om"
  shows "names_itself om'" "r = Inr p \<Longrightarrow> ptPrefix p = ePrefix ent"
  using assms by (auto simp: livePart_def Let_def names_itself_def opens_own_def split: option.splits if_splits sum.splits)

definition load_le :: "indexLoad \<Rightarrow> indexLoad \<Rightarrow> bool" where
  "load_le l l' \<longleftrightarrow> set (ldHoles l) \<subseteq> set (ldHoles l') \<and> set (ldIndexed l) \<subseteq> set (ldIndexed l') \<and>
     set (ldLost l) \<subseteq> set (ldLost l') \<and> (ldFatal l' = None \<longrightarrow> ldFatal l = None)"

definition entry_loaded :: "indexLoad \<Rightarrow> Entry \<Rightarrow> bool" where
  "entry_loaded l x \<longleftrightarrow> (if eHole x then x \<in> set (ldHoles l) else ePrefix x \<in> set (ldIndexed l) \<union> wPrefix ` set (ldLost l))"

lemma entry_loaded_le: "load_le l l' \<Longrightarrow> entry_loaded l x \<Longrightarrow> entry_loaded l' x"
  by (auto simp: load_le_def entry_loaded_def split: if_splits)

lemma read_entries_step:
  assumes "read_entries ob runs' g om l (ent # es) = Inr (om', l')" "ldFatal l' = None" "opens_own ob" "names_itself om"
  obtains om1 l1 where "read_entries ob runs' g om1 l1 es = Inr (om', l')" "names_itself om1" "load_le l l1"
    "ldFatal l1 = None \<Longrightarrow> entry_loaded l1 ent"
proof (cases "eHole ent")
  case True
  then show ?thesis using that[of om "l\<lparr>ldHoles := ldHoles l @ [ent]\<rparr>"] assms by (auto simp: load_le_def entry_loaded_def)
next
  case False
  obtain om1 r where v: "livePart ob ent om = (om1, r)" by (rule prod.exhaust)
  note own = livePart_own[OF v assms(3,4)]
  consider (ok) p where "r = Inr p" | (gone) "r = Inl Gone" | (bad) "r = Inl Damaged" | (err) e where "r = Inl (Failed e)"
    by (metis OpenError.exhaust sum.exhaust)
  then show ?thesis
  proof cases
    case ok
    then show ?thesis
      using that[of om1 "l\<lparr>ldParts := ldParts l @ [p], ldIndexed := ldIndexed l @ [ptPrefix p]\<rparr>"] assms(1) v False own
      by (auto simp: load_le_def entry_loaded_def)
  next
    case gone
    then show ?thesis
      using that[of om1 "l\<lparr>ldLost := ldLost l @ [WantOf ent g]\<rparr>"] assms(1) v False own
      by (auto simp: load_le_def entry_loaded_def WantOf_def)
  next
    case bad
    then show ?thesis
      using that[of om1 "l\<lparr>ldCorrupt := ldCorrupt l @ [ePrefix ent], ldFatal := (case ldFatal l of None \<Rightarrow> Some (ePrefix ent) | Some p \<Rightarrow> Some p)\<rparr>"]
        that[of om1 "l\<lparr>ldCorrupt := ldCorrupt l @ [ePrefix ent], ldLost := ldLost l @ [WantOf ent g]\<rparr>"] assms(1) v False own
      by (auto simp: load_le_def entry_loaded_def WantOf_def split: if_splits option.splits)
  qed (use assms(1) v False in simp)
qed

lemma read_entries_accounts:
  assumes "read_entries ob runs' g om l es = Inr (om', l')" "ldFatal l' = None" "opens_own ob" "names_itself om"
  shows "load_le l l' \<and> (\<forall>x \<in> set es. entry_loaded l' x)"
  using assms
proof (induction es arbitrary: om l)
  case (Cons ent es)
  obtain om1 l1 where s: "read_entries ob runs' g om1 l1 es = Inr (om', l')" "names_itself om1" "load_le l l1"
    "ldFatal l1 = None \<Longrightarrow> entry_loaded l1 ent"
    using read_entries_step[OF Cons(2-5)] by blast
  note IH = Cons(1)[OF s(1) Cons(3,4) s(2)]
  have "ldFatal l1 = None" using IH Cons(3) by (simp add: load_le_def)
  then have "entry_loaded l' ent" using s(4) IH entry_loaded_le by blast
  moreover have "load_le l l'" using s(3) IH Cons(3) by (auto simp: load_le_def)
  ultimately show ?case using IH by simp
qed (auto simp: load_le_def)

lemma names_itself_upd: "names_itself m \<Longrightarrow> names_itself (m(ptPrefix p \<mapsto> p))"
  by (simp add: names_itself_def)

lemma open_parts_own: "names_itself (open_parts ps)"
proof -
  have "names_itself m \<Longrightarrow> names_itself (foldl (\<lambda>m p. m(ptPrefix p \<mapsto> p)) m ps)" for m
    by (induction ps arbitrary: m) (simp_all add: names_itself_upd)
  moreover have "names_itself Map.empty" by (simp add: names_itself_def)
  ultimately show ?thesis unfolding open_parts_def by blast
qed

lemma load_index_ok:
  assumes "load_index answered ob e m = (e', None)"
  obtains ix ver om l where "LoadVersioned answered m (enKey e) = Inr (ix, ver)" "ldFatal l = None"
    "read_entries ob (enCorruptLoads e) (enGeneration e) (open_parts (enParts e)) no_load (Entries ix) = Inr (om, l)"
    "e' = adoptLoadLocked e ix ver (l\<lparr>ldParts := ldParts l @ carried_parts ix (enParts e)\<rparr>) (carried_parts ix (enParts e))"
proof (cases "LoadVersioned answered m (enKey e)")
  case (Inl err)
  then show ?thesis using assms by (simp add: load_index_def readIndexLocked_def)
next
  case (Inr r)
  obtain ix ver where r: "r = (ix, ver)" by (rule prod.exhaust)
  show ?thesis
  proof (cases "read_entries ob (enCorruptLoads e) (enGeneration e) (open_parts (enParts e)) no_load (Entries ix)")
    case (Inl err)
    then show ?thesis using assms \<open>_ = Inr r\<close> r by (simp add: load_index_def readIndexLocked_def)
  next
    case Inr2: (Inr q)
    obtain om l where q: "q = (om, l)" by (rule prod.exhaust)
    show ?thesis
    proof (cases "ldFatal l")
      case None
      then show ?thesis using that[of ix ver l om] assms Inr Inr2 r q by (simp add: load_index_def readIndexLocked_def)
    next
      case (Some p)
      then show ?thesis using assms Inr Inr2 r q by (simp add: load_index_def readIndexLocked_def)
    qed
  qed
qed

lemma adoptLoad_fields:
  "enIndexVersion (adoptLoadLocked e ix ver l cs) = ver" "enKey (adoptLoadLocked e ix ver l cs) = enKey e"
  "enHoles (adoptLoadLocked e ix ver l cs) = ldHoles l" "enIndexed (adoptLoadLocked e ix ver l cs) = ldIndexed l"
  "enPendingWants (adoptLoadLocked e ix ver l cs) = ldLost l"
  by (simp_all add: adoptLoadLocked_def Let_def)

lemma accounted_load:
  assumes "load_index answered ob e m = (e', None)" "opens_own ob"
  obtains ix where "LoadVersioned answered m (enKey e) = Inr (ix, enIndexVersion e')" "accounted e' ix" "enKey e' = enKey e"
proof -
  obtain ix ver om l where l: "LoadVersioned answered m (enKey e) = Inr (ix, ver)" "ldFatal l = None"
    "read_entries ob (enCorruptLoads e) (enGeneration e) (open_parts (enParts e)) no_load (Entries ix) = Inr (om, l)"
    "e' = adoptLoadLocked e ix ver (l\<lparr>ldParts := ldParts l @ carried_parts ix (enParts e)\<rparr>) (carried_parts ix (enParts e))"
    by (rule load_index_ok[OF assms(1)])
  have "\<forall>x \<in> set (Entries ix). entry_loaded l x"
    using read_entries_accounts[OF l(3,2) assms(2) open_parts_own] by blast
  then have "accounted e' ix" unfolding l(4) accounted_def adoptLoad_fields by (auto simp: entry_loaded_def split: if_splits)
  then show ?thesis using that l(1) by (simp add: l(4) adoptLoad_fields)
qed


subsection \<open>Several engines over one prefix\<close>

text \<open>
  The store, the engines that commit under one key, and for each the stored contents whose version
  it holds (what it last loaded, adopted or committed).
\<close>

record System =
  syStore :: memoryBackend
  syEng :: "nat \<Rightarrow> Engine"
  syBase :: "nat \<Rightarrow> bytes option"

definition decodes :: "bytes option \<Rightarrow> Index \<Rightarrow> bool" where
  "decodes d ix \<longleftrightarrow> (case d of None \<Rightarrow> ix = empty_index | Some d \<Rightarrow> Decode d = Inr ix)"

definition sys_commit :: "nat \<Rightarrow> Outcome \<Rightarrow> bool \<Rightarrow> part list \<Rightarrow> u64 \<Rightarrow> System \<Rightarrow> System" where
  "sys_commit i oc confirm parts epoch s =
     (case commitOnceLocked \<lparr>fOutcome = oc, fRivals = (\<lambda>m. m), fConfirm = confirm\<rparr> (syEng s i) (syStore s) parts epoch of
        (e', m', ps, r) \<Rightarrow>
          s\<lparr>syStore := m', syEng := (syEng s)(i := e'),
            syBase := (if r = Inr True then (syBase s)(i := stored m' (enKey e')) else syBase s)\<rparr>)"

text \<open>What an engine does between commits leaves the accounting fields alone, and only adds wants.\<close>

definition local_change :: "Engine \<Rightarrow> Engine \<Rightarrow> bool" where
  "local_change e e' \<longleftrightarrow> enKey e' = enKey e \<and> enIndexVersion e' = enIndexVersion e \<and> enHoles e' = enHoles e \<and>
     enForeign e' = enForeign e \<and> enIndexed e' = enIndexed e \<and> enRemovals e' = enRemovals e \<and> enWants e' = enWants e \<and>
     set (enPendingWants e) \<subseteq> set (enPendingWants e')"

inductive sys_reach :: "bytes \<Rightarrow> bytes option set \<Rightarrow> System \<Rightarrow> bool" for key D where
  start: "stored (syStore s) key = None \<Longrightarrow> None \<in> D \<Longrightarrow>
    (\<And>i. enKey (syEng s i) = key \<and> enIndexVersion (syEng s i) = VersionAbsent \<and> syBase s i = None) \<Longrightarrow> sys_reach key D s"
| commit: "sys_reach key D s \<Longrightarrow> tombstones_fit (syEng s i) parts \<Longrightarrow>
    nextIndexLocked (syEng s i) parts epoch = (e1, ix, as) \<Longrightarrow> sized_index ix \<Longrightarrow>
    stored (syStore (sys_commit i oc confirm parts epoch s)) key \<in> D \<Longrightarrow> sys_reach key D (sys_commit i oc confirm parts epoch s)"
| adopt: "sys_reach key D s \<Longrightarrow> adoptIndexLocked answered op (syEng s i) (syStore s) = (e', None) \<Longrightarrow>
    sys_reach key D (s\<lparr>syEng := (syEng s)(i := e'), syBase := (syBase s)(i := stored (syStore s) key)\<rparr>)"
| load: "sys_reach key D s \<Longrightarrow> load_index answered ob (syEng s i) (syStore s) = (e', None) \<Longrightarrow> opens_own ob \<Longrightarrow>
    sys_reach key D (s\<lparr>syEng := (syEng s)(i := e'), syBase := (syBase s)(i := stored (syStore s) key)\<rparr>)"
| local: "sys_reach key D s \<Longrightarrow> local_change (syEng s i) e' \<Longrightarrow> sys_reach key D (s\<lparr>syEng := (syEng s)(i := e')\<rparr>)"
| other: "sys_reach key D s \<Longrightarrow> stored m' key = stored (syStore s) key \<Longrightarrow> sys_reach key D (s\<lparr>syStore := m'\<rparr>)"

inductive_cases sys_reachE: "sys_reach key D s"

definition engine_ok :: "bytes \<Rightarrow> bytes option set \<Rightarrow> Engine \<Rightarrow> bytes option \<Rightarrow> bool" where
  "engine_ok key D e base \<longleftrightarrow> enKey e = key \<and> enIndexVersion e = version_of base \<and> base \<in> D \<and>
     (\<exists>ix. decodes base ix \<and> accounted e ix)"

lemma canon_keys: "data_keys (canon_index ix) = data_keys ix" "hole_keys (canon_index ix) = hole_keys ix"
proof -
  have c: "ePrefix (canon_entry x) = ePrefix x" "eHole (canon_entry x) = eHole x" for x by (simp_all add: canon_entry_def)
  have "{x \<in> canon_entry ` S. P (eHole x)} = canon_entry ` {x \<in> S. P (eHole x)}" for S P using c(2) by auto
  then have "ePrefix ` {x \<in> canon_entry ` S. P (eHole x)} = ePrefix ` {x \<in> S. P (eHole x)}" for S P by (simp add: image_image c(1))
  from this[of "set (Entries ix)" Not] this[of "set (Entries ix)" "\<lambda>b. b"]
  show "data_keys (canon_index ix) = data_keys ix" "hole_keys (canon_index ix) = hole_keys ix"
    by (simp_all add: data_keys_def hole_keys_def canon_index_def)
qed

lemma accounted_canon: "accounted e (canon_index ix) = accounted e ix"
  by (simp add: accounted_iff canon_keys)

lemma decodes_unique: "decodes d ix \<Longrightarrow> decodes d ix' \<Longrightarrow> ix = ix'"
  by (auto simp: decodes_def split: option.splits)

lemma decodes_stored: "sized_index ix \<Longrightarrow> catalog_ok (Catalog ix) \<Longrightarrow> decodes (Some (AppendBinary ix [])) (canon_index ix)"
  by (simp add: decodes_def Decode_AppendBinary)

text \<open>The cases of one commit attempt, with no rival between the save and its confirmation.\<close>

lemma commit_cases:
  assumes "nextIndexLocked e parts epoch = (e1, ix, as)" "enIndexVersion e1 = enIndexVersion e"
    and "commitOnceLocked \<lparr>fOutcome = oc, fRivals = (\<lambda>m. m), fConfirm = confirm\<rparr> e m parts epoch = (e', m', ps, r)"
  obtains (won) "r = Inr True" "e' = landed e1 ix as (ContentVersion (AppendBinary ix []))" "stored m' (enKey e) = Some (AppendBinary ix [])"
      "stored m (enKey e) = Some (AppendBinary ix []) \<or> version_of (stored m (enKey e)) = enIndexVersion e"
    | (unsure) "r \<noteq> Inr True" "e' = e1" "stored m' (enKey e) = Some (AppendBinary ix [])" "version_of (stored m (enKey e)) = enIndexVersion e"
    | (lost) "r \<noteq> Inr True" "e' = e1" "stored m' (enKey e) = stored m (enKey e)"
proof -
  let ?d = "AppendBinary ix []"
  obtain m1 q where q: "indexcommit_Save oc (\<lambda>m. m) confirm ix m (enKey e) (enIndexVersion e) = (m1, q)" by (rule prod.exhaust)
  have c: "commitOnceLocked \<lparr>fOutcome = oc, fRivals = (\<lambda>m. m), fConfirm = confirm\<rparr> e m parts epoch =
     (case q of Inr v \<Rightarrow> (landed e1 ix as v, m1, map (apply_assignments as) parts, Inr True)
      | Inl Conflict \<Rightarrow> (e1, m1, parts, Inr False) | Inl err \<Rightarrow> (e1, m1, parts, Inl (StoreFailed err)))"
    using assms(1,2) q by (simp add: commitOnceLocked_def split: sum.splits StoreError.splits)
  have m: "m' = m1" using c assms(3) by (auto split: sum.splits StoreError.splits)
  have store: "(\<forall>v. q = Inr v \<longrightarrow> v = ContentVersion ?d \<and> stored m1 (enKey e) = Some ?d) \<and>
    (stored m1 (enKey e) = stored m (enKey e) \<or>
     stored m1 (enKey e) = Some ?d \<and> version_of (stored m (enKey e)) = enIndexVersion e)"
  proof (cases oc)
    case Answered
    then show ?thesis using q by (auto simp: indexcommit_answered Save_answered update_conv' split: if_splits)
  next
    case LostBefore
    then show ?thesis using q by (auto simp: indexcommit_lost split: if_splits)
  next
    case LostAfter
    then show ?thesis
      using q by (auto simp: indexcommit_lost[OF refl] CompareAndSwap_cases update_conv' split: if_splits)
  qed
  show ?thesis
  proof (cases q)
    case (Inr v)
    then have "r = Inr True" "e' = landed e1 ix as (ContentVersion ?d)" using c assms(3) store by auto
    then show ?thesis using won store Inr m by auto
  next
    case (Inl err)
    then have "r \<noteq> Inr True" "e' = e1" using c assms(3) by (auto split: StoreError.splits)
    then show ?thesis using unsure lost store m by auto
  qed
qed


lemma commit_answered:
  assumes "nextIndexLocked e parts epoch = (e1, ix, as)" "fOutcome f = Answered"
  shows "commitOnceLocked f e m parts epoch =
    (if version_of (stored m (enKey e)) = enIndexVersion e
     then (landed e1 ix as (ContentVersion (AppendBinary ix [])), AList.update (enKey e) (AppendBinary ix []) m,
           map (apply_assignments as) parts, Inr True)
     else (e1, m, parts, Inr False))"
proof -
  have "enIndexVersion e1 = enIndexVersion e" by (rule nextIndexLocked_facts[OF assms(1)])
  then show ?thesis by (simp add: commitOnceLocked_def assms indexcommit_answered Save_answered)
qed

lemma engine_commit_ok:
  assumes "engine_ok key D e base" "nextIndexLocked e parts epoch = (e1, ix, as)" "tombstones_fit e parts"
  shows "engine_ok key D e1 base"
    "sized_index ix \<Longrightarrow> Some (AppendBinary ix []) \<in> D \<Longrightarrow>
       engine_ok key D (landed e1 ix as (ContentVersion (AppendBinary ix []))) (Some (AppendBinary ix []))"
proof (atomize(full), rule nextIndexLocked_facts[OF assms(2)], goal_cases)
  case (1 own trimmed)
  obtain b where b: "decodes base b" "accounted e b" using assms(1) by (auto simp: engine_ok_def)
  have "engine_ok key D e1 base"
    using assms(1) b(1) accounted_after_attempt[OF b(2) assms(2,3)] 1(14,15) by (auto simp: engine_ok_def)
  moreover have "engine_ok key D (landed e1 ix as (ContentVersion (AppendBinary ix []))) (Some (AppendBinary ix []))"
    if "sized_index ix" "Some (AppendBinary ix []) \<in> D"
    using decodes_stored[OF that(1) 1(8)] accounted_landed[OF assms(2)] that(2) assms(1) 1(15) unfolding engine_ok_def
    by (auto simp: accounted_canon version_of_def landed_def)
  ultimately show ?case by blast
qed

lemma sys_invariant:
  assumes "sys_reach key D s"
  shows "(\<forall>i. engine_ok key D (syEng s i) (syBase s i)) \<and> stored (syStore s) key \<in> D"
  using assms
proof (induction rule: sys_reach.induct)
  case (start s)
  have "accounted e empty_index" for e by (simp add: accounted_def empty_index_def)
  then have "engine_ok key D (syEng s i) (syBase s i)" for i
    using start(2) start(3)[of i] by (auto simp: engine_ok_def decodes_def version_of_def)
  then show ?case using start(1,2) by simp
next
  case (commit s i parts epoch e1 ix as oc confirm)
  obtain e' m' ps r where c: "commitOnceLocked \<lparr>fOutcome = oc, fRivals = (\<lambda>m. m), fConfirm = confirm\<rparr> (syEng s i) (syStore s) parts epoch = (e', m', ps, r)"
    by (rule prod_cases4)
  have ok: "engine_ok key D (syEng s i) (syBase s i)" using commit(6) by blast
  note E = engine_commit_ok[OF ok commit(3,2)]
  have k: "enKey (syEng s i) = key" "enKey e1 = key" "enIndexVersion e1 = enIndexVersion (syEng s i)"
    using ok E(1) by (auto simp: engine_ok_def)
  have s': "sys_commit i oc confirm parts epoch s = s\<lparr>syStore := m', syEng := (syEng s)(i := e'),
      syBase := (if r = Inr True then (syBase s)(i := stored m' (enKey e')) else syBase s)\<rparr>" by (simp add: sys_commit_def c)
  have d: "stored m' key \<in> D" using commit(5) by (simp add: s')
  have "engine_ok key D e' (if r = Inr True then stored m' (enKey e') else syBase s i)"
  proof (cases rule: commit_cases[OF commit(3) k(3) c, case_names won unsure lost])
    case won
    then have "enKey e' = key" using k(2) by (simp add: landed_def)
    then show ?thesis using won E(2)[OF commit(4)] d k(1) by simp
  qed (use E(1) in simp_all)
  then show ?case using commit(6) d by (cases "r = Inr True") (simp_all add: s')
next
  case (adopt s answered op i e')
  obtain ix ver where l: "LoadVersioned answered (syStore s) (enKey (syEng s i)) = Inr (ix, ver)"
    "e' = openForeignLocked op (rebase (syEng s i) ix ver)"
    using adopt(2) by (auto simp: adoptIndexLocked_def split: sum.splits)
  have k: "enKey (syEng s i) = key" using adopt(3) by (auto simp: engine_ok_def)
  have "enKey (openForeignLocked op e) = enKey e" "enIndexVersion (openForeignLocked op e) = enIndexVersion e" for e
    by (simp_all add: openForeignLocked_def split: prod.splits)
  then have f: "enKey e' = key" "enIndexVersion e' = ver" using k by (simp_all add: l(2) rebase_def Let_def)
  have "accounted e' ix" unfolding l(2) by (rule accounted_openForeign[OF accounted_rebase])
  moreover have "ver = version_of (stored (syStore s) key)" "decodes (stored (syStore s) key) ix"
    using LoadVersioned_version[OF l(1)] k by (auto simp: decodes_def split: option.splits)
  ultimately have "engine_ok key D e' (stored (syStore s) key)" using f adopt(3) by (auto simp: engine_ok_def)
  then show ?case using adopt(3) by simp
next
  case (load s answered ob i e')
  have k: "enKey (syEng s i) = key" using load(4) by (auto simp: engine_ok_def)
  obtain ix where l: "LoadVersioned answered (syStore s) (enKey (syEng s i)) = Inr (ix, enIndexVersion e')" "accounted e' ix"
    "enKey e' = enKey (syEng s i)" by (rule accounted_load[OF load(2,3)])
  have "decodes (stored (syStore s) key) ix" using LoadVersioned_version[OF l(1)] k by (auto simp: decodes_def split: option.splits)
  then have "engine_ok key D e' (stored (syStore s) key)"
    using LoadVersioned_version[OF l(1)] l(2,3) k load(4) by (auto simp: engine_ok_def)
  then show ?case using load(4) by simp
next
  case (local s i e')
  have f: "enHoles e' = enHoles (syEng s i)" "enForeign e' = enForeign (syEng s i)" "enIndexed e' = enIndexed (syEng s i)"
    "enRemovals e' = enRemovals (syEng s i)" "enWants e' = enWants (syEng s i)"
    "wPrefix ` set (enPendingWants (syEng s i)) \<subseteq> wPrefix ` set (enPendingWants e')"
    using local(2) by (auto simp: local_change_def)
  have "accounted (syEng s i) ix \<Longrightarrow> accounted e' ix" for ix unfolding accounted_iff f(1-5) using f(6) by blast
  then have "engine_ok key D e' (syBase s i)" using local(2,3) by (fastforce simp: engine_ok_def local_change_def)
  then show ?case using local(3) by simp
next
  case (other s m')
  then show ?case by simp
qed


subsection \<open>Properties of the commit protocol\<close>



definition fresh_engine :: "bytes \<Rightarrow> Engine" where
  "fresh_engine key = \<lparr>enTerm = None, enWriterID = [], enKey = key, enParts = [], enForeign = [], enForeignParts = Map.empty,
     enGeneration = Generation 0 0, enEpochs = [], enAnonEpoch = 0, enFlushedEpoch = 0, enWants = [], enPendingWants = [],
     enAdoptedWants = [], enPendingHoles = [], enHoles = [], enLostParts = 0, enAllocated = Block 0 0, enCatalog = [],
     enIndexed = [], enRemovals = [], enIndexVersion = VersionAbsent, enEstablished = 0, enLoadErr = None, enCorruptLoads = (\<lambda>_. 0)\<rparr>"

definition ex_new_part :: part where
  "ex_new_part = \<lparr>ptPrefix = [97], ptMinTime = 1, ptMaxTime = 2, ptBlocks = unset, ptClaim = no_claim, ptLevel = 0, ptTerm = 0,
     ptPending = Some FlushPlan, ptRollup = [], ptRollupKnown = False\<rparr>"

definition ex_system :: System where
  "ex_system = \<lparr>syStore = [], syEng = (\<lambda>_. fresh_engine [107]), syBase = (\<lambda>_. None)\<rparr>"

lemma ex_next:
  "Entries (fst (snd (nextIndexLocked (fresh_engine [107]) [ex_new_part] 1))) =
     [no_entry\<lparr>ePrefix := [97], eMinTime := 1, eMaxTime := 2, eBlocks := Single (Block 0 1)\<rparr>]"
  by code_simp


end
