(* ===== verification/Tenure.thy ===== *)
theory Tenure
  imports Accounting
begin

text \<open>
  The retry loop of a commit and the fence between tenures (\<^verbatim>\<open>commitIndexLocked\<close>, \<^verbatim>\<open>tenureLocked\<close>,
  \<^verbatim>\<open>establishTenureLocked\<close> of \<^verbatim>\<open>src/engine/index.go\<close>): a commit lands once rivals stop, and a writer
  whose tenure was overtaken commits nothing.
\<close>

definition quiet :: "Attempt \<Rightarrow> bool" where
  "quiet at \<longleftrightarrow> atBefore at = (\<lambda>m. m) \<and> atAfter at = (\<lambda>m. m) \<and> fOutcome (atFate at) = Answered"

lemma openForeign_frame:
  "enIndexVersion (openForeignLocked op e) = enIndexVersion e" "enKey (openForeignLocked op e) = enKey e"
  "enTerm (openForeignLocked op e) = enTerm e" "enGeneration (openForeignLocked op e) = enGeneration e"
  by (simp_all add: openForeignLocked_def split: prod.splits)

lemma rebase_fields:
  "enIndexVersion (rebase e ix v) = v" "enKey (rebase e ix v) = enKey e" "enTerm (rebase e ix v) = enTerm e"
  "enGeneration (rebase e ix v) = (if gen_Compare (IGeneration ix) (enGeneration e) > 0 then IGeneration ix else enGeneration e)"
  by (simp_all add: rebase_def Let_def)

lemma rebase_generation: "IGeneration ix \<le> enGeneration (rebase e ix v)"
  using gen_Compare_sign(3)[of "IGeneration ix" "enGeneration e"] by (auto simp: rebase_fields)

lemma adopt_loads:
  assumes "decodes (stored m (enKey e)) ix"
  shows "adoptIndexLocked True op e m = (openForeignLocked op (rebase e ix (version_of (stored m (enKey e)))), None)"
  using assms
  by (auto simp: adoptIndexLocked_def LoadVersioned_def request_read_def ReadVersioned_def decodes_def version_of_def split: option.splits)

text \<open>One attempt of a writer with no cluster and no guard.\<close>

lemma attempt_step:
  assumes "enTerm e = None"
  shows "commit_attempts (Suc n) env None e m parts epoch stamp =
    (case commitOnceLocked (atFate (env n)) e (atBefore (env n) m) parts epoch of
        (e1, m1, parts1, Inl err) \<Rightarrow> (e1, m1, parts1, Some err)
      | (e1, m1, parts1, Inr True) \<Rightarrow> (e1, m1, parts1, None)
      | (e1, m1, parts1, Inr False) \<Rightarrow>
          case adoptIndexLocked (atReload (env n)) (atOpen (env n)) e1 (atAfter (env n) m1) of
            (e2, Some err) \<Rightarrow> (e2, atAfter (env n) m1, parts1, Some err)
          | (e2, None) \<Rightarrow> commit_attempts n env None e2 (atAfter (env n) m1) parts1 epoch stamp)"
proof -
  have e: "e\<lparr>enTerm := None\<rparr> = e" using assms by (metis Engine.surjective Engine.update_convs(1))
  show ?thesis
    unfolding commit_attempts.simps(2) Let_def assms option.map e tenureLocked_def run_guard_def option.case by (rule refl)
qed

lemma next_frame:
  assumes "nextIndexLocked e parts epoch = (e1, ix, as)"
  shows "enKey e1 = enKey e" "enTerm e1 = enTerm e" "enIndexVersion e1 = enIndexVersion e"
    "enGeneration e1 = gen_Next (enGeneration e) (engine_term e)"
proof -
  have "nextIndexLocked e parts epoch = (e1, ix, as) \<Longrightarrow> enTerm e1 = enTerm e \<and> enGeneration e1 = IGeneration (next_base e epoch)"
    by (auto simp: nextIndexLocked_def Let_def split: prod.splits)
  moreover have "IGeneration (next_base e epoch) = gen_Next (enGeneration e) (engine_term e)"
    by (simp add: next_base_def Let_def foldl_Add SetWriterEpoch_def empty_index_def)
  ultimately show "enTerm e1 = enTerm e" "enGeneration e1 = gen_Next (enGeneration e) (engine_term e)" using assms by auto
  show "enKey e1 = enKey e" "enIndexVersion e1 = enIndexVersion e" by (rule nextIndexLocked_facts[OF assms]; simp)+
qed




subsection \<open>Fencing a displaced writer\<close>

lemma overtaken_refused: "gTerm (enGeneration e) > stamp \<Longrightarrow> enTerm e = Some t \<Longrightarrow> tenureLocked e stamp \<noteq> None"
  by (auto simp: tenureLocked_def CheckTenure_def)

lemma gTerm_mono: "g \<le> h \<Longrightarrow> gTerm g \<le> gTerm h"
  by (auto simp: less_eq_Generation_def)

lemma stale_writer_refused:
  assumes "enTerm e = Some t" "\<forall>n. quiet (env n)" "version_of (stored m (enKey e)) \<noteq> enIndexVersion e"
    and "decodes (stored m (enKey e)) ix" "stamp < gTerm (IGeneration ix)"
    and "commitIndexLocked env guard e m parts epoch stamp = (e', m', parts', err)"
  shows "m' = m \<and> err \<noteq> None"
proof (cases "fenceLocked e")
  case (Some x)
  then have "commitIndexLocked env guard e m parts epoch stamp = (e, m, parts, Some x)" by (simp add: commitIndexLocked_def)
  then show ?thesis using assms(6) by simp
next
  case None
  define e0 where "e0 = e\<lparr>enTerm := map_option (\<lambda>_. atTerm (env 7)) (enTerm e)\<rparr>"
  have k0: "enKey e0 = enKey e" "enIndexVersion e0 = enIndexVersion e" "enTerm e0 = Some (atTerm (env 7))"
    using assms(1) by (simp_all add: e0_def)
  obtain e1 ix1 as where n: "nextIndexLocked e0 parts epoch = (e1, ix1, as)" by (rule prod_cases3)
  have q: "fOutcome (atFate (env k)) = Answered" "atBefore (env k) = (\<lambda>m. m)" "atAfter (env k) = (\<lambda>m. m)" for k
    using assms(2) by (auto simp: quiet_def)
  have c: "commitOnceLocked (atFate (env 7)) e0 m parts epoch = (e1, m, parts, Inr False)"
    using commit_answered[OF n q(1)[of 7], of m] assms(3) k0 by simp
  have "commitIndexLocked env guard e m parts epoch stamp = commit_attempts (Suc 7) env guard e m parts epoch stamp"
    using None by (simp add: commitIndexLocked_def indexCommitAttempts_def)
  note start = this[unfolded assms(6) commit_attempts.simps(2) Let_def, folded e0_def, unfolded q(2,3) c]
  show ?thesis
  proof (cases "tenureLocked e0 stamp = None \<and> run_guard guard e0 = None \<and> atReload (env 7)")
    case False
    then show ?thesis using start
      by (auto simp: adoptIndexLocked_def LoadVersioned_def request_read_def split: option.splits)
  next
    case True
    have "adoptIndexLocked True (atOpen (env 7)) e1 m = (openForeignLocked (atOpen (env 7)) (rebase e1 ix (version_of (stored m (enKey e)))), None)"
      using adopt_loads[of m e1 ix] assms(4) next_frame(1)[OF n] k0(1) by simp
    then obtain e2 where a: "adoptIndexLocked True (atOpen (env 7)) e1 m = (e2, None)"
      "e2 = openForeignLocked (atOpen (env 7)) (rebase e1 ix (version_of (stored m (enKey e))))" by blast
    define e3 where "e3 = e2\<lparr>enTerm := map_option (\<lambda>_. atTerm (env 6)) (enTerm e2)\<rparr>"
    have "enTerm e2 = Some (atTerm (env 7))" using next_frame(2)[OF n] k0(3) by (simp add: a(2) openForeign_frame rebase_fields)
    then have t: "enTerm e3 = Some (atTerm (env 6))" "enGeneration e3 = enGeneration (rebase e1 ix (version_of (stored m (enKey e))))"
      by (simp_all add: e3_def a(2) openForeign_frame)
    have "gTerm (enGeneration e3) > stamp"
      unfolding t(2) using gTerm_mono[OF rebase_generation] assms(5) by (rule order_less_le_trans[rotated])
    then obtain x where x: "tenureLocked e3 stamp = Some x" using overtaken_refused[OF _ t(1), of stamp] by blast
    have seven: "(7::nat) = Suc 6" by simp
    have last': "commit_attempts 7 env guard e2 m parts epoch stamp = (e3, m, parts, Some x)"
      unfolding seven commit_attempts.simps(2) Let_def e3_def[symmetric] x option.case by (rule refl)
    have t3: "tenureLocked e0 stamp = None" "run_guard guard e0 = None" "atReload (env 7) = True" using True by simp_all
    have "(e', m', parts', err) =
      (case run_guard guard e2 of None \<Rightarrow> commit_attempts 7 env guard e2 m parts epoch stamp | Some y \<Rightarrow> (e2, m, parts, Some y))"
      using start unfolding t3 option.case prod.case sum.case bool.case a(1) .
    then show ?thesis unfolding last' by (cases "run_guard guard e2") simp_all
  qed
qed

lemma established_index:
  assumes "establishTenureLocked answered ob term \<lparr>fOutcome = oc, fRivals = (\<lambda>m. m), fConfirm = confirm\<rparr> b m = (b', m', None)"
    and "enTerm b = Some term" "term \<noteq> 0" "enEstablished b \<noteq> term" "load_index answered ob b m = (b1, None)"
    and "nextIndexLocked (b1\<lparr>enTerm := Some term\<rparr>) (enParts b1) (enFlushedEpoch b1) = (b2, ix, as)" "sized_index ix"
  shows "decodes (stored m' (enKey b)) (canon_index ix)" "term \<le> gTerm (IGeneration (canon_index ix))" "enEstablished b' = term"
proof -
  let ?b = "b1\<lparr>enTerm := Some term\<rparr>" and ?f = "\<lparr>fOutcome = oc, fRivals = (\<lambda>m. m), fConfirm = confirm\<rparr>"
  obtain e3 m3 ps r where c: "commitOnceLocked ?f ?b m (enParts b1) (enFlushedEpoch b1) = (e3, m3, ps, r)" by (rule prod_cases4)
  have r: "r = Inr True" "m3 = m'" "enEstablished b' = term"
    using assms(1-5) c
    by (auto simp: establishTenureLocked_def Let_def split: sum.splits if_splits)
  have k: "enKey b1 = enKey b"
    using assms(5) by (rule load_index_ok) (simp add: adoptLoad_fields)
  have v: "enIndexVersion b2 = enIndexVersion ?b" by (rule next_frame(3)[OF assms(6)])
  have s: "stored m' (enKey b) = Some (AppendBinary ix [])"
    using r k by (cases rule: commit_cases[OF assms(6) v c, case_names won unsure lost]) auto
  have cat: "catalog_ok (Catalog ix)" and g: "IGeneration ix = gen_Next (enGeneration ?b) (engine_term ?b)"
    by (rule nextIndexLocked_facts[OF assms(6)]; simp)+
  show "decodes (stored m' (enKey b)) (canon_index ix)" using decodes_stored[OF assms(7) cat] s by simp
  show "term \<le> gTerm (IGeneration (canon_index ix))"
    by (simp add: canon_index_def g gen_Next_def engine_term_def not_less)
  show "enEstablished b' = term" by (rule r(3))
qed

text \<open>C15. Once a tenure is established, a writer of an earlier one commits nothing. The first commit of
  the new tenure moves the index to its term; a writer that still holds the version from before,
  whose operation began under an earlier term, is refused whatever term it now reports: its save loses
  the race, the rebase shows it the later term, and the store is left as the new tenure wrote it.\<close>

theorem established_tenure_fences_predecessors:
  assumes "establishTenureLocked answered ob term \<lparr>fOutcome = oc, fRivals = (\<lambda>m. m), fConfirm = confirm\<rparr> b m = (b', m', None)"
    and "enTerm b = Some term" "term \<noteq> 0" "enEstablished b \<noteq> term" "load_index answered ob b m = (b1, None)"
    and "nextIndexLocked (b1\<lparr>enTerm := Some term\<rparr>) (enParts b1) (enFlushedEpoch b1) = (b2, ix, as)" "sized_index ix"
    and "enTerm a = Some t" "enKey a = enKey b" "enIndexVersion a \<noteq> version_of (stored m' (enKey b))" "stamp < term"
    and "\<forall>n. quiet (env n)"
  shows "enEstablished b' = term \<and>
    (case commitIndexLocked env guard a m' parts epoch stamp of (a', m'', parts', err) \<Rightarrow> m'' = m' \<and> err \<noteq> None)"
proof -
  note E = established_index[OF assms(1-7)]
  obtain a' m'' parts' err where c: "commitIndexLocked env guard a m' parts epoch stamp = (a', m'', parts', err)" by (rule prod_cases4)
  have "m'' = m' \<and> err \<noteq> None"
    by (rule stale_writer_refused[OF assms(8,12) _ _ _ c, of "canon_index ix"]) (use assms(9-11) E in \<open>auto intro: order_less_le_trans\<close>)
  then show ?thesis using E(3) c by simp
qed

definition ex_owner :: "u64 \<Rightarrow> Engine" where
  "ex_owner t = (fresh_engine [107])\<lparr>enTerm := Some t\<rparr>"

definition ex_objects :: Objects where
  "ex_objects = \<lparr>obPresent = (\<lambda>_. Inl Gone), obOpen = (\<lambda>_. Inl Gone)\<rparr>"

definition ex_quiet :: Attempt where
  "ex_quiet = \<lparr>atTerm = 1, atBefore = (\<lambda>m. m), atFate = \<lparr>fOutcome = Answered, fRivals = (\<lambda>m. m), fConfirm = True\<rparr>,
     atAfter = (\<lambda>m. m), atReload = True, atOpen = (\<lambda>_. None)\<rparr>"

theorem established_tenure_fences_predecessors_witness:
  "\<exists>b' m' a' parts' err. establishTenureLocked True ex_objects 2 \<lparr>fOutcome = Answered, fRivals = (\<lambda>m. m), fConfirm = True\<rparr> (ex_owner 2) [] =
       (b', m', None) \<and>
     commitIndexLocked (\<lambda>_. ex_quiet) None ((ex_owner 1)\<lparr>enEstablished := 1\<rparr>) m' [ex_new_part] 1 1 = (a', m', parts', Some err)"
proof -
  let ?f = "\<lparr>fOutcome = Answered, fRivals = (\<lambda>m. m), fConfirm = True\<rparr> :: Fate" and ?a = "(ex_owner 1)\<lparr>enEstablished := 1\<rparr>"
  define b1 where "b1 = adoptLoadLocked (ex_owner 2) empty_index VersionAbsent no_load []"
  have l: "load_index True ex_objects (ex_owner 2) [] = (b1, None)"
    by (simp add: load_index_def readIndexLocked_def LoadVersioned_def request_read_def ReadVersioned_def empty_index_def b1_def
        no_load_def carried_parts_def ex_owner_def fresh_engine_def)
  have z: "sized_index (fst (snd (nextIndexLocked (b1\<lparr>enTerm := Some 2\<rparr>) (enParts b1) (enFlushedEpoch b1))))"
  proof -
    define ix where "ix = fst (snd (nextIndexLocked (b1\<lparr>enTerm := Some 2\<rparr>) (enParts b1) (enFlushedEpoch b1)))"
    have "(Entries ix, Removed ix, Epochs ix, Wanted ix, Catalog ix) = ([], [], [], [], [])"
      unfolding ix_def b1_def by code_simp
    then show ?thesis unfolding ix_def[symmetric] by (simp add: sized_index_def)
  qed
  obtain b2 ix as where n: "nextIndexLocked (b1\<lparr>enTerm := Some 2\<rparr>) (enParts b1) (enFlushedEpoch b1) = (b2, ix, as)" by (rule prod_cases3)
  have o: "enTerm (ex_owner 2) = Some 2" "enEstablished (ex_owner 2) = 0" "enKey (ex_owner 2) = [107]"
    by (simp_all add: ex_owner_def fresh_engine_def)
  have b1: "enKey b1 = [107]" "enIndexVersion b1 = VersionAbsent" "enGeneration b1 = Generation 0 0"
    by (simp_all add: b1_def adoptLoad_fields o) (simp add: adoptLoadLocked_def Let_def empty_index_def)
  have c: "commitOnceLocked ?f (b1\<lparr>enTerm := Some 2\<rparr>) [] (enParts b1) (enFlushedEpoch b1) =
      (landed b2 ix as (ContentVersion (AppendBinary ix [])), AList.update [107] (AppendBinary ix []) [], map (apply_assignments as) (enParts b1), Inr True)"
    using commit_answered[OF n, of ?f "[]"] b1 by (simp add: version_of_def)
  obtain b' m' where e: "establishTenureLocked True ex_objects 2 ?f (ex_owner 2) [] = (b', m', None)"
      "m' = AList.update [107] (AppendBinary ix []) []"
    using o l c b1 by (simp add: establishTenureLocked_def CheckTenure_def)
  have a: "enTerm ?a = Some 1" "enKey ?a = enKey (ex_owner 2)" "enIndexVersion ?a \<noteq> version_of (stored m' (enKey (ex_owner 2)))"
    by (simp_all add: ex_owner_def fresh_engine_def e(2) version_of_def)
  have q: "\<forall>n. quiet ((\<lambda>_. ex_quiet) n)" by (simp add: quiet_def ex_quiet_def)
  obtain a' m'' parts' err where r: "commitIndexLocked (\<lambda>_. ex_quiet) None ?a m' [ex_new_part] 1 1 = (a', m'', parts', err)" by (rule prod_cases4)
  have "m'' = m' \<and> err \<noteq> None"
    using established_tenure_fences_predecessors[OF e(1) o(1) _ _ l n _ a _ q, of 1 None "[ex_new_part]" 1] z n o(2) r by simp
  then show ?thesis using e(1) r by auto
qed

end
