(* ===== verification/Bitstream.thy ===== *)
theory Bitstream
  imports Varint
begin

text \<open>
  The bit writer and the bit reader of \<^verbatim>\<open>src/encoding/bitstream/bitstream.go\<close>, on which every column
  codec is built. \<open>Bit_Strings\<close> and \<open>Bit_Reading\<close> relate them to bit strings: a writer to the bits written so
  far, a reader to the bits it has still to read.

  A Go \<^verbatim>\<open>uint8\<close> count is a natural number below 256 whose subtraction wraps (\<open>sub8\<close>); an \<^verbatim>\<open>int\<close> offset
  into a slice is a natural number. A failed operation returns its error and no reader, since no caller
  reads on after an error; a panic is an error value of its own.
\<close>

datatype CodecError =
    io_EOF | io_ErrUnexpectedEOF \<comment> \<open>of package \<^verbatim>\<open>io\<close>, returned by the bit reader\<close>
  | errEOF | errUnexpectedEOF \<comment> \<open>the sentinels of package \<^verbatim>\<open>chunk\<close>\<close>
  | errUnsupportedCodec | errNotTsCodec
  | errMessage string
  | Panic

definition attempt :: "'e + 'a \<Rightarrow> ('a \<Rightarrow> 'e + 'b) \<Rightarrow> 'e + 'b" where
  "attempt m f = (case m of Inl e \<Rightarrow> Inl e | Inr x \<Rightarrow> f x)"

lemma attempt_simps [simp]: "attempt (Inr x) f = f x" "attempt (Inl e) f = Inl e"
  by (simp_all add: attempt_def)

lemma attempt_eq_Inr: "attempt m f = Inr y \<longleftrightarrow> (\<exists>x. m = Inr x \<and> f x = Inr y)"
  by (cases m) simp_all

lemma attempt_cong [fundef_cong]: "m = m' \<Longrightarrow> (\<And>x. m' = Inr x \<Longrightarrow> f x = g x) \<Longrightarrow> attempt m f = attempt m' g"
  by (cases m') simp_all

definition sub8 :: "nat \<Rightarrow> nat \<Rightarrow> nat" where
  "sub8 a b = (a + 256 - b) mod 256"

lemma sub8_exact [simp]: "b \<le> a \<Longrightarrow> a < 256 \<Longrightarrow> sub8 a b = a - b"
  using mod_add_self2[of "a - b" 256] by (simp add: sub8_def)

subsection \<open>The writer\<close>

record Writer =
  w_stream :: bytes
  w_count :: nat \<comment> \<open>free bits in the last byte\<close>

definition NewWriter :: "bytes \<Rightarrow> Writer" where
  "NewWriter buf = \<lparr>w_stream = buf, w_count = 0\<rparr>"

definition Writer_Reset :: "Writer \<Rightarrow> bytes \<Rightarrow> Writer" where
  "Writer_Reset w buf = w\<lparr>w_stream := buf, w_count := 0\<rparr>"

definition Bytes :: "Writer \<Rightarrow> bytes" where
  "Bytes w = w_stream w"

definition Writer_Len :: "Writer \<Rightarrow> nat" where
  "Writer_Len w = length (w_stream w)"

text \<open>\<^verbatim>\<open>w.stream[len(w.stream)-1] |= b\<close>; a writer with free bits has a last byte.\<close>

definition or_last :: "bytes \<Rightarrow> u8 \<Rightarrow> bytes" where
  "or_last s b = s[length s - 1 := s ! (length s - 1) OR b]"

definition writeBit :: "Writer \<Rightarrow> bool \<Rightarrow> Writer" where
  "writeBit w b =
     (let w = (if w_count w = 0 then w\<lparr>w_stream := w_stream w @ [0], w_count := 8\<rparr> else w);
          w = (if b then w\<lparr>w_stream := or_last (w_stream w) (push_bit (sub8 (w_count w) 1) 1)\<rparr> else w)
      in w\<lparr>w_count := sub8 (w_count w) 1\<rparr>)"

definition WriteBit :: "Writer \<Rightarrow> bool \<Rightarrow> Writer" where
  "WriteBit w b = writeBit w b"

definition WriteByte :: "Writer \<Rightarrow> u8 \<Rightarrow> Writer" where
  "WriteByte w b =
     (if w_count w = 0 then w\<lparr>w_stream := w_stream w @ [b]\<rparr>
      else w\<lparr>w_stream := or_last (w_stream w) (drop_bit (sub8 8 (w_count w)) b) @ [push_bit (w_count w) b]\<rparr>)"

definition WriteBytes :: "Writer \<Rightarrow> bytes \<Rightarrow> Writer" where
  "WriteBytes w p = (if w_count w = 0 then w\<lparr>w_stream := w_stream w @ p\<rparr> else foldl WriteByte w p)"

definition AppendString :: "Writer \<Rightarrow> bytes \<Rightarrow> Writer" where
  "AppendString w s = (if w_count w = 0 then w\<lparr>w_stream := w_stream w @ s\<rparr> else foldl WriteByte w s)"

text \<open>
  \<^verbatim>\<open>w.AppendBytes(len(p))\<close> with the returned tail then filled by \<open>p\<close>, the way every caller uses it: the
  tail aliases the writer's buffer, so filling it stores \<open>p\<close> there.
\<close>

definition AppendBytes :: "Writer \<Rightarrow> bytes \<Rightarrow> Writer" where
  "AppendBytes w p =
     (if p = [] then w
      else if w_count w \<noteq> 0 then
        (let oldLen = length (w_stream w); w = foldl WriteByte w (replicate (length p) 0)
         in w\<lparr>w_stream := take oldLen (w_stream w) @ p\<rparr>)
      else w\<lparr>w_stream := w_stream w @ p\<rparr>)"

fun write_whole :: "bytes \<Rightarrow> u64 \<Rightarrow> nat \<Rightarrow> bytes \<times> u64 \<times> nat" where
  "write_whole s u nbits =
     (if nbits \<ge> 8 then write_whole (s @ [ucast (drop_bit 56 u)]) (push_bit 8 u) (nbits - 8) else (s, u, nbits))"

declare write_whole.simps [simp del]

definition write_rest :: "Writer \<Rightarrow> u64 \<Rightarrow> nat \<Rightarrow> Writer" where
  "write_rest w u nbits =
     (case write_whole (w_stream w) u nbits of (s, u, nbits) \<Rightarrow>
        if nbits > 0 then w\<lparr>w_stream := s @ [ucast (drop_bit 56 u)], w_count := 8 - nbits\<rparr>
        else w\<lparr>w_stream := s\<rparr>)"

definition WriteBits :: "Writer \<Rightarrow> u64 \<Rightarrow> int \<Rightarrow> CodecError + Writer" where
  "WriteBits w u n =
     (if n < 0 \<or> n > 64 then Inl Panic
      else if n = 0 then Inr w
      else
        (let nbits = nat n; u = push_bit (64 - nbits) u in
         if w_count w > 0 then
           (let free = w_count w; s = or_last (w_stream w) (ucast (drop_bit (64 - free) u)) in
            if nbits < free then Inr (w\<lparr>w_stream := s, w_count := free - nbits\<rparr>)
            else Inr (write_rest (w\<lparr>w_stream := s, w_count := 0\<rparr>) (push_bit free u) (nbits - free)))
         else Inr (write_rest w u nbits)))"

function WriteUvarint :: "Writer \<Rightarrow> u64 \<Rightarrow> Writer" where
  "WriteUvarint w u =
     (if u \<ge> 0x80 then WriteUvarint (WriteByte w (ucast u OR 0x80)) (drop_bit 7 u) else WriteByte w (ucast u))"
  by pat_completeness auto
termination
proof (relation "measure (\<lambda>(w, u). unat u)", goal_cases)
  case (2 w u)
  then have "128 \<le> unat u" by (simp add: word_le_nat_alt)
  then show ?case by (simp add: unat_shift7)
qed simp

declare WriteUvarint.simps [simp del]

definition WriteVarint :: "Writer \<Rightarrow> i64 \<Rightarrow> Writer" where
  "WriteVarint w i = (let u = push_bit 1 i in WriteUvarint w (if sint i < 0 then NOT u else u))"

definition PadToByte :: "Writer \<Rightarrow> Writer" where
  "PadToByte w = (if w_count w > 0 then w\<lparr>w_count := 0\<rparr> else w)"

definition AppendTo :: "Writer \<Rightarrow> bytes \<Rightarrow> bytes" where
  "AppendTo w dst = dst @ w_stream w"

subsection \<open>The reader\<close>

record Reader =
  r_stream :: bytes
  r_offset :: nat
  r_buffer :: u64
  r_valid :: nat
  r_last :: u8

definition NewReader :: "bytes \<Rightarrow> Reader" where
  "NewReader b = \<lparr>r_stream = b, r_offset = 0, r_buffer = 0, r_valid = 0,
     r_last = (if length b > 0 then b ! (length b - 1) else 0)\<rparr>"

definition Reader_Reset :: "Reader \<Rightarrow> bytes \<Rightarrow> Reader" where
  "Reader_Reset r b = r\<lparr>r_stream := b, r_offset := 0, r_buffer := 0, r_valid := 0,
     r_last := (if length b > 0 then b ! (length b - 1) else 0)\<rparr>"

definition Remaining :: "Reader \<Rightarrow> nat" where
  "Remaining r = length (r_stream r) - r_offset r + r_valid r div 8"

definition ConsumedBytes :: "Reader \<Rightarrow> nat" where
  "ConsumedBytes r = r_offset r - r_valid r div 8"

text \<open>\<^verbatim>\<open>binary.BigEndian.Uint64\<close>: the first eight bytes, most significant first.\<close>

definition BigEndian_Uint64 :: "bytes \<Rightarrow> u64" where
  "BigEndian_Uint64 b = foldl (\<lambda>x y. push_bit 8 x OR ucast y) 0 (take 8 b)"

definition loadNextBuffer :: "Reader \<Rightarrow> nat \<Rightarrow> Reader option" where
  "loadNextBuffer r nbits =
     (if r_offset r \<ge> length (r_stream r) then None
      else if r_offset r + 8 < length (r_stream r) then
        Some (r\<lparr>r_buffer := BigEndian_Uint64 (drop (r_offset r) (r_stream r)), r_offset := r_offset r + 8, r_valid := 64\<rparr>)
      else
        (let nbytes = nbits div 8 + 1;
             nbytes = (if r_offset r + nbytes > length (r_stream r) then length (r_stream r) - r_offset r else nbytes);
             (buffer, skip) = (if r_offset r + nbytes = length (r_stream r) then (ucast (r_last r), 1) else (0, 0));
             buffer = foldl (\<lambda>buffer i. buffer OR push_bit (8 * (nbytes - i - 1)) (ucast (r_stream r ! (r_offset r + i))))
                        buffer [0..<nbytes - skip]
         in Some (r\<lparr>r_buffer := buffer, r_offset := r_offset r + nbytes, r_valid := nbytes * 8\<rparr>)))"

definition ReadBit :: "Reader \<Rightarrow> CodecError + bool \<times> Reader" where
  "ReadBit r =
     (case (if r_valid r = 0 then loadNextBuffer r 1 else Some r) of
        None \<Rightarrow> Inl io_EOF
      | Some r \<Rightarrow> (let valid = sub8 (r_valid r) 1 in
          Inr (r_buffer r AND push_bit valid 1 \<noteq> 0, r\<lparr>r_valid := valid\<rparr>)))"

definition Buffered :: "Reader \<Rightarrow> nat" where
  "Buffered r = r_valid r"

definition Peek :: "Reader \<Rightarrow> nat \<Rightarrow> u64" where
  "Peek r nbits = drop_bit (sub8 (r_valid r) nbits) (r_buffer r) AND drop_bit (sub8 64 nbits) (NOT 0)"

definition Skip :: "Reader \<Rightarrow> nat \<Rightarrow> Reader" where
  "Skip r n = r\<lparr>r_valid := sub8 (r_valid r) n\<rparr>"

definition readBitsFast :: "Reader \<Rightarrow> nat \<Rightarrow> CodecError + u64 \<times> Reader" where
  "readBitsFast r nbits =
     (if nbits > r_valid r then Inl io_EOF
      else (let mask = drop_bit (sub8 64 nbits) (NOT 0); r = r\<lparr>r_valid := sub8 (r_valid r) nbits\<rparr>
            in Inr (drop_bit (r_valid r) (r_buffer r) AND mask, r)))"

text \<open>A field that spans two buffers: the bits left of the old one, then the rest from the new one.\<close>

definition read_across :: "Reader \<Rightarrow> nat \<Rightarrow> CodecError + u64 \<times> Reader" where
  "read_across r nbits =
     (let mask = push_bit (r_valid r) 1 - 1; nbits = sub8 nbits (r_valid r);
          v = push_bit nbits (r_buffer r AND mask)
      in case loadNextBuffer (r\<lparr>r_valid := 0\<rparr>) nbits of
           None \<Rightarrow> Inl io_EOF
         | Some r \<Rightarrow>
             if r_valid r < nbits then Inl io_EOF
             else (let mask = push_bit nbits 1 - 1; left = sub8 (r_valid r) nbits
                   in Inr (v OR (drop_bit left (r_buffer r) AND mask), r\<lparr>r_valid := left\<rparr>)))"

definition ReadBits :: "Reader \<Rightarrow> nat \<Rightarrow> CodecError + u64 \<times> Reader" where
  "ReadBits r nbits =
     (if nbits > 64 then Inl Panic
      else if nbits = 0 then Inr (0, r)
      else case (if r_valid r = 0 then loadNextBuffer r nbits else Some r) of
             None \<Rightarrow> Inl io_EOF
           | Some r \<Rightarrow> if nbits \<le> r_valid r then readBitsFast r nbits else read_across r nbits)"

definition ReadByte :: "Reader \<Rightarrow> CodecError + u8 \<times> Reader" where
  "ReadByte r = attempt (ReadBits r 8) (\<lambda>(v, r). Inr (ucast v, r))"

definition AlignToByte :: "Reader \<Rightarrow> Reader" where
  "AlignToByte r =
     (let valid = r_valid r - r_valid r mod 8
      in r\<lparr>r_valid := valid, r_buffer := (if valid = 0 then 0 else r_buffer r)\<rparr>)"

text \<open>\<^verbatim>\<open>ReadBytes\<close> fills a slice of length \<open>n\<close>: first from the buffer, then from the stream.\<close>

fun drain :: "Reader \<Rightarrow> nat \<Rightarrow> bytes \<Rightarrow> Reader \<times> nat \<times> bytes" where
  "drain r 0 p = (r, 0, p)"
| "drain r (Suc n) p =
     (if r_valid r \<ge> 8 then
        drain (r\<lparr>r_valid := sub8 (r_valid r) 8\<rparr>) n (p @ [ucast (drop_bit (sub8 (r_valid r) 8) (r_buffer r))])
      else (r, Suc n, p))"

definition ReadBytes :: "Reader \<Rightarrow> nat \<Rightarrow> CodecError + bytes \<times> Reader" where
  "ReadBytes r n =
     (case drain (AlignToByte r) n [] of (r, n, p) \<Rightarrow>
        if n = 0 then Inr (p, r)
        else if length (r_stream r) - r_offset r < n then Inl io_EOF
        else Inr (p @ take n (drop (r_offset r) (r_stream r)),
                  r\<lparr>r_offset := r_offset r + n, r_buffer := 0, r_valid := 0\<rparr>))"

definition ReadBytesView :: "Reader \<Rightarrow> int \<Rightarrow> CodecError + bytes \<times> Reader" where
  "ReadBytesView r n =
     (if n < 0 then Inl Panic
      else if n = 0 then Inr ([], r)
      else
        (let n = nat n; r = AlignToByte r; validBytes = r_valid r div 8; start = r_offset r - validBytes in
         if length (r_stream r) - start < n then Inl io_EOF
         else
           (let view = take n (drop start (r_stream r)) in
            if n \<le> validBytes then
              (let r = r\<lparr>r_valid := sub8 (r_valid r) (n * 8)\<rparr>
               in Inr (view, if r_valid r = 0 then r\<lparr>r_buffer := 0\<rparr> else r))
            else Inr (view, r\<lparr>r_offset := start + n, r_buffer := 0, r_valid := 0\<rparr>))))"

text \<open>The next byte, from the buffer if it holds one.\<close>

definition next_byte :: "Reader \<Rightarrow> CodecError + u8 \<times> Reader" where
  "next_byte r =
     (if r_valid r \<ge> 8 then
        Inr (ucast (drop_bit (sub8 (r_valid r) 8) (r_buffer r)), r\<lparr>r_valid := sub8 (r_valid r) 8\<rparr>)
      else ReadByte r)"

fun read_uvarint_loop :: "nat \<Rightarrow> Reader \<Rightarrow> u64 \<Rightarrow> nat \<Rightarrow> CodecError + u64 \<times> Reader" where
  "read_uvarint_loop 0 r x s = Inl io_ErrUnexpectedEOF"
| "read_uvarint_loop (Suc k) r x s =
     attempt (next_byte r)
       (\<lambda>(b, r). if b < 0x80 then Inr (x OR push_bit s (ucast b), r)
          else read_uvarint_loop k r (x OR push_bit s (ucast (b AND 0x7f))) (s + 7))"

definition ReadUvarint :: "Reader \<Rightarrow> CodecError + u64 \<times> Reader" where
  "ReadUvarint r = read_uvarint_loop MaxVarintLen64 r 0 0"

definition ReadVarint :: "Reader \<Rightarrow> CodecError + i64 \<times> Reader" where
  "ReadVarint r = attempt (ReadUvarint r)
     (\<lambda>(ux, r). let x = drop_bit 1 ux in Inr (if ux AND 1 \<noteq> 0 then NOT x else x, r))"

definition SkipBits :: "Reader \<Rightarrow> nat \<Rightarrow> CodecError + Reader" where
  "SkipBits r nbits = (if nbits = 0 then Inr r else attempt (ReadBits r nbits) (\<lambda>(_, r). Inr r))"

end
