(* ===== verification/Bit_Strings.thy ===== *)
theory Bit_Strings
  imports Bitstream
begin

text \<open>
  The bit streams of \<open>Bitstream\<close> as bit strings. \<open>writes w bs\<close> says that the writer \<open>w\<close> holds exactly the
  bits \<open>bs\<close>, \<open>reads s r bs\<close> that the reader \<open>r\<close> over \<open>s\<close> has exactly the bits \<open>bs\<close> left. Every operation is
  simulated by appending to or splitting a bit string, whatever the alignment, the refill buffer and the
  end of the stream. The writer half is here, the reader half in \<open>Bit_Reading\<close>.
\<close>

definition msb_bits :: "nat \<Rightarrow> 'a::len word \<Rightarrow> bool list" where
  "msb_bits n u = map (bit u) (rev [0..<n])"

definition stream_bits :: "bytes \<Rightarrow> bool list" where
  "stream_bits s = concat (map (msb_bits 8) s)"

definition writes :: "Writer \<Rightarrow> bool list \<Rightarrow> bool" where
  "writes w bs \<longleftrightarrow> w_count w < 8 \<and> stream_bits (w_stream w) = bs @ replicate (w_count w) False"

definition reads :: "bytes \<Rightarrow> Reader \<Rightarrow> bool list \<Rightarrow> bool" where
  "reads s r bs \<longleftrightarrow> r_stream r = s \<and> r_valid r \<le> 64 \<and> r_offset r \<le> length s \<and> r_valid r \<le> 8 * r_offset r \<and>
     (s \<noteq> [] \<longrightarrow> r_last r = last s) \<and>
     bs = drop (8 * r_offset r - r_valid r) (stream_bits s) \<and> msb_bits (r_valid r) (r_buffer r) = take (r_valid r) bs"

subsection \<open>Bits of words\<close>

lemma msb_length [simp]: "length (msb_bits n u) = n"
  by (simp add: msb_bits_def)

lemma msb_nth: "i < n \<Longrightarrow> msb_bits n u ! i = bit u (n - 1 - i)"
  by (simp add: msb_bits_def rev_nth)

lemma msb_0 [simp]: "msb_bits 0 u = []"
  by (simp add: msb_bits_def)

lemma msb_eqI: "(\<And>i. i < n \<Longrightarrow> bit u i = bit v i) \<Longrightarrow> msb_bits n u = msb_bits n v" for u :: "'a::len word" and v :: "'b::len word"
  by (simp add: msb_bits_def)

lemma msb_eqD: "msb_bits n u = msb_bits n v \<Longrightarrow> i < n \<Longrightarrow> bit u i = bit v i" for u :: "'a::len word" and v :: "'b::len word"
  by (auto simp: msb_bits_def)

lemma msb_split: "msb_bits (m + n) u = msb_bits m (drop_bit n u) @ msb_bits n u" for u :: "'a::len word"
  by (rule nth_equalityI) (auto simp: msb_nth nth_append bit_drop_bit_eq intro!: arg_cong[where f = "bit u"])

lemma msb_take: "m \<le> n \<Longrightarrow> take m (msb_bits n u) = msb_bits m (drop_bit (n - m) u)" for u :: "'a::len word"
  using msb_split[of m "n - m" u] by simp

lemma msb_drop: "m \<le> n \<Longrightarrow> drop m (msb_bits n u) = msb_bits (n - m) u" for u :: "'a::len word"
  using msb_split[of m "n - m" u] by simp

lemma msb_zero: "msb_bits n u = replicate n False \<longleftrightarrow> (\<forall>i < n. \<not> bit u i)" for u :: "'a::len word"
proof
  assume eq: "msb_bits n u = replicate n False"
  show "\<forall>i < n. \<not> bit u i"
  proof (intro allI impI)
    fix i assume "i < n"
    then show "\<not> bit u i" using msb_nth[of "n - 1 - i" n u] eq by simp
  qed
qed (simp add: list_eq_iff_nth_eq msb_nth)

lemma msb_ucast: "n \<le> LENGTH('b) \<Longrightarrow> msb_bits n (ucast u :: 'b::len word) = msb_bits n u" for u :: "'a::len word"
  by (rule msb_eqI) (auto simp: bit_simps dest: bit_imp_le_length)

lemma stream_bits_simps [simp]:
  "stream_bits [] = []" "stream_bits (b # s) = msb_bits 8 b @ stream_bits s"
  "stream_bits (s @ s') = stream_bits s @ stream_bits s'"
  by (simp_all add: stream_bits_def)

lemma stream_bits_length [simp]: "length (stream_bits s) = 8 * length s"
  by (induction s) simp_all

lemma stream_bits_drop: "stream_bits (drop n s) = drop (8 * n) (stream_bits s)"
proof (induction s arbitrary: n)
  case (Cons b s)
  then show ?case by (cases n) simp_all
qed simp

lemma stream_bits_take: "stream_bits (take n s) = take (8 * n) (stream_bits s)"
proof (induction s arbitrary: n)
  case (Cons b s)
  then show ?case by (cases n) simp_all
qed simp

lemma stream_bits_nth: "k < 8 * length s \<Longrightarrow> stream_bits s ! k = bit (s ! (k div 8)) (7 - k mod 8)"
proof (induction s arbitrary: k)
  case (Cons b s)
  show ?case
  proof (cases "k < 8")
    case False
    then have "k div 8 = Suc ((k - 8) div 8)" "k mod 8 = (k - 8) mod 8" by (simp_all add: le_div_geq le_mod_geq)
    then show ?thesis using Cons.IH[of "k - 8"] Cons.prems False by (simp add: nth_append)
  qed (simp add: nth_append msb_nth)
qed simp

lemma msb8_inj: "msb_bits 8 a = msb_bits 8 b \<Longrightarrow> a = b" for a b :: u8
  by (rule bit_word_eqI) (erule msb_eqD, simp)

lemma stream_bits_inj: "stream_bits s = stream_bits t \<Longrightarrow> s = t"
proof (induction s arbitrary: t)
  case Nil
  then show ?case by (cases t) (simp_all add: stream_bits_def msb_bits_def)
next
  case (Cons a s)
  then obtain b t' where t: "t = b # t'" by (cases t) (auto simp: stream_bits_def msb_bits_def)
  then have "msb_bits 8 a = msb_bits 8 b" "stream_bits s = stream_bits t'"
    using Cons.prems by simp_all
  then show ?case using Cons.IH t msb8_inj by blast
qed

subsection \<open>Writing\<close>

lemma writesD: "writes w bs \<Longrightarrow> w_count w < 8" "writes w bs \<Longrightarrow> stream_bits (w_stream w) = bs @ replicate (w_count w) False"
  by (simp_all add: writes_def)

lemma writes_fun: "writes w bs \<Longrightarrow> writes w bs' \<Longrightarrow> bs = bs'"
  by (simp add: writes_def)

text \<open>The bytes are determined by the bits: a writer that started empty holds the one packing of them.\<close>

lemma writes_same:
  assumes "writes w bs" "writes w' bs" shows "w = w'"
proof -
  have len: "length bs + w_count w = 8 * length (w_stream w)" "length bs + w_count w' = 8 * length (w_stream w')"
    using assms[THEN writesD(2), THEN arg_cong[where f = length]] by simp_all
  have "w_count w = w_count w'" using len writesD(1)[OF assms(1)] writesD(1)[OF assms(2)]
    by (cases "length (w_stream w)" "length (w_stream w')" rule: linorder_cases) linarith+
  moreover from this have "stream_bits (w_stream w) = stream_bits (w_stream w')"
    by (simp only: writesD(2)[OF assms(1)] writesD(2)[OF assms(2)])
  then have "w_stream w = w_stream w'" by (rule stream_bits_inj)
  ultimately show ?thesis by simp
qed

lemma NewWriter_writes: "writes (NewWriter buf) (stream_bits buf)"
  by (simp add: NewWriter_def writes_def)

lemma or_last_bits:
  assumes s: "stream_bits s = bs @ replicate c False" and c: "0 < c" "c \<le> 8" and b: "take_bit c b = b"
  shows "stream_bits (or_last s b) = bs @ msb_bits c b"
proof -
  have "8 * length s = length bs + c" using arg_cong[OF s, of length] by simp
  then have ne: "s \<noteq> []" using c by auto
  let ?l = "last s"
  have ss: "s = butlast s @ [?l]" using ne by simp
  have split: "msb_bits 8 v = msb_bits (8 - c) (drop_bit c v) @ msb_bits c v" for v :: u8
    using msb_split[of "8 - c" c v] c by simp
  have "stream_bits s = stream_bits (butlast s) @ msb_bits 8 ?l"
    by (subst ss) (simp only: stream_bits_simps append_Nil2)
  then have "stream_bits s = (stream_bits (butlast s) @ msb_bits (8 - c) (drop_bit c ?l)) @ msb_bits c ?l"
    using split[of ?l] by simp
  then have bs: "bs = stream_bits (butlast s) @ msb_bits (8 - c) (drop_bit c ?l)" and z: "msb_bits c ?l = replicate c False"
    using s append_eq_append_conv[of "stream_bits (butlast s) @ msb_bits (8 - c) (drop_bit c ?l)" bs
        "msb_bits c ?l" "replicate c False"] by simp_all
  have "drop_bit c b = 0" using b by (metis drop_bit_take_bit diff_self_eq_0 take_bit_0)
  then have "drop_bit c (?l OR b) = drop_bit c ?l" by (simp add: drop_bit_or)
  moreover have "msb_bits c (?l OR b) = msb_bits c b"
    using z by (intro msb_eqI) (simp add: msb_zero bit_or_iff)
  ultimately have "msb_bits 8 (?l OR b) = msb_bits (8 - c) (drop_bit c ?l) @ msb_bits c b" using split[of "?l OR b"] by simp
  moreover have "or_last s b = butlast s @ [?l OR b]"
    using ne by (cases s rule: rev_cases) (simp_all add: or_last_def nth_append)
  ultimately show ?thesis using bs by simp
qed

lemma WriteByte_writes:
  assumes w: "writes w bs" shows "writes (WriteByte w b) (bs @ msb_bits 8 b)"
proof (cases "w_count w = 0")
  case True
  then show ?thesis using w by (simp add: WriteByte_def writes_def)
next
  case False
  let ?c = "w_count w"
  have c: "0 < ?c" "?c < 8" using False writesD(1)[OF w] by simp_all
  have "take_bit ?c (drop_bit (8 - ?c) b) = drop_bit (8 - ?c) b"
    using c by (auto simp: bit_eq_iff bit_simps dest: bit_imp_le_length)
  then have "stream_bits (or_last (w_stream w) (drop_bit (8 - ?c) b)) = bs @ msb_bits ?c (drop_bit (8 - ?c) b)"
    using or_last_bits[OF writesD(2)[OF w]] c by simp
  moreover have "msb_bits 8 (push_bit ?c b) = msb_bits (8 - ?c) b @ replicate ?c False"
  proof -
    have "msb_bits (8 - ?c) (drop_bit ?c (push_bit ?c b)) = msb_bits (8 - ?c) b"
      using c by (intro msb_eqI) (auto simp: bit_simps)
    moreover have "msb_bits ?c (push_bit ?c b) = replicate ?c False" by (simp add: msb_zero bit_simps)
    ultimately show ?thesis using msb_split[of "8 - ?c" ?c "push_bit ?c b"] c by simp
  qed
  moreover have "msb_bits 8 b = msb_bits ?c (drop_bit (8 - ?c) b) @ msb_bits (8 - ?c) b"
    using msb_split[of ?c "8 - ?c" b] c by simp
  ultimately show ?thesis using c by (simp add: WriteByte_def writes_def)
qed

lemma WriteByte_fold: "writes w bs \<Longrightarrow> writes (foldl WriteByte w p) (bs @ stream_bits p)"
proof (induction p arbitrary: w bs)
  case (Cons b p)
  then show ?case using Cons.IH[OF WriteByte_writes[OF Cons.prems, of b]] by simp
qed simp

lemma WriteBytes_writes: "writes w bs \<Longrightarrow> writes (WriteBytes w p) (bs @ stream_bits p)"
  using WriteByte_fold[of w bs p] by (auto simp: WriteBytes_def writes_def)

lemma AppendString_writes: "writes w bs \<Longrightarrow> writes (AppendString w p) (bs @ stream_bits p)"
  using WriteByte_fold[of w bs p] by (auto simp: AppendString_def writes_def)

lemma AppendBytes_writes: "writes w bs \<Longrightarrow> w_count w = 0 \<Longrightarrow> writes (AppendBytes w p) (bs @ stream_bits p)"
  by (simp add: AppendBytes_def writes_def)

lemma WriteBit_writes:
  assumes w: "writes w bs" shows "writes (WriteBit w b) (bs @ [b])"
proof -
  define v where "v = (if w_count w = 0 then w\<lparr>w_stream := w_stream w @ [0], w_count := 8\<rparr> else w)"
  have v: "stream_bits (w_stream v) = bs @ replicate (w_count v) False" "0 < w_count v" "w_count v \<le> 8"
    using w by (auto simp: v_def writes_def msb_zero)
  let ?c = "w_count v"
  have one: "msb_bits ?c (push_bit (?c - 1) (1 :: u8)) = True # replicate (?c - 1) False"
  proof -
    have "msb_bits (?c - 1) (push_bit (?c - 1) (1 :: u8)) = replicate (?c - 1) False" by (simp add: msb_zero bit_simps)
    moreover have "msb_bits 1 (drop_bit (?c - 1) (push_bit (?c - 1) (1 :: u8))) = [True]"
      using v by (auto simp: msb_bits_def bit_simps)
    ultimately show ?thesis using msb_split[of 1 "?c - 1" "push_bit (?c - 1) (1 :: u8)"] v by simp
  qed
  have "take_bit ?c (push_bit (?c - 1) (1 :: u8)) = push_bit (?c - 1) 1"
    using v by (intro bit_word_eqI) (auto simp: bit_simps)
  from or_last_bits[OF v this] one
  have t: "stream_bits (or_last (w_stream v) (push_bit (?c - 1) 1)) = (bs @ [True]) @ replicate (?c - 1) False" by simp
  have f: "stream_bits (w_stream v) = (bs @ [False]) @ replicate (?c - 1) False"
    using v by (cases ?c) simp_all
  have "WriteBit w b = (if b then v\<lparr>w_stream := or_last (w_stream v) (push_bit (?c - 1) 1)\<rparr> else v)\<lparr>w_count := ?c - 1\<rparr>"
    using v by (simp add: WriteBit_def writeBit_def Let_def flip: v_def)
  then show ?thesis using t f v by (simp add: writes_def)
qed

text \<open>The bits of a left-justified word, from the top.\<close>

definition tops :: "nat \<Rightarrow> u64 \<Rightarrow> bool list" where
  "tops n u = map (\<lambda>i. bit u (63 - i)) [0..<n]"

lemma tops_byte: "n \<le> 8 \<Longrightarrow> msb_bits n (ucast (drop_bit (64 - n) u) :: u8) = tops n u"
  by (rule nth_equalityI) (auto simp: tops_def msb_nth bit_simps intro!: arg_cong[where f = "bit u"])

lemma tops_split: "m \<le> n \<Longrightarrow> n \<le> 64 \<Longrightarrow> tops n u = tops m u @ tops (n - m) (push_bit m u)"
  by (rule nth_equalityI)
    (auto simp: tops_def nth_append bit_simps intro!: arg_cong[where f = "bit u"])

lemma tops_zero: "m \<le> n \<Longrightarrow> n \<le> 64 \<Longrightarrow> \<forall>i < 64 - m. \<not> bit u i \<Longrightarrow> tops n u = tops m u @ replicate (n - m) False"
  by (rule nth_equalityI) (auto simp: tops_def nth_append)

lemma tops_field: "n \<le> 64 \<Longrightarrow> tops n (push_bit (64 - n) u) = msb_bits n u"
  by (rule nth_equalityI) (auto simp: tops_def msb_nth bit_simps intro!: arg_cong[where f = "bit u"])

lemma write_whole_bits:
  assumes "n \<le> 64" "\<forall>i < 64 - n. \<not> bit u i"
  shows "\<exists>s' u' m. write_whole s u n = (s', u', m) \<and> m < 8 \<and> (\<forall>i < 64 - m. \<not> bit u' i) \<and>
    stream_bits s' @ tops m u' = stream_bits s @ tops n u"
  using assms
proof (induction s u n rule: write_whole.induct)
  case (1 s u n)
  show ?case
  proof (cases "n \<ge> 8")
    case True
    have z: "\<forall>i < 64 - (n - 8). \<not> bit (push_bit 8 u) i" using 1(3) by (auto simp: bit_simps)
    have "tops n u = msb_bits 8 (ucast (drop_bit 56 u) :: u8) @ tops (n - 8) (push_bit 8 u)"
      using tops_split[OF True 1(2)] tops_byte[of 8 u] by simp
    then show ?thesis using 1(1)[OF True _ z] 1(2) True
      by (simp add: write_whole.simps[of s u n])
  next
    case False
    then show ?thesis using 1(3) by (auto simp: write_whole.simps[of s u n])
  qed
qed

lemma write_rest_writes:
  assumes w: "w_count w = 0" "stream_bits (w_stream w) = bs" and u: "n \<le> 64" "\<forall>i < 64 - n. \<not> bit u i"
  shows "writes (write_rest w u n) (bs @ tops n u)"
proof -
  obtain s' u' m where r: "write_whole (w_stream w) u n = (s', u', m)" "m < 8" "\<forall>i < 64 - m. \<not> bit u' i"
      "stream_bits s' @ tops m u' = bs @ tops n u"
    using write_whole_bits[OF u, of "w_stream w"] w by auto
  have "msb_bits 8 (ucast (drop_bit 56 u') :: u8) = tops m u' @ replicate (8 - m) False"
    using tops_byte[of 8 u'] tops_zero[of m 8 u'] r by simp
  then show ?thesis using r w by (auto simp: write_rest_def writes_def tops_def)
qed

lemma WriteBits_writes:
  assumes w: "writes w bs" and n: "n \<le> 64"
  shows "\<exists>w'. WriteBits w u (int n) = Inr w' \<and> writes w' (bs @ msb_bits n u)"
proof (cases "n = 0")
  case False
  let ?u = "push_bit (64 - n) u" and ?c = "w_count w"
  have z: "\<forall>i < 64 - n. \<not> bit ?u i" by (auto simp: bit_simps)
  note f = tops_field[OF n, of u]
  show ?thesis
  proof (cases "?c > 0")
    case True
    have c: "?c < 8" using writesD[OF w] by simp
    let ?b = "ucast (drop_bit (64 - ?c) ?u) :: u8"
    have "take_bit ?c ?b = ?b" using c by (auto simp: bit_eq_iff bit_simps dest: bit_imp_le_length)
    from or_last_bits[OF writesD(2)[OF w] True _ this] c tops_byte[of ?c ?u]
    have s: "stream_bits (or_last (w_stream w) ?b) = bs @ tops ?c ?u" by simp
    show ?thesis
    proof (cases "n < ?c")
      case True
      then have "tops ?c ?u = msb_bits n u @ replicate (?c - n) False" using tops_zero[OF _ _ z, of ?c] f c by simp
      then show ?thesis using s True c n False by (auto simp: WriteBits_def writes_def Let_def)
    next
      case nc: False
      then have t: "msb_bits n u = tops ?c ?u @ tops (n - ?c) (push_bit ?c ?u)" using tops_split[of ?c n ?u] n f by simp
      have "\<forall>i < 64 - (n - ?c). \<not> bit (push_bit ?c ?u) i" by (auto simp: bit_simps)
      with write_rest_writes[of "w\<lparr>w_stream := or_last (w_stream w) ?b, w_count := 0\<rparr>" "bs @ tops ?c ?u" "n - ?c" "push_bit ?c ?u"]
      show ?thesis using s t nc n False True by (simp add: WriteBits_def Let_def)
    qed
  next
    case c: False
    then have "stream_bits (w_stream w) = bs" using writesD[OF w] by simp
    from write_rest_writes[OF _ this n z] c f show ?thesis using False n by (simp add: WriteBits_def Let_def)
  qed
qed (use w in \<open>simp add: WriteBits_def\<close>)

lemma PadToByte_writes: "writes w bs \<Longrightarrow> writes (PadToByte w) (bs @ replicate (w_count w) False)"
  by (auto simp: PadToByte_def writes_def)

end
