(* ===== verification/Bit_Reading.thy ===== *)
theory Bit_Reading
  imports Bit_Strings
begin

text \<open>
  The reader half of the refinement of bit streams to bit strings, the contract of the codecs built on
  both halves (\<open>bit_codec\<close>), and the class of reader operations that are sound on any input (\<open>sane\<close>).
\<close>

subsection \<open>Reading\<close>

lemma readsD:
  assumes "reads s r bs"
  shows "r_stream r = s" "r_valid r \<le> 64" "r_offset r \<le> length s" "r_valid r \<le> 8 * r_offset r"
    "s \<noteq> [] \<Longrightarrow> r_last r = last s" "bs = drop (8 * r_offset r - r_valid r) (stream_bits s)"
    "msb_bits (r_valid r) (r_buffer r) = take (r_valid r) bs"
  using assms by (simp_all add: reads_def)

lemma reads_length: "reads s r bs \<Longrightarrow> length bs = 8 * (length s - r_offset r) + r_valid r"
  by (auto simp: reads_def)

lemma NewReader_reads: "reads b (NewReader b) (stream_bits b)"
  by (simp add: reads_def NewReader_def last_conv_nth)

lemma Reader_Reset_reads: "reads b (Reader_Reset r b) (stream_bits b)"
  by (simp add: reads_def Reader_Reset_def last_conv_nth)

lemma reads_bytes_left: "reads s r bs \<Longrightarrow> length bs div 8 = length s - r_offset r + r_valid r div 8"
  using reads_length[of s r bs] by (metis div_mult_self4 numeral_neq_zero add.commute zero_neq_numeral)

lemma ConsumedBytes_reads: "reads s r bs \<Longrightarrow> ConsumedBytes r = length s - length bs div 8"
  using readsD(3,4)[of s r bs] by (simp add: ConsumedBytes_def reads_bytes_left)

lemma Remaining_reads: "reads s r bs \<Longrightarrow> Remaining r = length bs div 8"
  by (simp add: Remaining_def reads_bytes_left readsD(1))

lemma reads_take:
  assumes "reads s r bs" "k \<le> r_valid r"
  shows "reads s (r\<lparr>r_valid := r_valid r - k\<rparr>) (drop k bs)" "take k bs = msb_bits k (drop_bit (r_valid r - k) (r_buffer r))"
proof -
  have m: "take (r_valid r) bs = msb_bits (r_valid r) (r_buffer r)" using readsD(7)[OF assms(1)] by simp
  have "take k bs = take k (take (r_valid r) bs)" using assms(2) by (simp add: min_def)
  then show "take k bs = msb_bits k (drop_bit (r_valid r - k) (r_buffer r))" using m msb_take[OF assms(2)] by simp
  have "take (r_valid r - k) (drop k bs) = drop k (take (r_valid r) bs)" by (simp add: drop_take)
  then have "msb_bits (r_valid r - k) (r_buffer r) = take (r_valid r - k) (drop k bs)"
    using m msb_drop[OF assms(2), of "r_buffer r"] by simp
  moreover have "drop k bs = drop (8 * r_offset r - (r_valid r - k)) (stream_bits s)"
    using readsD(4,6)[OF assms(1)] assms(2) by (simp add: add.commute Nat.diff_diff_right)
  ultimately show "reads s (r\<lparr>r_valid := r_valid r - k\<rparr>) (drop k bs)"
    using assms by (auto simp: reads_def)
qed

lemma be_bits: "length xs \<le> 8 \<Longrightarrow>
  msb_bits (8 * length xs) (foldl (\<lambda>x y. push_bit 8 x OR ucast y) (0 :: u64) xs) = stream_bits xs"
proof (induction xs rule: rev_induct)
  case (snoc y xs)
  let ?x = "foldl (\<lambda>x y. push_bit 8 x OR ucast y) (0 :: u64) xs"
  have "msb_bits (8 * length xs) (drop_bit 8 (push_bit 8 ?x OR ucast y)) = msb_bits (8 * length xs) ?x"
    using snoc.prems by (intro msb_eqI) (auto simp: bit_simps dest: bit_imp_le_length)
  moreover have "msb_bits 8 (push_bit 8 ?x OR ucast y) = msb_bits 8 y"
    by (intro msb_eqI) (auto simp: bit_simps)
  ultimately show ?case using snoc msb_split[of "8 * length xs" 8 "push_bit 8 ?x OR ucast y"] by (simp add: add.commute)
qed simp

lemma BigEndian_bits: "8 \<le> length b \<Longrightarrow> msb_bits 64 (BigEndian_Uint64 b) = take 64 (stream_bits b)"
  using be_bits[of "take 8 b"] stream_bits_take[of 8 b] by (simp add: BigEndian_Uint64_def)

lemma or_fold_bit:
  "bit (foldl (\<lambda>b i. b OR push_bit (8 * (n - i - 1)) (ucast (f i))) acc [0..<m]) j \<longleftrightarrow>
   bit acc j \<or> (\<exists>i < m. 8 * (n - i - 1) \<le> j \<and> j < 64 \<and> bit (f i) (j - 8 * (n - i - 1)))"
  for acc :: u64 and f :: "nat \<Rightarrow> u8"
  by (induction m) (auto simp: bit_simps less_Suc_eq dest: bit_imp_le_length)

lemma byte_index: "k = 8 * q + m \<Longrightarrow> m < 8 \<Longrightarrow> n = q + Suc d \<Longrightarrow> 8 * n - 1 - k = 8 * (n - q - 1) + (7 - m)" for k :: nat
  by simp

lemma same_byte: "8 * (n - i - 1) \<le> j \<Longrightarrow> j - 8 * (n - i - 1) < 8 \<Longrightarrow> j = 8 * (n - q - 1) + t \<Longrightarrow> t < 8 \<Longrightarrow>
    i < n \<Longrightarrow> q < n \<Longrightarrow> i = q" for i :: nat
  by arith

text \<open>The slow path assembles the bytes that are left, the last of them from its copy.\<close>

lemma slow_bits:
  assumes n: "0 < n" "n \<le> 8" "off + n \<le> length s"
    and acc: "(acc, skip) = (if off + n = length s then (ucast (last s), 1) else (0 :: u64, 0 :: nat))"
  shows "msb_bits (8 * n) (foldl (\<lambda>b i. b OR push_bit (8 * (n - i - 1)) (ucast (s ! (off + i)))) acc [0..<n - skip])
    = take (8 * n) (drop (8 * off) (stream_bits s))" (is "msb_bits _ ?b = _")
proof (rule nth_equalityI)
  show "length (msb_bits (8 * n) ?b) = length (take (8 * n) (drop (8 * off) (stream_bits s)))" using n by simp
  fix k assume "k < length (msb_bits (8 * n) ?b)"
  then have k: "k < 8 * n" by simp
  let ?q = "k div 8" and ?m = "k mod 8"
  have q: "?q < n" using k by (simp add: less_mult_imp_div_less mult.commute)
  have j: "8 * n - 1 - k = 8 * (n - ?q - 1) + (7 - ?m)" (is "?j = _")
  proof (rule byte_index)
    show "n = ?q + Suc (n - ?q - 1)" using q by simp
  qed simp_all
  have uniq: "i = ?q" if "i < n" "8 * (n - i - 1) \<le> ?j" "bit (s ! (off + i)) (?j - 8 * (n - i - 1))" for i
    using same_byte[OF that(2) _ j _ that(1) q] bit_imp_le_length[OF that(3)] by simp
  have "bit ?b ?j \<longleftrightarrow> bit (s ! (off + ?q)) (7 - ?m)"
  proof (cases "off + n = length s \<and> ?q = n - 1")
    case True
    then have "last s = s ! (off + ?q)" using n by (subst last_conv_nth) auto
    moreover have "\<not> (\<exists>i < n - skip. 8 * (n - i - 1) \<le> ?j \<and> ?j < 64 \<and> bit (s ! (off + i)) (?j - 8 * (n - i - 1)))"
      using uniq True acc by fastforce
    then have "bit ?b ?j \<longleftrightarrow> bit acc ?j" unfolding or_fold_bit by blast
    moreover have "?j = 7 - ?m" using True j by simp
    moreover have "7 - ?m < 64" by linarith
    ultimately show ?thesis using True acc by (simp add: bit_simps)
  next
    case False
    then have na: "\<not> bit acc ?j" using acc j q by (auto split: if_splits simp: bit_simps dest: bit_imp_le_length)
    have qs: "?q < n - skip" using False q acc by (auto split: if_splits)
    have e: "?j - 8 * (n - ?q - 1) = 7 - ?m" "8 * (n - ?q - 1) \<le> ?j" "?j < 64" using j n by linarith+
    show ?thesis
    proof
      assume "bit ?b ?j"
      then obtain i where i: "i < n - skip" "8 * (n - i - 1) \<le> ?j" "bit (s ! (off + i)) (?j - 8 * (n - i - 1))"
        using na unfolding or_fold_bit by blast
      have "i < n" using i(1) by linarith
      then have "i = ?q" using i(2,3) by (rule uniq)
      then show "bit (s ! (off + ?q)) (7 - ?m)" using i(3) e(1) by (simp only:)
    next
      assume "bit (s ! (off + ?q)) (7 - ?m)"
      then have "bit (s ! (off + ?q)) (?j - 8 * (n - ?q - 1))" using e(1) by (simp only:)
      then show "bit ?b ?j" unfolding or_fold_bit using qs e(2,3) by blast
    qed
  qed
  moreover have "(8 * off + k) div 8 = off + ?q" "(8 * off + k) mod 8 = ?m" by simp_all
  ultimately show "msb_bits (8 * n) ?b ! k = take (8 * n) (drop (8 * off) (stream_bits s)) ! k"
    using k n by (simp add: msb_nth stream_bits_nth)
qed

lemma loadNextBuffer_None: "reads s r bs \<Longrightarrow> r_valid r = 0 \<Longrightarrow> loadNextBuffer r n = None \<longleftrightarrow> bs = []"
  using reads_length[of s r bs] readsD(1,3)[of s r bs]
  by (auto simp: loadNextBuffer_def Let_def split: prod.splits)

lemma loadNextBuffer_Some:
  assumes r: "reads s r bs" "r_valid r = 0" and l: "loadNextBuffer r n = Some r'" and n: "n \<le> 64"
  shows "reads s r' bs \<and> min n (length bs) \<le> r_valid r' \<and> 0 < r_valid r'"
proof -
  have lt: "r_offset r < length s" using l readsD(1)[OF r(1)] by (auto simp: loadNextBuffer_def split: if_splits)
  have s: "r_stream r = s" "r_offset r < length s" "bs = drop (8 * r_offset r) (stream_bits s)"
    "r_last r = last s" "length bs = 8 * (length s - r_offset r)"
    using r(2) lt readsD[OF r(1)] reads_length[OF r(1)] list.size(3)[where ?'a = u8] by fastforce+
  show ?thesis
  proof (cases "r_offset r + 8 < length s")
    case True
    then have "msb_bits 64 (BigEndian_Uint64 (drop (r_offset r) s)) = take 64 bs"
      using BigEndian_bits[of "drop (r_offset r) s"] s by (simp add: stream_bits_drop)
    then show ?thesis using True s l n by (auto simp: loadNextBuffer_def reads_def)
  next
    case False
    define k where "k = (if r_offset r + (n div 8 + 1) > length s then length s - r_offset r else n div 8 + 1)"
    obtain acc skip where a: "(acc, skip) = (if r_offset r + k = length s then (ucast (last s), 1) else (0 :: u64, 0 :: nat))"
      by (metis surj_pair)
    have k: "0 < k" "k \<le> 8" "r_offset r + k \<le> length s" "min n (length bs) \<le> 8 * k"
      using False s by (auto simp: k_def)
    define b where "b = foldl (\<lambda>b i. b OR push_bit (8 * (k - i - 1)) (ucast (s ! (r_offset r + i)))) acc [0..<k - skip]"
    have "\<not> length s \<le> r_offset r" using lt by simp
    then have "loadNextBuffer r n = Some (r\<lparr>r_buffer := b, r_offset := r_offset r + k, r_valid := k * 8\<rparr>)"
      unfolding loadNextBuffer_def Let_def s(1,4) b_def
      by (simp only: False if_False k_def[symmetric] a[symmetric] prod.case)
    then have "r' = r\<lparr>r_buffer := b, r_offset := r_offset r + k, r_valid := k * 8\<rparr>" using l by simp
    moreover have "msb_bits (8 * k) b = take (8 * k) bs" using slow_bits[OF k(1-3) a] s(3) by (simp add: b_def)
    ultimately show ?thesis using k s by (auto simp: reads_def mult.commute)
  qed
qed

lemmas load_cases = loadNextBuffer_None loadNextBuffer_Some

subsection \<open>Values of bit strings\<close>

definition bits_val :: "bool list \<Rightarrow> u64" where
  "bits_val bs = horner_sum of_bool 2 (rev bs)"

lemma bits_val_bit: "bit (bits_val bs) i \<longleftrightarrow> i < 64 \<and> i < length bs \<and> bs ! (length bs - 1 - i)"
  by (auto simp: bits_val_def bit_horner_sum_bit_word_iff rev_nth)

lemma bits_val_msb: "n \<le> 64 \<Longrightarrow> bits_val (msb_bits n u) = take_bit n u"
  by (rule bit_word_eqI) (auto simp: bits_val_bit bit_simps msb_nth)

lemma bits_val_append:
  "length ys \<le> 64 \<Longrightarrow> bits_val (xs @ ys) = push_bit (length ys) (bits_val xs) OR bits_val ys"
  by (rule bit_word_eqI) (auto simp: bits_val_bit bit_simps nth_append)

lemma msb_bits_val: "length bs \<le> 64 \<Longrightarrow> msb_bits (length bs) (bits_val bs) = bs"
  by (rule nth_equalityI) (auto simp: msb_nth bits_val_bit)

lemma word_mask: "n < 64 \<Longrightarrow> push_bit n 1 - 1 = (mask n :: u64)"
  by (simp add: mask_eq_exp_minus_1 push_bit_of_1)

lemma ones_mask: "n \<le> 64 \<Longrightarrow> drop_bit (64 - n) (NOT 0) = (mask n :: u64)"
  by (rule bit_word_eqI) (auto simp: bit_simps)

lemma readBitsFast_reads:
  assumes r: "reads s r bs" and n: "0 < n" "n \<le> r_valid r"
  shows "readBitsFast r n = Inr (bits_val (take n bs), r\<lparr>r_valid := r_valid r - n\<rparr>)"
proof -
  have "r_valid r \<le> 64" using readsD(2)[OF r] .
  then show ?thesis using n reads_take(2)[OF r n(2)] ones_mask[of n]
    by (simp add: readBitsFast_def Let_def bits_val_msb take_bit_eq_mask)
qed

lemma Peek_reads:
  assumes r: "reads s r bs" and n: "n \<le> r_valid r"
  shows "Peek r n = bits_val (take n bs)"
proof -
  have "r_valid r \<le> 64" using readsD(2)[OF r] .
  then show ?thesis using n reads_take(2)[OF r n] ones_mask[of n]
    by (simp add: Peek_def bits_val_msb take_bit_eq_mask)
qed

lemma Skip_reads: "reads s r bs \<Longrightarrow> n \<le> r_valid r \<Longrightarrow> reads s (Skip r n) (drop n bs)"
  using reads_take(1)[of s r bs n] readsD(2)[of s r bs] by (simp add: Skip_def)

lemma read_across_reads:
  assumes r: "reads s r bs" and n: "r_valid r < n" "n \<le> 64" "0 < r_valid r"
  shows "(if n \<le> length bs then \<exists>r'. read_across r n = Inr (bits_val (take n bs), r') \<and> reads s r' (drop n bs)
          else read_across r n = Inl io_EOF)"
proof -
  let ?v = "r_valid r" and ?bs = "drop (r_valid r) bs"
  have r0: "reads s (r\<lparr>r_valid := 0\<rparr>) ?bs" using reads_take(1)[OF r, of ?v] by simp
  have hi: "bits_val (take ?v bs) = r_buffer r AND (push_bit ?v 1 - 1)"
    using reads_take(2)[OF r, of ?v] word_mask[of ?v] n by (simp add: bits_val_msb take_bit_eq_mask)
  have sub: "sub8 n ?v = n - ?v" using n by simp
  show ?thesis
  proof (cases "loadNextBuffer (r\<lparr>r_valid := 0\<rparr>) (n - ?v)")
    case None
    then have "?bs = []" using loadNextBuffer_None[OF r0] by simp
    then show ?thesis using None n sub by (simp add: read_across_def)
  next
    case (Some r')
    from loadNextBuffer_Some[OF r0 _ Some] n
    have r': "reads s r' ?bs" "min (n - ?v) (length bs - ?v) \<le> r_valid r'" by auto
    have short: "r_valid r' \<le> length bs - ?v" using reads_length[OF r'(1)] by simp
    show ?thesis
    proof (cases "n \<le> length bs")
      case True
      then have k: "n - ?v \<le> r_valid r'" using r'(2) by simp
      have "bits_val (take n bs) = push_bit (n - ?v) (bits_val (take ?v bs)) OR bits_val (take (n - ?v) ?bs)"
        using bits_val_append[of "take (n - ?v) ?bs" "take ?v bs"] True n by (simp flip: take_add)
      moreover have "bits_val (take (n - ?v) ?bs) = drop_bit (r_valid r' - (n - ?v)) (r_buffer r') AND (push_bit (n - ?v) 1 - 1)"
        using reads_take(2)[OF r'(1) k] word_mask[of "n - ?v"] n by (simp add: bits_val_msb take_bit_eq_mask)
      moreover have "reads s (r'\<lparr>r_valid := r_valid r' - (n - ?v)\<rparr>) (drop n bs)"
        using reads_take(1)[OF r'(1) k] n by simp
      moreover have "sub8 (r_valid r') (n - ?v) = r_valid r' - (n - ?v)" using k readsD(2)[OF r'(1)] by simp
      ultimately show ?thesis using True k Some hi sub by (simp add: read_across_def Let_def)
    next
      case False
      then have "r_valid r' < n - ?v" using short n by linarith
      then show ?thesis using False Some sub by (simp add: read_across_def Let_def)
    qed
  qed
qed

text \<open>\<^verbatim>\<open>ReadBits\<close> returns the next bits, and end of file exactly if there are not that many.\<close>

lemma ReadBits_reads:
  assumes r: "reads s r bs" and n: "n \<le> 64"
  shows "(if n \<le> length bs then \<exists>r'. ReadBits r n = Inr (bits_val (take n bs), r') \<and> reads s r' (drop n bs)
          else ReadBits r n = Inl io_EOF)"
proof (cases "n = 0")
  case False
  show ?thesis
  proof (cases "if r_valid r = 0 then loadNextBuffer r n else Some r")
    case None
    then have "bs = []" using loadNextBuffer_None[OF r] by (simp split: if_splits)
    then show ?thesis using None False n by (simp add: ReadBits_def)
  next
    case (Some r')
    have r': "reads s r' bs" "0 < r_valid r'" "r_valid r = 0 \<Longrightarrow> min n (length bs) \<le> r_valid r'"
      using Some loadNextBuffer_Some[OF r _ _ n, of r'] r by (auto split: if_splits)
    show ?thesis
    proof (cases "n \<le> r_valid r'")
      case True
      moreover have "n \<le> length bs" using True reads_length[OF r'(1)] by simp
      moreover have "reads s (r'\<lparr>r_valid := r_valid r' - n\<rparr>) (drop n bs)" using reads_take(1)[OF r'(1) True] .
      ultimately show ?thesis using Some False n readBitsFast_reads[OF r'(1)] by (simp add: ReadBits_def)
    next
      case nv: False
      then have "ReadBits r n = read_across r' n" using Some False n by (simp add: ReadBits_def)
      then show ?thesis using read_across_reads[OF r'(1) _ n r'(2)] nv by simp
    qed
  qed
qed (use r in \<open>simp add: ReadBits_def bits_val_def\<close>)

lemma ReadBit_reads:
  assumes r: "reads s r bs"
  shows "(case bs of [] \<Rightarrow> ReadBit r = Inl io_EOF | b # bs' \<Rightarrow> \<exists>r'. ReadBit r = Inr (b, r') \<and> reads s r' bs')"
proof (cases "if r_valid r = 0 then loadNextBuffer r 1 else Some r")
  case None
  then have "bs = []" using loadNextBuffer_None[OF r] by (simp split: if_splits)
  then show ?thesis using None by (simp add: ReadBit_def)
next
  case (Some r')
  have r': "reads s r' bs" "1 \<le> r_valid r'"
    using Some loadNextBuffer_Some[OF r, of 1 r'] r by (auto split: if_splits)
  then obtain b bs' where b: "bs = b # bs'" using reads_length[OF r'(1)] by (cases bs) auto
  have "reads s (r'\<lparr>r_valid := r_valid r' - 1\<rparr>) bs'" using reads_take(1)[OF r'] b by simp
  moreover have "r_buffer r' AND push_bit (r_valid r' - 1) 1 \<noteq> 0 \<longleftrightarrow> b"
    using reads_take(2)[OF r'] b by (simp add: msb_bits_def bit_drop_bit_eq and_exp_eq_0_iff_not_bit)
  moreover have "sub8 (r_valid r') 1 = r_valid r' - 1" using r' readsD(2)[OF r'(1)] by simp
  ultimately show ?thesis using Some b by (simp add: ReadBit_def Let_def)
qed

lemma ReadBits_enc:
  assumes "reads s r (msb_bits n u @ rest)" "n \<le> 64"
  shows "\<exists>r'. ReadBits r n = Inr (take_bit n u, r') \<and> reads s r' rest"
  using ReadBits_reads[OF assms] assms(2) by (simp add: bits_val_msb)

lemma ReadByte_reads:
  assumes r: "reads s r bs"
  shows "(if 8 \<le> length bs then \<exists>b r'. ReadByte r = Inr (b, r') \<and> take 8 bs = msb_bits 8 b \<and> reads s r' (drop 8 bs)
          else ReadByte r = Inl io_EOF)"
proof (cases "8 \<le> length bs")
  case True
  then have "msb_bits 8 (ucast (bits_val (take 8 bs)) :: u8) = take 8 bs"
    using msb_bits_val[of "take 8 bs"] by (simp add: msb_ucast min_absorb2)
  then show ?thesis using ReadBits_reads[OF r, of 8] True by (auto simp: ReadByte_def)
qed (use ReadBits_reads[OF r, of 8] in \<open>simp add: ReadByte_def\<close>)

lemma next_byte_reads:
  assumes r: "reads s r bs"
  shows "(if 8 \<le> length bs then \<exists>b r'. next_byte r = Inr (b, r') \<and> take 8 bs = msb_bits 8 b \<and> reads s r' (drop 8 bs)
          else next_byte r = Inl io_EOF)"
proof (cases "r_valid r \<ge> 8")
  case True
  moreover have "8 \<le> length bs" using True reads_length[OF r] by simp
  moreover have "take 8 bs = msb_bits 8 (ucast (drop_bit (r_valid r - 8) (r_buffer r)) :: u8)"
    using reads_take(2)[OF r True] by (simp add: msb_ucast)
  moreover have "sub8 (r_valid r) 8 = r_valid r - 8" using True readsD(2)[OF r] by simp
  ultimately show ?thesis using reads_take(1)[OF r True] by (simp add: next_byte_def)
qed (use ReadByte_reads[OF r] in \<open>simp add: next_byte_def\<close>)

lemma next_byte_enc: "reads s r (msb_bits 8 b @ rest) \<Longrightarrow> \<exists>r'. next_byte r = Inr (b, r') \<and> reads s r' rest"
  using next_byte_reads[of s r "msb_bits 8 b @ rest"] by (auto dest: msb8_inj)

text \<open>Where \<^verbatim>\<open>encoding/binary\<close> reads a varint, the bit reader reads the same one.\<close>

lemma read_uvarint_loop_reads:
  assumes "uvarint_loop i x buf = (v, m)" "0 < m" "i \<le> MaxVarintLen64" "reads s r (stream_bits buf @ rest)"
  shows "\<exists>r'. read_uvarint_loop (MaxVarintLen64 - i) r x (7 * i) = Inr (v, r') \<and> int i < m \<and>
    reads s r' (stream_bits (drop (nat m - i) buf) @ rest)"
  using assms
proof (induction i x buf arbitrary: r rule: uvarint_loop.induct)
  case (2 i x b buf)
  have i: "i < MaxVarintLen64" using 2(2,3,4) by (auto split: if_splits)
  then obtain k where k: "MaxVarintLen64 - i = Suc k" "MaxVarintLen64 - Suc i = k" by (metis Suc_diff_Suc)
  have "reads s r (msb_bits 8 b @ (stream_bits buf @ rest))" using 2(5) by simp
  then obtain r' where r': "next_byte r = Inr (b, r')" "reads s r' (stream_bits buf @ rest)"
    using next_byte_enc by blast
  show ?case
  proof (cases "b < 0x80")
    case True
    then have "v = x OR push_bit (7 * i) (ucast b)" "m = int i + 1" using 2(2,3) i by (auto split: if_splits)
    then show ?thesis using True r' k by (simp add: nat_add_distrib)
  next
    case False
    have "uvarint_loop (i + 1) (x OR push_bit (7 * i) (ucast (b AND 0x7f))) buf = (v, m)" using 2(2) False i by simp
    from 2(1)[OF _ False this 2(3) _ r'(2)] i obtain r'' where
      "read_uvarint_loop k r' (x OR push_bit (7 * i) (ucast (b AND 0x7f))) (7 * i + 7) = Inr (v, r'')"
      "int i + 1 < m" "reads s r'' (stream_bits (drop (nat m - Suc i) buf) @ rest)"
      using k by (auto simp: add.commute)
    moreover from this(2) have "nat m - i = Suc (nat m - Suc i)" by linarith
    ultimately show ?thesis using False r' k by simp
  qed
qed simp

lemma ReadUvarint_enc:
  assumes "reads s r (stream_bits (AppendUvarint [] u) @ rest)"
  shows "\<exists>r'. ReadUvarint r = Inr (u, r') \<and> reads s r' rest"
  using read_uvarint_loop_reads[OF Uvarint_enc[of u "[]", unfolded Uvarint_def append_Nil2] _ _ assms] AppendUvarint_nonempty[of u]
  by (simp add: ReadUvarint_def)

lemma ReadVarint_enc:
  assumes "reads s r (stream_bits (AppendVarint [] x) @ rest)"
  shows "\<exists>r'. ReadVarint r = Inr (x, r') \<and> reads s r' rest"
proof -
  obtain r' where "ReadUvarint r = Inr (if sint x < 0 then NOT (push_bit 1 x) else push_bit 1 x, r')" "reads s r' rest"
    using ReadUvarint_enc[OF assms[unfolded AppendVarint_def Let_def]] by blast
  then show ?thesis using zigzag[of x] unfolding ReadVarint_def Let_def by (simp only: attempt_simps prod.case) blast
qed

lemma WriteUvarint_writes: "writes w bs \<Longrightarrow> writes (WriteUvarint w u) (bs @ stream_bits (AppendUvarint [] u))"
proof (induction w u arbitrary: bs rule: WriteUvarint.induct)
  case (1 w u)
  show ?case
  proof (cases "u \<ge> 0x80")
    case True
    have "AppendUvarint [] u = (ucast u OR 0x80) # AppendUvarint [] (drop_bit 7 u)"
      using True AppendUvarint.simps[of "[]" u] AppendUvarint_append[of "[ucast u OR 0x80]" "drop_bit 7 u"] by simp
    then show ?thesis using 1(1)[OF True WriteByte_writes[OF 1(2)]] True by (simp add: WriteUvarint.simps[of w u])
  next
    case False
    then show ?thesis using WriteByte_writes[OF 1(2), of "ucast u"]
      by (simp add: WriteUvarint.simps[of w u] AppendUvarint.simps[of "[]" u])
  qed
qed

lemma WriteVarint_writes: "writes w bs \<Longrightarrow> writes (WriteVarint w x) (bs @ stream_bits (AppendVarint [] x))"
  by (simp add: WriteVarint_def AppendVarint_def Let_def WriteUvarint_writes)

lemma AlignToByte_reads: "reads s r bs \<Longrightarrow> reads s (AlignToByte r) (drop (length bs mod 8) bs)"
proof -
  assume r: "reads s r bs"
  let ?k = "r_valid r mod 8"
  have "length bs mod 8 = ?k" using reads_length[OF r] by (metis mod_mult_self4)
  moreover have "reads s (r\<lparr>r_valid := r_valid r - ?k\<rparr>) (drop ?k bs)" by (rule reads_take(1)[OF r]) simp
  then have "reads s (AlignToByte r) (drop ?k bs)"
    by (auto simp: AlignToByte_def Let_def reads_def)
  ultimately show ?thesis by simp
qed

text \<open>A view is the next bytes from the next byte boundary on, buffered or not.\<close>

lemma ReadBytesView_reads:
  assumes r: "reads s r bs" and n: "0 < n"
  defines "bs' \<equiv> drop (length bs mod 8) bs"
  shows "(if 8 * n \<le> length bs' then \<exists>p r'. ReadBytesView r (int n) = Inr (p, r') \<and> length p = n \<and>
            stream_bits p = take (8 * n) bs' \<and> reads s r' (drop (8 * n) bs')
          else ReadBytesView r (int n) = Inl io_EOF)"
proof -
  let ?r = "AlignToByte r"
  let ?vb = "r_valid ?r div 8" and ?st = "r_offset ?r - r_valid ?r div 8"
  have a: "reads s ?r bs'" unfolding bs'_def by (rule AlignToByte_reads[OF r])
  have v: "r_valid ?r = 8 * ?vb" by (simp add: AlignToByte_def Let_def minus_mod_eq_mult_div)
  note d = readsD[OF a]
  have vb: "?vb \<le> r_offset ?r" using d(4) v by linarith
  have pos: "8 * r_offset ?r - r_valid ?r = 8 * ?st" by (subst v) (simp add: diff_mult_distrib2)
  have bs': "bs' = stream_bits (drop ?st s)" using d(6) pos by (simp add: stream_bits_drop)
  have len: "length bs' = 8 * (length s - ?st)" by (simp add: bs')
  define V where "V = take n (drop ?st s)"
  show ?thesis
  proof (cases "8 * n \<le> length bs'")
    case True
    then have V: "length V = n" "stream_bits V = take (8 * n) bs'" using len by (simp_all add: V_def bs' stream_bits_take)
    have in_s: "?st + n \<le> length s" using True len n by simp
    show ?thesis
    proof (cases "n \<le> ?vb")
      case nv: True
      let ?q = "?r\<lparr>r_valid := r_valid ?r - 8 * n\<rparr>"
      have "reads s ?q (drop (8 * n) bs')" using reads_take(1)[OF a, of "8 * n"] v nv by linarith
      then have "reads s (if r_valid ?q = 0 then ?q\<lparr>r_buffer := 0\<rparr> else ?q) (drop (8 * n) bs')"
        by (auto simp: reads_def)
      moreover have "sub8 (r_valid ?r) (n * 8) = r_valid ?r - 8 * n" using d(2) v nv by (simp add: mult.commute)
      moreover have "\<not> length s - ?st < n" using in_s by linarith
      ultimately have "ReadBytesView r (int n) = Inr (V, if r_valid ?q = 0 then ?q\<lparr>r_buffer := 0\<rparr> else ?q)"
        using n nv d(1) by (simp add: ReadBytesView_def Let_def V_def)
      then show ?thesis using True V \<open>reads s (if r_valid ?q = 0 then ?q\<lparr>r_buffer := 0\<rparr> else ?q) (drop (8 * n) bs')\<close> by auto
    next
      case False
      let ?q = "?r\<lparr>r_offset := ?st + n, r_buffer := 0, r_valid := 0\<rparr>"
      have "drop (8 * (?st + n)) (stream_bits s) = drop (8 * n) bs'" by (simp add: bs' stream_bits_drop add.commute)
      then have "reads s ?q (drop (8 * n) bs')" using d in_s by (simp add: reads_def)
      then show ?thesis using True V n False len in_s d(1) by (simp add: ReadBytesView_def Let_def V_def)
    qed
  next
    case False
    then show ?thesis using len d(1) n by (simp add: ReadBytesView_def Let_def)
  qed
qed

lemma drain_reads:
  assumes "reads s r bs" "r_valid r mod 8 = 0"
  shows "\<exists>r' n' q. drain r n p = (r', n', p @ q) \<and> length q + n' = n \<and> stream_bits q = take (8 * length q) bs \<and>
    reads s r' (drop (8 * length q) bs) \<and> 8 * length q \<le> length bs \<and> (0 < n' \<longrightarrow> r_valid r' = 0)"
  using assms
proof (induction n arbitrary: r bs p)
  case (Suc n)
  show ?case
  proof (cases "r_valid r \<ge> 8")
    case True
    let ?b = "ucast (drop_bit (r_valid r - 8) (r_buffer r)) :: u8" and ?r = "r\<lparr>r_valid := r_valid r - 8\<rparr>"
    have sub: "sub8 (r_valid r) 8 = r_valid r - 8" using True readsD(2)[OF Suc.prems(1)] by simp
    have b: "take 8 bs = msb_bits 8 ?b" using reads_take(2)[OF Suc.prems(1) True] by (simp add: msb_ucast)
    have len: "8 \<le> length bs" using True reads_length[OF Suc.prems(1)] by simp
    have "r_valid ?r mod 8 = 0" using Suc.prems(2) True by (simp add: le_mod_geq)
    from Suc.IH[OF reads_take(1)[OF Suc.prems(1) True] this, of "p @ [?b]"]
    obtain r' n' q where q: "drain ?r n (p @ [?b]) = (r', n', (p @ [?b]) @ q)" "length q + n' = n"
      "stream_bits q = take (8 * length q) (drop 8 bs)" "reads s r' (drop (8 * length q) (drop 8 bs))"
      "8 * length q \<le> length (drop 8 bs)" "0 < n' \<longrightarrow> r_valid r' = 0" by blast
    have "stream_bits (?b # q) = take (8 * length (?b # q)) bs"
      using q(3) b by (simp add: take_add[of 8])
    then show ?thesis using q True sub len
      by (intro exI[of _ r'] exI[of _ n'] exI[of _ "?b # q"]) (simp add: add.commute)
  next
    case False
    then have "r_valid r = 0" using Suc.prems(2) by presburger
    then show ?thesis using Suc.prems by simp
  qed
qed simp

lemma ReadBytes_reads:
  assumes r: "reads s r bs"
  defines "bs' \<equiv> drop (length bs mod 8) bs"
  shows "(if 8 * n \<le> length bs' then \<exists>p r'. ReadBytes r n = Inr (p, r') \<and> length p = n \<and>
            stream_bits p = take (8 * n) bs' \<and> reads s r' (drop (8 * n) bs')
          else ReadBytes r n = Inl io_EOF)"
proof -
  have a: "reads s (AlignToByte r) bs'" unfolding bs'_def by (rule AlignToByte_reads[OF r])
  have "r_valid (AlignToByte r) mod 8 = 0" by (simp add: AlignToByte_def Let_def minus_mod_eq_mult_div)
  from drain_reads[OF a this, of n "[]"] obtain r' n' q where q: "drain (AlignToByte r) n [] = (r', n', q)" "length q + n' = n"
      "stream_bits q = take (8 * length q) bs'" "reads s r' (drop (8 * length q) bs')" "8 * length q \<le> length bs'"
      "0 < n' \<longrightarrow> r_valid r' = 0" by auto
  note d = readsD[OF q(4)]
  show ?thesis
  proof (cases "n' = 0")
    case True
    then show ?thesis using q by (auto simp: ReadBytes_def)
  next
    case False
    then have v: "r_valid r' = 0" using q(6) by simp
    have rest: "drop (8 * length q) bs' = stream_bits (drop (r_offset r') s)" using d(6) v by (simp add: stream_bits_drop)
    have len: "length bs' = 8 * length q + 8 * (length s - r_offset r')"
      using arg_cong[OF rest, of length] q(5) by simp
    let ?t = "take n' (drop (r_offset r') s)"
    have n: "8 * n = 8 * length q + 8 * n'" using q(2) by simp
    show ?thesis
    proof (cases "8 * n \<le> length bs'")
      case True
      then have le: "n' \<le> length s - r_offset r'" using len n by simp
      have t: "stream_bits (q @ ?t) = take (8 * n) bs'"
        using q(3) n rest by (simp add: take_add stream_bits_take)
      have "drop (8 * n) bs' = drop (8 * (r_offset r' + n')) (stream_bits s)"
        using rest n by (metis drop_drop add.commute stream_bits_drop distrib_left)
      then have "reads s (r'\<lparr>r_offset := r_offset r' + n', r_buffer := 0, r_valid := 0\<rparr>) (drop (8 * n) bs')"
        using d le False by (simp add: reads_def)
      then show ?thesis using True False q(1,2) t le d(1) by (simp add: ReadBytes_def not_less)
    next
      case short: False
      then have "length s - r_offset r' < n'" using len n by linarith
      then show ?thesis using short False q(1) d(1) by (simp add: ReadBytes_def)
    qed
  qed
qed

subsection \<open>The refinement\<close>

text \<open>C5. Refinement: whatever the alignment of the writer and the refill state of the reader, \<^verbatim>\<open>WriteBits\<close>
  appends the \<open>n\<close> low bits of its word to the bits written, and \<^verbatim>\<open>ReadBits\<close> splits the next \<open>n\<close> bits off
  those that are left, or reports end of file exactly if fewer are left.
\<close>

theorem bit_streams_refine_bit_strings:
  assumes "writes w ws" "reads s r bs" "n \<le> 64"
  shows "(\<exists>w'. WriteBits w u (int n) = Inr w' \<and> writes w' (ws @ msb_bits n u)) \<and>
    (if n \<le> length bs then \<exists>r'. ReadBits r n = Inr (bits_val (take n bs), r') \<and> reads s r' (drop n bs)
     else ReadBits r n = Inl io_EOF)"
  using WriteBits_writes[OF assms(1,3)] ReadBits_reads[OF assms(2,3)] by blast

text \<open>A field written into the five free bits of a byte, and one read across a refill.\<close>

definition ex_writer :: Writer where
  "ex_writer = \<lparr>w_stream = [0xA0], w_count = 5\<rparr>"

definition ex_reader :: Reader where
  "ex_reader = \<lparr>r_stream = [1, 2, 3, 4, 5, 6, 7, 8, 9, 10], r_offset = 8, r_buffer = 8, r_valid = 4, r_last = 10\<rparr>"

theorem bit_streams_refine_bit_strings_witness:
  "writes ex_writer [True, False, True] \<and>
   reads [1, 2, 3, 4, 5, 6, 7, 8, 9, 10] ex_reader (drop 60 (stream_bits [1, 2, 3, 4, 5, 6, 7, 8, 9, 10])) \<and>
   (\<exists>w'. WriteBits ex_writer 0xabc (int 12) = Inr w' \<and> writes w' ([True, False, True] @ msb_bits 12 (0xabc :: u64))) \<and>
   (\<exists>r'. ReadBits ex_reader 12 = Inr (0x809, r'))"
proof -
  have w: "writes ex_writer [True, False, True]" by code_simp
  have r: "reads [1, 2, 3, 4, 5, 6, 7, 8, 9, 10] ex_reader (drop 60 (stream_bits [1, 2, 3, 4, 5, 6, 7, 8, 9, 10]))" by code_simp
  have v: "bits_val (take 12 (drop 60 (stream_bits [1, 2, 3, 4, 5, 6, 7, 8, 9, 10]))) = 0x809"
    "12 \<le> length (drop 60 (stream_bits [1, 2, 3, 4, 5, 6, 7, 8, 9, 10]))" by code_simp+
  show ?thesis using bit_streams_refine_bit_strings[OF w r, of 12 "0xabc"] w r v by auto
qed

subsection \<open>The contract of a bit codec\<close>

text \<open>
  A writer of values and a reader that undoes it, on bit streams: the writer appends \<open>enc x\<close> without a
  panic, and a reader that has \<open>enc x\<close> next returns \<open>x\<close> and leaves the rest. Every value takes a bit,
  which is what lets a decoder bound a row count by the bits that follow.
\<close>

locale bit_codec =
  fixes put :: "Writer \<Rightarrow> 'a \<Rightarrow> CodecError + Writer" and get :: "Reader \<Rightarrow> CodecError + 'a \<times> Reader"
    and enc :: "'a \<Rightarrow> bool list" and sized :: "'a \<Rightarrow> bool"
  assumes put_ok: "writes w bs \<Longrightarrow> sized x \<Longrightarrow> \<exists>w'. put w x = Inr w' \<and> writes w' (bs @ enc x)"
    and get_ok: "reads s r (enc x @ rest) \<Longrightarrow> sized x \<Longrightarrow> \<exists>r'. get r = Inr (x, r') \<and> reads s r' rest"
    and enc_pos: "sized x \<Longrightarrow> enc x \<noteq> []"
begin

lemma count_le: "\<forall>x \<in> set xs. sized x \<Longrightarrow> length xs \<le> length (concat (map enc xs))"
  using enc_pos by (induction xs) (auto simp: Suc_le_eq add_strict_increasing)

text \<open>What one writer wrote, any reader over the padded bytes reads back.\<close>

lemma put_get:
  assumes "writes w []" "sized x"
  obtains w' r' where "put w x = Inr w'" "get (NewReader (Bytes (PadToByte w'))) = Inr (x, r')"
proof -
  obtain w' where w': "put w x = Inr w'" "writes w' ([] @ enc x)" using put_ok[OF assms] by blast
  have "reads (w_stream w') (NewReader (Bytes (PadToByte w'))) (enc x @ replicate (w_count w') False)"
    using NewReader_reads[of "w_stream w'"] writesD(2)[OF w'(2)]
    by (cases "w_count w'") (simp_all add: Bytes_def PadToByte_def)
  from get_ok[OF this assms(2)] w'(1) that show thesis by blast
qed

end

interpretation bit1: bit_codec "\<lambda>w b. Inr (WriteBit w b)" ReadBit "\<lambda>b. [b]" "\<lambda>_. True"
proof
  show "\<exists>r'. ReadBit r = Inr (x, r') \<and> reads s r' rest" if "reads s r ([x] @ rest)" for s r x rest
    using ReadBit_reads[OF that] by simp
qed (simp_all add: WriteBit_writes)

interpretation field: bit_codec "\<lambda>w u. WriteBits w u (int n)" "\<lambda>r. ReadBits r n" "msb_bits n"
  "\<lambda>u. 0 < n \<and> n \<le> 64 \<and> take_bit n u = u" for n
proof
  show "\<exists>w'. WriteBits w x (int n) = Inr w' \<and> writes w' (bs @ msb_bits n x)"
    if "writes w bs" "0 < n \<and> n \<le> 64 \<and> take_bit n x = x" for w bs x
    using WriteBits_writes[OF that(1)] that(2) by simp
  show "\<exists>r'. ReadBits r n = Inr (x, r') \<and> reads s r' rest"
    if "reads s r (msb_bits n x @ rest)" "0 < n \<and> n \<le> 64 \<and> take_bit n x = x" for s r x rest
    using ReadBits_enc[OF that(1)] that(2) by simp
  show "msb_bits n x \<noteq> []" if "0 < n \<and> n \<le> 64 \<and> take_bit n x = x" for x :: u64
    using that by (metis msb_length list.size(3) less_irrefl)
qed

lemma stream_bits_nonempty: "s \<noteq> [] \<Longrightarrow> stream_bits s \<noteq> []"
  by (metis stream_bits_length length_0_conv mult_eq_0_iff zero_neq_numeral)

interpretation uvarint: bit_codec "\<lambda>w u. Inr (WriteUvarint w u)" ReadUvarint "\<lambda>u. stream_bits (AppendUvarint [] u)" "\<lambda>_. True"
  by unfold_locales (simp_all add: WriteUvarint_writes ReadUvarint_enc stream_bits_nonempty AppendUvarint_nonempty)

interpretation varint: bit_codec "\<lambda>w x. Inr (WriteVarint w x)" ReadVarint "\<lambda>x. stream_bits (AppendVarint [] x)" "\<lambda>_. True"
  by unfold_locales (simp_all add: WriteVarint_writes ReadVarint_enc stream_bits_nonempty zv.enc_pos)

subsection \<open>Reading anything\<close>

text \<open>
  A reader operation that does not panic and leaves a sound reader, whatever bits are left. It is closed
  under sequencing, so the decoders inherit it.
\<close>

definition sane :: "bytes \<Rightarrow> (Reader \<Rightarrow> CodecError + 'a \<times> Reader) \<Rightarrow> bool" where
  "sane s get \<longleftrightarrow> (\<forall>r bs. reads s r bs \<longrightarrow>
     (case get r of Inl e \<Rightarrow> e \<noteq> Panic | Inr (x, r') \<Rightarrow> \<exists>bs'. reads s r' bs' \<and> length bs' \<le> length bs))"

lemma saneI:
  assumes "\<And>r bs. reads s r bs \<Longrightarrow> (\<exists>x r' bs'. get r = Inr (x, r') \<and> reads s r' bs' \<and> length bs' \<le> length bs) \<or>
    (\<exists>e. get r = Inl e \<and> e \<noteq> Panic)"
  shows "sane s get"
  using assms unfolding sane_def by fastforce

lemma saneD:
  assumes "sane s get" "reads s r bs"
  shows "get r \<noteq> Inl Panic" "get r = Inr (x, r') \<Longrightarrow> \<exists>bs'. reads s r' bs' \<and> length bs' \<le> length bs"
  using assms unfolding sane_def by (fastforce split: sum.splits prod.splits)+

lemma sane_Inr: "sane s (\<lambda>r. Inr (x, r))"
  by (rule saneI) auto

lemma sane_Inl: "e \<noteq> Panic \<Longrightarrow> sane s (\<lambda>r. Inl e)"
  by (rule saneI) auto

lemma sane_attempt_if:
  assumes "sane s get" "\<And>r x r'. get r = Inr (x, r') \<Longrightarrow> P x" "\<And>x. P x \<Longrightarrow> sane s (next x)"
  shows "sane s (\<lambda>r. attempt (get r) (\<lambda>(x, r). next x r))"
  unfolding sane_def
proof (intro allI impI)
  fix r bs assume r: "reads s r bs"
  show "case attempt (get r) (\<lambda>(x, r). next x r) of Inl e \<Rightarrow> e \<noteq> Panic
    | Inr (x, r') \<Rightarrow> \<exists>bs'. reads s r' bs' \<and> length bs' \<le> length bs"
  proof (cases "get r")
    case (Inr y)
    then obtain x r' where y: "get r = Inr (x, r')" by (cases y) simp
    then obtain bs' where b: "reads s r' bs'" "length bs' \<le> length bs" using saneD(2)[OF assms(1) r] by blast
    note n = assms(3)[OF assms(2)[OF y]]
    show ?thesis using saneD(1)[OF n b(1)] saneD(2)[OF n b(1)] b(2) y
      by (cases "next x r'") (auto, meson le_trans)
  qed (use saneD(1)[OF assms(1) r] in simp)
qed

lemma sane_attempt: "sane s get \<Longrightarrow> (\<And>x. sane s (next x)) \<Longrightarrow> sane s (\<lambda>r. attempt (get r) (\<lambda>(x, r). next x r))"
  by (rule sane_attempt_if[where P = "\<lambda>_. True"]) simp_all

lemma sane_if: "(b \<Longrightarrow> sane s f) \<Longrightarrow> (\<not> b \<Longrightarrow> sane s g) \<Longrightarrow> sane s (\<lambda>r. if b then f r else g r)"
  by (cases b) simp_all

lemma sane_ReadBits: "n \<le> 64 \<Longrightarrow> sane s (\<lambda>r. ReadBits r n)"
  using ReadBits_reads[of s _ _ n] by (intro saneI) (fastforce split: if_splits)

lemma sane_ReadBit: "sane s ReadBit"
proof (rule saneI)
  fix r bs assume "reads s r bs"
  from ReadBit_reads[OF this]
  show "(\<exists>x r' bs'. ReadBit r = Inr (x, r') \<and> reads s r' bs' \<and> length bs' \<le> length bs) \<or>
      (\<exists>e. ReadBit r = Inl e \<and> e \<noteq> Panic)"
    by (cases bs) (auto intro!: exI[of _ "tl bs"])
qed

lemma sane_next_byte: "sane s next_byte"
proof (rule saneI)
  fix r bs assume "reads s r bs"
  from next_byte_reads[OF this]
  show "(\<exists>x r' bs'. next_byte r = Inr (x, r') \<and> reads s r' bs' \<and> length bs' \<le> length bs) \<or>
      (\<exists>e. next_byte r = Inl e \<and> e \<noteq> Panic)"
    by (cases "8 \<le> length bs") (auto intro!: exI[of _ "drop 8 bs"])
qed

lemma sane_read_uvarint_loop: "sane s (\<lambda>r. read_uvarint_loop k r x v)"
proof (induction k arbitrary: x v)
  case (Suc k)
  have "sane s (\<lambda>r. if b < 0x80 then Inr (x OR push_bit v (ucast b), r)
      else read_uvarint_loop k r (x OR push_bit v (ucast (b AND 0x7f))) (v + 7))" for b :: u8
    by (intro sane_if sane_Inr Suc)
  from sane_attempt[OF sane_next_byte this] show ?case by simp
qed (simp add: sane_Inl)

lemma sane_ReadUvarint: "sane s ReadUvarint"
  using sane_read_uvarint_loop by (simp add: ReadUvarint_def[abs_def])

lemma sane_ReadVarint: "sane s ReadVarint"
  unfolding ReadVarint_def[abs_def] Let_def by (intro sane_attempt sane_ReadUvarint sane_Inr)

lemmas sane_intros = sane_attempt sane_Inr sane_Inl sane_if sane_ReadBits sane_ReadBit sane_ReadUvarint sane_ReadVarint

lemma attempt_no_panic: "m \<noteq> Inl Panic \<Longrightarrow> (\<And>x. m = Inr x \<Longrightarrow> f x \<noteq> Inl Panic) \<Longrightarrow> attempt m f \<noteq> Inl Panic"
  by (cases m) simp_all

lemma if_no_panic: "(b \<Longrightarrow> x \<noteq> Inl Panic) \<Longrightarrow> (\<not> b \<Longrightarrow> y \<noteq> Inl Panic) \<Longrightarrow> (if b then x else y) \<noteq> Inl Panic"
  by simp

lemma Inr_no_panic: "Inr x \<noteq> Inl Panic"
  by simp

lemma sane_then:
  assumes "sane s get" "reads s r bs" "\<And>x r' bs'. reads s r' bs' \<Longrightarrow> f x r' \<noteq> Inl Panic"
  shows "attempt (get r) (\<lambda>(x, r). f x r) \<noteq> Inl Panic"
  using saneD[OF assms(1,2)] assms(3) by (intro attempt_no_panic) (auto split: prod.splits)

lemmas no_panic_intros = if_no_panic Inr_no_panic sane_then

end
