(* ===== verification/Columns.thy ===== *)
theory Columns
  imports Bit_Reading
begin

text \<open>
  What every column codec of \<^verbatim>\<open>src/encoding/chunk\<close> shares (\<^verbatim>\<open>chunk.go\<close>): the codec identifiers, the
  header with the row count, its bounds, and the lemmas that carry a column from the bits a writer
  appended to the bytes a decoder gets and back.
\<close>

datatype Codec = CodecNone | CodecDoD | CodecGorilla | CodecDict | CodecT64 | CodecDecimal | CodecID128
  | CodecBytesRaw | CodecDoDScaled | CodecFloatGroups | CodecAdaptiveTimestamps

definition writeHeader :: "bytes \<Rightarrow> nat \<Rightarrow> Writer \<times> bytes" where
  "writeHeader dst rows = (let w = WriteUvarint (NewWriter dst) (of_nat rows) in (w, Bytes w))"

record byteReader =
  br_data :: bytes
  br_off :: nat

definition byteReader_ReadByte :: "byteReader \<Rightarrow> CodecError + u8 \<times> byteReader" where
  "byteReader_ReadByte r =
     (if br_off r \<ge> length (br_data r) then Inl errEOF
      else Inr (br_data r ! br_off r, r\<lparr>br_off := br_off r + 1\<rparr>))"

fun header_uvarint_loop :: "nat \<Rightarrow> byteReader \<Rightarrow> u64 \<Rightarrow> nat \<Rightarrow> CodecError + u64 \<times> byteReader" where
  "header_uvarint_loop 0 r x s = Inl errUnexpectedEOF"
| "header_uvarint_loop (Suc k) r x s =
     attempt (byteReader_ReadByte r)
       (\<lambda>(b, r). if b < 0x80 then Inr (x OR push_bit s (ucast b), r)
          else header_uvarint_loop k r (x OR push_bit s (ucast (b AND 0x7f))) (s + 7))"

definition header_readUvarint :: "byteReader \<Rightarrow> CodecError + u64 \<times> byteReader" where
  "header_readUvarint r = header_uvarint_loop 10 r 0 0"

text \<open>The row count is \<^verbatim>\<open>int(u)\<close>, negative if the varint overflows an \<^verbatim>\<open>int64\<close>.\<close>

definition readHeaderInto :: "bytes \<Rightarrow> Reader option \<Rightarrow> CodecError + int \<times> nat \<times> Reader option" where
  "readHeaderInto src r =
     attempt (header_readUvarint \<lparr>br_data = src, br_off = 0\<rparr>)
       (\<lambda>(u, br). Inr (sint u, br_off br, map_option (\<lambda>r. Reader_Reset r (drop (br_off br) src)) r))"

definition readHeader :: "bytes \<Rightarrow> CodecError + Reader \<times> int \<times> nat" where
  "readHeader src = attempt (readHeaderInto src None)
     (\<lambda>(rows, consumed, _). Inr (NewReader (drop consumed src), rows, consumed))"

definition readHeaderRows :: "bytes \<Rightarrow> int \<Rightarrow> CodecError + Reader \<times> int \<times> nat" where
  "readHeaderRows src want =
     (if want < 0 then Inl errUnexpectedEOF
      else attempt (readHeader src)
        (\<lambda>(r, rows, consumed). if rows \<noteq> want then Inl errUnexpectedEOF else Inr (r, rows, consumed)))"

definition boundRows :: "int \<Rightarrow> int \<Rightarrow> CodecError + unit" where
  "boundRows rows maxRows = (if rows < 0 \<or> rows > maxRows then Inl errUnexpectedEOF else Inr ())"

subsection \<open>Headers\<close>

lemma header_uvarint_loop_reads:
  assumes "uvarint_loop i x buf = (v, m)" "0 < m" "i \<le> 10" "drop off data = buf"
  shows "header_uvarint_loop (10 - i) \<lparr>br_data = data, br_off = off\<rparr> x (7 * i) =
    Inr (v, \<lparr>br_data = data, br_off = off + (nat m - i)\<rparr>) \<and> int i < m"
  using assms
proof (induction i x buf arbitrary: off rule: uvarint_loop.induct)
  case (2 i x b buf)
  have i: "i < 10" using 2(2,3,4) by (auto split: if_splits simp: MaxVarintLen64_def)
  then obtain k where k: "10 - i = Suc k" "10 - Suc i = k" by (metis Suc_diff_Suc)
  have off: "off < length data" using 2(5) by (metis drop_all list.distinct(1) not_less)
  from Cons_nth_drop_Suc[OF this] 2(5) have d: "data ! off = b" and buf: "drop (off + 1) data = buf" by simp_all
  have b: "byteReader_ReadByte \<lparr>br_data = data, br_off = off\<rparr> = Inr (b, \<lparr>br_data = data, br_off = off + 1\<rparr>)"
    using off d by (simp add: byteReader_ReadByte_def)
  show ?case
  proof (cases "b < 0x80")
    case True
    then have "v = x OR push_bit (7 * i) (ucast b)" "m = int i + 1"
      using 2(2,3) i by (auto split: if_splits simp: MaxVarintLen64_def)
    then show ?thesis using True b k by (simp add: nat_add_distrib)
  next
    case False
    have "uvarint_loop (i + 1) (x OR push_bit (7 * i) (ucast (b AND 0x7f))) buf = (v, m)"
      using 2(2) False i by (simp add: MaxVarintLen64_def)
    from 2(1)[OF _ False this 2(3) _ buf] i k
    have "header_uvarint_loop k \<lparr>br_data = data, br_off = off + 1\<rparr> (x OR push_bit (7 * i) (ucast (b AND 0x7f))) (7 * i + 7) =
        Inr (v, \<lparr>br_data = data, br_off = off + 1 + (nat m - Suc i)\<rparr>)" "int i + 1 < m"
      by (simp_all add: MaxVarintLen64_def add.commute)
    moreover from this(2) have "nat m - i = Suc (nat m - Suc i)" by linarith
    ultimately show ?thesis using False b k by simp
  qed
qed simp

lemma readHeaderInto_enc:
  assumes "n < 2 ^ 63"
  shows "readHeaderInto (AppendUvarint [] (of_nat n) @ rest) r =
    Inr (int n, length (AppendUvarint [] (of_nat n :: u64)), map_option (\<lambda>r. Reader_Reset r rest) r)"
proof -
  have "sint (of_nat n :: u64) = int n" using assms by (simp add: signed_of_nat signed_take_bit_int_eq_self)
  moreover note header_uvarint_loop_reads[OF Uvarint_enc[of "of_nat n" rest, unfolded Uvarint_def], of 0 "AppendUvarint [] (of_nat n) @ rest"]
  ultimately show ?thesis using AppendUvarint_nonempty[of "of_nat n"]
    by (simp add: readHeaderInto_def header_readUvarint_def)
qed

lemma readHeader_enc:
  "n < 2 ^ 63 \<Longrightarrow> readHeader (AppendUvarint [] (of_nat n) @ rest) =
    Inr (NewReader rest, int n, length (AppendUvarint [] (of_nat n :: u64)))"
  by (simp add: readHeader_def readHeaderInto_enc)

lemma readHeaderRows_enc:
  "n < 2 ^ 63 \<Longrightarrow> readHeaderRows (AppendUvarint [] (of_nat n) @ rest) (int n) =
    Inr (NewReader rest, int n, length (AppendUvarint [] (of_nat n :: u64)))"
  by (simp add: readHeaderRows_def readHeader_enc)

lemma header_uvarint_loop_no_panic: "header_uvarint_loop k r x s \<noteq> Inl Panic"
  by (induction k r x s rule: header_uvarint_loop.induct) (auto simp: byteReader_ReadByte_def)

lemma readHeader_no_panic: "readHeaderInto src r \<noteq> Inl Panic" "readHeader src \<noteq> Inl Panic" "readHeaderRows src want \<noteq> Inl Panic"
proof -
  show i: "readHeaderInto src r \<noteq> Inl Panic" for r
    using header_uvarint_loop_no_panic[of 10 "\<lparr>br_data = src, br_off = 0\<rparr>" 0 0]
    by (cases "header_readUvarint \<lparr>br_data = src, br_off = 0\<rparr>")
      (auto simp: readHeaderInto_def header_readUvarint_def)
  then show h: "readHeader src \<noteq> Inl Panic"
    using i[of None] by (cases "readHeaderInto src None") (auto simp: readHeader_def)
  show "readHeaderRows src want \<noteq> Inl Panic"
    using h by (cases "readHeader src") (auto simp: readHeaderRows_def split: if_splits)
qed

lemma readHeader_reader: "readHeader src = Inr (r, rows, consumed) \<Longrightarrow> r = NewReader (drop consumed src)"
  by (auto simp: readHeader_def attempt_eq_Inr)

lemma readHeaderRows_reader: "readHeaderRows src want = Inr (r, rows, consumed) \<Longrightarrow> r = NewReader (drop consumed src) \<and> rows = want"
  by (auto simp: readHeaderRows_def attempt_eq_Inr readHeader_reader split: if_splits)

subsection \<open>Columns as bytes\<close>

lemma stream_bits_prefix:
  assumes "stream_bits e = stream_bits a @ bs"
  shows "\<exists>p. e = a @ p \<and> stream_bits p = bs"
proof -
  have "stream_bits (take (length a) e) = stream_bits a" using assms by (simp add: stream_bits_take)
  then have t: "take (length a) e = a" by (rule stream_bits_inj)
  have "stream_bits (drop (length a) e) = bs" using assms by (simp add: stream_bits_drop)
  then show ?thesis using t by (metis append_take_drop_id)
qed

text \<open>A padded column after \<open>dst\<close>: the header, the payload, and fewer than eight zero bits.\<close>

lemma column_bytes:
  assumes "writes w (stream_bits dst @ stream_bits (AppendUvarint [] n) @ bs)"
  shows "\<exists>p pad. Bytes (PadToByte w) = dst @ AppendUvarint [] n @ p \<and> stream_bits p = bs @ replicate pad False \<and> pad < 8"
proof -
  have "stream_bits (Bytes (PadToByte w)) = stream_bits (dst @ AppendUvarint [] n) @ bs @ replicate (w_count w) False"
    using writesD(2)[OF assms] by (simp add: Bytes_def PadToByte_def)
  from stream_bits_prefix[OF this] show ?thesis using writesD(1)[OF assms] by auto
qed

lemma column_consumed:
  "reads (p @ rest) r (replicate pad False @ stream_bits rest) \<Longrightarrow> pad < 8 \<Longrightarrow> ConsumedBytes r = length p"
  using ConsumedBytes_reads[of "p @ rest" r "replicate pad False @ stream_bits rest"] by simp

lemma column_reads: "stream_bits p = bs @ replicate pad False \<Longrightarrow>
    reads (p @ rest) (NewReader (p @ rest)) (bs @ replicate pad False @ stream_bits rest)"
  using NewReader_reads[of "p @ rest"] by simp

lemma writeHeader_writes: "writes (fst (writeHeader dst n)) (stream_bits dst @ stream_bits (AppendUvarint [] (of_nat n)))"
  by (simp add: writeHeader_def Let_def WriteUvarint_writes NewWriter_writes)

lemma writeHeader_bytes: "snd (writeHeader dst n) = dst @ AppendUvarint [] (of_nat n)"
proof -
  let ?w = "WriteUvarint (NewWriter dst) (of_nat n)"
  have "writes ?w (stream_bits (dst @ AppendUvarint [] (of_nat n)))"
    using WriteUvarint_writes[OF NewWriter_writes] by simp
  from writes_same[OF this NewWriter_writes] show ?thesis by (simp add: writeHeader_def Let_def Bytes_def NewWriter_def)
qed

lemma boundRows_ok: "int n \<le> m \<Longrightarrow> boundRows (int n) m = Inr ()"
  by (simp add: boundRows_def)

lemma aligned_writer: "writes w (stream_bits b) \<Longrightarrow> w = NewWriter b"
  by (rule writes_same[OF _ NewWriter_writes])

lemma unat_rows: "n < 2 ^ 63 \<Longrightarrow> unat (of_nat n :: u64) = n"
  by (simp add: unsigned_of_nat take_bit_nat_eq_self)

lemma readHeaderRows_other:
  "n < 2 ^ 63 \<Longrightarrow> rows \<noteq> int n \<Longrightarrow> readHeaderRows (AppendUvarint [] (of_nat n) @ rest) rows = Inl errUnexpectedEOF"
  by (simp add: readHeaderRows_def readHeader_enc)

subsection \<open>Forward cursors\<close>

text \<open>
  The interfaces \<^verbatim>\<open>TsCursor\<close> and \<^verbatim>\<open>FloatDecoder\<close> of \<^verbatim>\<open>decoder.go\<close>: a cursor that yields its rows one by one,
  knows how many there are and how many it has yielded, and ends with an error.
\<close>

fun collect :: "('c \<Rightarrow> CodecError + 'v \<times> 'c) \<Rightarrow> nat \<Rightarrow> 'c \<Rightarrow> CodecError + 'v list \<times> 'c" where
  "collect nxt 0 c = Inr ([], c)"
| "collect nxt (Suc k) c = attempt (nxt c) (\<lambda>(v, c). attempt (collect nxt k c) (\<lambda>(vs, c). Inr (v # vs, c)))"

definition yields :: "CodecError + 'v list \<times> 'c \<Rightarrow> CodecError + 'v list" where
  "yields res = attempt res (\<lambda>(vs, _). Inr vs)"

lemma yields_simps [simp]: "yields (Inl e) = Inl e" "yields (Inr (vs, c)) = Inr vs"
  by (simp_all add: yields_def)

lemma yields_attempt: "yields (attempt m f) = attempt m (\<lambda>x. yields (f x))"
  by (cases m) simp_all

lemma yields_Cons: "yields (attempt m (\<lambda>(vs, c). Inr (v # vs, g vs c))) = attempt (yields m) (\<lambda>vs. Inr (v # vs))"
  by (cases m) auto

definition through :: "('c \<Rightarrow> 'd) \<Rightarrow> CodecError + 'v list \<times> 'c \<Rightarrow> CodecError + 'v list \<times> 'd" where
  "through f res = attempt res (\<lambda>(vs, c). Inr (vs, f c))"

lemma through_simps [simp]: "through f (Inl e) = Inl e" "through f (Inr (vs, c)) = Inr (vs, f c)"
  by (simp_all add: through_def)

lemma through_Cons: "through f (attempt m (\<lambda>(vs, c). Inr (v # vs, c))) = attempt (through f m) (\<lambda>(vs, c). Inr (v # vs, c))"
  by (cases m) auto

lemma yields_through: "yields (through f res) = yields res"
  by (cases res) auto

lemma yields_step: "nxt d = Inr (v, d') \<Longrightarrow> yields (collect nxt (Suc k) d) = attempt (yields (collect nxt k d')) (\<lambda>vs. Inr (v # vs))"
  by (simp add: yields_Cons)

lemma through_step:
  "nxt d = Inr (v, d') \<Longrightarrow> through f (collect nxt (Suc k) d) = attempt (through f (collect nxt k d')) (\<lambda>(vs, c). Inr (v # vs, c))"
  by (simp add: through_Cons)

locale cursor =
  fixes len :: "'c \<Rightarrow> int" and pos :: "'c \<Rightarrow> int" and nxt :: "'c \<Rightarrow> CodecError + 'v \<times> 'c"
  assumes at_end: "pos c \<ge> len c \<Longrightarrow> \<exists>e. nxt c = Inl e"
    and step: "nxt c = Inr (v, c') \<Longrightarrow> pos c' = pos c + 1 \<and> len c' = len c"
begin

lemma collect_pos: "collect nxt k c = Inr (vs, c') \<Longrightarrow> pos c' = pos c + int k \<and> len c' = len c \<and> length vs = k"
proof (induction k arbitrary: c vs)
  case (Suc k)
  then obtain v c1 vs' where c1: "nxt c = Inr (v, c1)" "collect nxt k c1 = Inr (vs', c')" "vs = v # vs'"
    by (auto simp: attempt_eq_Inr)
  then show ?case using step[OF c1(1)] Suc.IH[OF c1(2)] by simp
qed simp

text \<open>A cursor read to its length is at its end, and it never yields a row more.\<close>

lemma collect_all: "pos c = 0 \<Longrightarrow> 0 \<le> len c \<Longrightarrow> collect nxt (nat (len c)) c = Inr (vs, c') \<Longrightarrow>
    (\<exists>e. nxt c' = Inl e) \<and> int (length vs) = len c"
  using collect_pos[of "nat (len c)" c vs c'] by (simp add: at_end)

end

end
