(* ===== verification/Timestamps.thy ===== *)
theory Timestamps
  imports Columns "HOL-Library.Signed_Division"
begin

text \<open>
  The timestamp codecs: delta-of-delta with and without a scale (\<^verbatim>\<open>src/encoding/chunk/timestamp.go\<close>).
  Adaptive chunks and the forward cursors are in \<open>Ts_Cursors\<close>. Timestamps are \<^verbatim>\<open>int64\<close> words, and every difference and sum wraps as
  Go's does.

  A decoder returns the rows it filled its destination with; the destination's capacity, and what an
  aborted decoding left in it, are not modelled.
\<close>

definition i64_div :: "i64 \<Rightarrow> i64 \<Rightarrow> i64" where
  "i64_div a b = word_of_int (sint a sdiv sint b)"

definition i64_rem :: "i64 \<Rightarrow> i64 \<Rightarrow> i64" where
  "i64_rem a b = word_of_int (sint a smod sint b)"

subsection \<open>Delta of delta\<close>

definition bitRange :: "i64 \<Rightarrow> nat \<Rightarrow> bool" where
  "bitRange x nbits = (let hi = 2 ^ (nbits - 1) in - (hi - 1) \<le> sint x \<and> sint x \<le> hi)"

definition signExtend :: "u64 \<Rightarrow> nat \<Rightarrow> i64" where
  "signExtend u nbits = (if u > push_bit (nbits - 1) 1 then u - push_bit nbits 1 else u)"

definition writeDoD :: "Writer \<Rightarrow> i64 \<Rightarrow> CodecError + Writer" where
  "writeDoD w dod =
     (if dod = 0 then Inr (WriteBit w False)
      else if bitRange dod 14 then attempt (WriteBits w 2 2) (\<lambda>w. WriteBits w (dod AND 0x3fff) 14)
      else if bitRange dod 17 then attempt (WriteBits w 6 3) (\<lambda>w. WriteBits w (dod AND 0x1ffff) 17)
      else if bitRange dod 20 then attempt (WriteBits w 14 4) (\<lambda>w. WriteBits w (dod AND 0xfffff) 20)
      else attempt (WriteBits w 15 4) (\<lambda>w. WriteBits w dod 64))"

fun prefix_loop :: "nat \<Rightarrow> Reader \<Rightarrow> nat \<Rightarrow> CodecError + nat \<times> Reader" where
  "prefix_loop 0 r d = Inr (d, r)"
| "prefix_loop (Suc k) r d =
     attempt (ReadBit r) (\<lambda>(b, r). if \<not> b then Inr (2 * d, r) else prefix_loop k r (2 * d + 1))"

definition readDoDPrefix :: "Reader \<Rightarrow> CodecError + nat \<times> Reader" where
  "readDoDPrefix r =
     (if Buffered r \<ge> 4 then
        (let p = unat (Peek r 4) in
         if p < 8 then Inr (0, Skip r 1)
         else if p < 12 then Inr (2, Skip r 2)
         else if p < 14 then Inr (6, Skip r 3)
         else if p = 14 then Inr (14, Skip r 4)
         else Inr (15, Skip r 4))
      else prefix_loop 4 r 0)"

definition readDoD :: "Reader \<Rightarrow> CodecError + i64 \<times> Reader" where
  "readDoD r = attempt (readDoDPrefix r) (\<lambda>(d, r).
     if d = 0 then Inr (0, r)
     else if d = 2 then attempt (ReadBits r 14) (\<lambda>(v, r). Inr (signExtend v 14, r))
     else if d = 6 then attempt (ReadBits r 17) (\<lambda>(v, r). Inr (signExtend v 17, r))
     else if d = 14 then attempt (ReadBits r 20) (\<lambda>(v, r). Inr (signExtend v 20, r))
     else if d = 15 then attempt (ReadBits r 64) (\<lambda>(v, r). Inr (v, r))
     else Inl errUnexpectedEOF)"

subsection \<open>Scales\<close>

definition divides :: "i64 \<Rightarrow> i64 \<Rightarrow> bool" where
  "divides scale d =
     (if scale = 1000000000 then i64_rem d 1000000000 = 0
      else if scale = 1000000 then i64_rem d 1000000 = 0
      else if scale = 1000 then i64_rem d 1000 = 0
      else True)"

definition validScale :: "u64 \<Rightarrow> bool" where
  "validScale scale \<longleftrightarrow> scale = 1 \<or> scale = 1000 \<or> scale = 1000000 \<or> scale = 1000000000"

lemma i64_div_numeral: "i64_div 1000000000 1000 = 1000000" "i64_div 1000000 1000 = 1000" "i64_div 1000 1000 = 1"
  by (simp_all add: i64_div_def)

text \<open>The inner loop of \<^verbatim>\<open>tsScale\<close>: step down the ladder until the scale divides \<open>d\<close>.\<close>

function lower_scale :: "i64 \<Rightarrow> i64 \<Rightarrow> i64" where
  "lower_scale scale d = (if divides scale d then scale else lower_scale (i64_div scale 1000) d)"
  by pat_completeness auto
termination
  by (relation "measure (\<lambda>(scale, d). unat scale)") (auto simp: divides_def i64_div_numeral split: if_splits)

declare lower_scale.simps [simp del]

fun scale_loop :: "i64 \<Rightarrow> i64 \<Rightarrow> i64 list \<Rightarrow> i64" where
  "scale_loop scale t [] = scale"
| "scale_loop scale t (t' # ts) =
     (let scale = lower_scale scale (t' - t) in if scale = 1 then 1 else scale_loop scale t' ts)"

definition tsScale :: "i64 list \<Rightarrow> i64" where
  "tsScale ts = (case ts of [] \<Rightarrow> 1000000000 | t # ts \<Rightarrow> scale_loop 1000000000 t ts)"

subsection \<open>Encoding\<close>

fun write_dods :: "Writer \<Rightarrow> i64 \<Rightarrow> i64 \<Rightarrow> i64 list \<Rightarrow> CodecError + Writer" where
  "write_dods w prevDelta t [] = Inr w"
| "write_dods w prevDelta t (t' # ts) =
     (let tDelta = t' - t; dod = tDelta - prevDelta
      in attempt (writeDoD w dod) (\<lambda>w. write_dods w tDelta t' ts))"

definition writeDeltas :: "Writer \<Rightarrow> i64 list \<Rightarrow> CodecError + Writer" where
  "writeDeltas w ts =
     (case ts of t0 # t1 # rest \<Rightarrow> (let tDelta = t1 - t0 in write_dods (WriteUvarint w tDelta) tDelta t1 rest)
      | _ \<Rightarrow> Inl Panic)"

fun write_scaled_dods :: "Writer \<Rightarrow> i64 \<Rightarrow> i64 \<Rightarrow> i64 \<Rightarrow> i64 list \<Rightarrow> CodecError + Writer" where
  "write_scaled_dods w scale prevDelta t [] = Inr w"
| "write_scaled_dods w scale prevDelta t (t' # ts) =
     (let tDelta = i64_div (t' - t) scale; dod = tDelta - prevDelta
      in attempt (writeDoD w dod) (\<lambda>w. write_scaled_dods w scale tDelta t' ts))"

definition writeScaledDeltas :: "Writer \<Rightarrow> i64 list \<Rightarrow> i64 \<Rightarrow> CodecError + Writer" where
  "writeScaledDeltas w ts scale =
     (case ts of t0 # t1 # rest \<Rightarrow>
        (let tDelta = i64_div (t1 - t0) scale in write_scaled_dods (WriteUvarint w tDelta) scale tDelta t1 rest)
      | _ \<Rightarrow> Inl Panic)"

definition encodeTimestamps :: "bytes \<Rightarrow> i64 list \<Rightarrow> bool \<Rightarrow> CodecError + bytes" where
  "encodeTimestamps dst ts scaled =
     (case writeHeader dst (length ts) of (w, out) \<Rightarrow>
        case ts of
          [] \<Rightarrow> Inr out
        | [t0] \<Rightarrow> Inr (Bytes (PadToByte (WriteVarint w t0)))
        | t0 # _ \<Rightarrow>
            (let w = WriteVarint w t0;
                 scale = (if scaled then tsScale ts else 1);
                 w = (if scaled then WriteUvarint w scale else w)
             in attempt (if scale = 1 then writeDeltas w ts else writeScaledDeltas w ts scale)
                  (\<lambda>w. Inr (Bytes (PadToByte w)))))"

definition EncodeTimestamps :: "bytes \<Rightarrow> i64 list \<Rightarrow> CodecError + bytes" where
  "EncodeTimestamps dst ts = encodeTimestamps dst ts False"

definition EncodeTimestampsScaled :: "bytes \<Rightarrow> i64 list \<Rightarrow> CodecError + bytes" where
  "EncodeTimestampsScaled dst ts = encodeTimestamps dst ts True"

subsection \<open>Decoding\<close>

fun read_dods :: "nat \<Rightarrow> Reader \<Rightarrow> i64 \<Rightarrow> i64 \<Rightarrow> CodecError + i64 list \<times> Reader" where
  "read_dods 0 r tDelta t = Inr ([], r)"
| "read_dods (Suc k) r tDelta t =
     attempt (readDoD r) (\<lambda>(dod, r).
       let tDelta = tDelta + dod; t = t + tDelta
       in attempt (read_dods k r tDelta t) (\<lambda>(ts, r). Inr (t # ts, r)))"

text \<open>\<^verbatim>\<open>readDeltas\<close> fills rows 1 to \<open>rows - 1\<close> of a destination of at least two rows whose row 0 is set.\<close>

definition readDeltas :: "Reader \<Rightarrow> i64 \<Rightarrow> nat \<Rightarrow> CodecError + i64 list \<times> Reader" where
  "readDeltas r t0 rows =
     attempt (ReadUvarint r) (\<lambda>(tDelta, r).
       let t = t0 + tDelta
       in attempt (read_dods (rows - 2) r tDelta t) (\<lambda>(ts, r). Inr (t # ts, r)))"

fun read_scaled_dods :: "nat \<Rightarrow> Reader \<Rightarrow> i64 \<Rightarrow> i64 \<Rightarrow> i64 \<Rightarrow> CodecError + i64 list \<times> Reader" where
  "read_scaled_dods 0 r scale tDelta t = Inr ([], r)"
| "read_scaled_dods (Suc k) r scale tDelta t =
     attempt (readDoD r) (\<lambda>(dod, r).
       let tDelta = tDelta + dod; t = t + tDelta * scale
       in attempt (read_scaled_dods k r scale tDelta t) (\<lambda>(ts, r). Inr (t # ts, r)))"

definition readScaledDeltas :: "Reader \<Rightarrow> i64 \<Rightarrow> nat \<Rightarrow> i64 \<Rightarrow> CodecError + i64 list \<times> Reader" where
  "readScaledDeltas r t0 rows scale =
     attempt (ReadUvarint r) (\<lambda>(tDelta, r).
       let t = t0 + tDelta * scale
       in attempt (read_scaled_dods (rows - 2) r scale tDelta t) (\<lambda>(ts, r). Inr (t # ts, r)))"

definition decode_deltas :: "Reader \<Rightarrow> i64 \<Rightarrow> nat \<Rightarrow> bool \<Rightarrow> CodecError + i64 list \<times> Reader" where
  "decode_deltas r t0 rows scaled =
     attempt
       (if scaled then
          attempt (ReadUvarint r) (\<lambda>(s, r). if \<not> validScale s then Inl errUnexpectedEOF else Inr (s, r))
        else Inr (1, r))
       (\<lambda>(scale, r). if scale = 1 then readDeltas r t0 rows else readScaledDeltas r t0 rows scale)"

definition decodeTimestamps :: "i64 list \<Rightarrow> bytes \<Rightarrow> bool \<Rightarrow> CodecError + i64 list \<times> nat" where
  "decodeTimestamps dst src scaled =
     attempt (readHeader src) (\<lambda>(r, rows, consumed).
       if rows = 0 then Inr (dst, consumed)
       else attempt (boundRows rows (8 * (int (length src) - int consumed))) (\<lambda>_.
         attempt (ReadVarint r) (\<lambda>(t0, r).
           if rows = 1 then Inr ([t0], consumed + ConsumedBytes r)
           else attempt (decode_deltas r t0 (nat rows) scaled)
                  (\<lambda>(ts, r). Inr (t0 # ts, consumed + ConsumedBytes r)))))"

definition DecodeTimestamps :: "i64 list \<Rightarrow> bytes \<Rightarrow> CodecError + i64 list \<times> nat" where
  "DecodeTimestamps dst src = decodeTimestamps dst src False"

definition DecodeTimestampsScaled :: "i64 list \<Rightarrow> bytes \<Rightarrow> CodecError + i64 list \<times> nat" where
  "DecodeTimestampsScaled dst src = decodeTimestamps dst src True"

subsection \<open>Delta-of-delta values read back\<close>

text \<open>The case selector on a bit string: up to \<open>k\<close> ones ended by a zero.\<close>

fun selector :: "nat \<Rightarrow> bool list \<Rightarrow> nat \<Rightarrow> (nat \<times> bool list) option" where
  "selector 0 bs d = Some (d, bs)"
| "selector (Suc k) [] d = None"
| "selector (Suc k) (b # bs) d = (if \<not> b then Some (2 * d, bs) else selector k bs (2 * d + 1))"

definition selects :: "bytes \<Rightarrow> (nat \<times> bool list) option \<Rightarrow> CodecError + nat \<times> Reader \<Rightarrow> bool" where
  "selects s sel res \<longleftrightarrow> (case sel of None \<Rightarrow> res = Inl io_EOF | Some (d, bs) \<Rightarrow> \<exists>r'. res = Inr (d, r') \<and> reads s r' bs)"

lemma ReadBit_cases: "reads s r [] \<Longrightarrow> ReadBit r = Inl io_EOF"
  "reads s r (b # bs) \<Longrightarrow> \<exists>r'. ReadBit r = Inr (b, r') \<and> reads s r' bs"
  using ReadBit_reads[of s r] by fastforce+

lemma prefix_loop_selects: "reads s r bs \<Longrightarrow> selects s (selector k bs d) (prefix_loop k r d)"
proof (induction k bs d arbitrary: r rule: selector.induct)
  case (3 k b bs d)
  obtain r' where r': "ReadBit r = Inr (b, r')" "reads s r' bs" using ReadBit_cases(2)[OF 3(2)] by blast
  then show ?case using 3(1)[OF _ r'(2)] by (cases b) (simp_all add: selects_def)
qed (simp_all add: selects_def ReadBit_cases)

lemma selector_4: "selector 4 (a # b # c # d # bs) 0 =
    (if \<not> a then Some (0, b # c # d # bs) else if \<not> b then Some (2, c # d # bs) else if \<not> c then Some (6, d # bs)
     else if \<not> d then Some (14, bs) else Some (15, bs))"
  by (simp add: numeral_eq_Suc)

lemma peeked_selects:
  assumes r: "reads s r (a # b # c # d # bs)" and v: "4 \<le> r_valid r"
  shows "selects s (selector 4 (a # b # c # d # bs) 0) (readDoDPrefix r)"
proof -
  have "bits_val [a, b, c, d] = of_bool a * 8 + of_bool b * 4 + of_bool c * 2 + of_bool d"
    by (cases a; cases b; cases c; cases d) (simp_all add: bits_val_def)
  then have p: "Peek r 4 = of_bool a * 8 + of_bool b * 4 + of_bool c * 2 + of_bool d" using Peek_reads[OF r v] by simp
  have k: "reads s (Skip r 1) (b # c # d # bs)" "reads s (Skip r 2) (c # d # bs)" "reads s (Skip r 3) (d # bs)"
    "reads s (Skip r 4) bs"
    using Skip_reads[OF r, of 1] Skip_reads[OF r, of 2] Skip_reads[OF r, of 3] Skip_reads[OF r, of 4] v by simp_all
  show ?thesis unfolding selector_4 selects_def readDoDPrefix_def Buffered_def p Let_def using k v
    by (cases a; cases b; cases c; cases d) simp_all
qed

lemma readDoDPrefix_selects:
  assumes r: "reads s r bs"
  shows "selects s (selector 4 bs 0) (readDoDPrefix r)"
proof (cases "4 \<le> r_valid r")
  case True
  moreover from this have "4 \<le> length bs" using reads_length[OF r] by simp
  then obtain a b c d bs' where "bs = a # b # c # d # bs'" by (auto simp: numeral_eq_Suc Suc_le_length_iff)
  ultimately show ?thesis using peeked_selects r by blast
qed (use prefix_loop_selects[OF r] in \<open>simp add: readDoDPrefix_def Buffered_def\<close>)

lemma i64_of_sint: "of_int (sint x) = x" for x :: i64
  by simp

lemma i64_of_uint: "of_int (uint x) = x" for x :: i64
  by simp

lemma signExtend_take:
  assumes "bitRange x n" "2 \<le> n" "n < 64"
  shows "signExtend (take_bit n x) n = x"
proof -
  obtain m where m: "n = Suc m" using assms(2) by (cases n) auto
  have hi: "- (2 ^ m - 1) \<le> sint x" "sint x \<le> 2 ^ m" using assms(1) m by (simp_all add: bitRange_def Let_def)
  have "uint (push_bit m (1 :: u64)) = take_bit 64 (push_bit m 1)" by (subst unsigned_push_bit_eq) simp
  also have "\<dots> = 2 ^ m" using m assms(3) by (simp add: take_bit_int_eq_self)
  finally have one: "uint (push_bit m (1 :: u64)) = 2 ^ m" "push_bit n (1 :: u64) = of_int (2 ^ n)" by simp_all
  have "uint (take_bit n x) = take_bit n (uint x)" by (simp add: unsigned_take_bit_eq)
  also have "\<dots> = take_bit n (sint x)"
    using assms(3) by (simp add: take_bit_signed_take_bit sint_uint)
  also have "\<dots> = sint x mod 2 ^ n" by (simp add: take_bit_eq_mod)
  finally have u: "uint (take_bit n x) = sint x mod 2 ^ n" .
  show ?thesis
  proof (cases "0 \<le> sint x")
    case True
    have "sint x < 2 ^ n" using hi m by (simp add: le_less_trans[of "sint x" "2 ^ m"])
    then have e: "uint (take_bit n x) = sint x" using u True by simp
    then have "take_bit n x = x" by (metis i64_of_uint i64_of_sint)
    moreover have "\<not> push_bit m 1 < take_bit n x" using e one hi by (simp add: word_less_def)
    ultimately show ?thesis using m by (simp add: signExtend_def)
  next
    case False
    have "sint x mod 2 ^ n = (sint x + 2 ^ n) mod 2 ^ n" by simp
    also have "\<dots> = sint x + 2 ^ n" using False hi m by (intro mod_pos_pos_trivial) auto
    finally have e: "uint (take_bit n x) = sint x + 2 ^ n" using u by simp
    then have "take_bit n x = x + of_int (2 ^ n)"
      by (metis i64_of_uint i64_of_sint of_int_add)
    moreover have "push_bit m 1 < take_bit n x" using e one hi False m by (simp add: word_less_def)
    ultimately show ?thesis using m one by (simp add: signExtend_def)
  qed
qed

definition dod_bits :: "i64 \<Rightarrow> bool list" where
  "dod_bits dod =
     (if dod = 0 then [False]
      else if bitRange dod 14 then [True, False] @ msb_bits 14 dod
      else if bitRange dod 17 then [True, True, False] @ msb_bits 17 dod
      else if bitRange dod 20 then [True, True, True, False] @ msb_bits 20 dod
      else [True, True, True, True] @ msb_bits 64 dod)"

lemma WriteBits_twice:
  assumes "writes w bs" "m \<le> 64" "n \<le> 64"
  shows "\<exists>w'. attempt (WriteBits w u (int m)) (\<lambda>w. WriteBits w v (int n)) = Inr w' \<and> writes w' (bs @ msb_bits m u @ msb_bits n v)"
proof -
  obtain w1 where w1: "WriteBits w u (int m) = Inr w1" "writes w1 (bs @ msb_bits m u)"
    using WriteBits_writes[OF assms(1,2)] by blast
  then show ?thesis using WriteBits_writes[OF w1(2) assms(3)] by simp
qed

lemma writeDoD_writes:
  assumes w: "writes w bs"
  shows "\<exists>w'. writeDoD w x = Inr w' \<and> writes w' (bs @ dod_bits x)"
proof -
  have m: "msb_bits n (x AND mask n) = msb_bits n x" for n by (rule msb_eqI) (auto simp: bit_simps dest: bit_imp_le_length)
  have masks: "(0x3fff :: u64) = mask 14" "(0x1ffff :: u64) = mask 17" "(0xfffff :: u64) = mask 20"
    by (simp_all add: mask_eq_exp_minus_1)
  have pre: "msb_bits 2 (2 :: u64) = [True, False]" "msb_bits 3 (6 :: u64) = [True, True, False]"
    "msb_bits 4 (14 :: u64) = [True, True, True, False]" "msb_bits 4 (15 :: u64) = [True, True, True, True]"
    by code_simp+
  note two = WriteBits_twice[OF w]
  show ?thesis
    using two[of 2 14 2 "x AND mask 14"] two[of 3 17 6 "x AND mask 17"] two[of 4 20 14 "x AND mask 20"] two[of 4 64 15 x]
      WriteBit_writes[OF w, of False]
    by (simp add: writeDoD_def dod_bits_def m masks pre)
qed

lemma readDoD_prefix:
  assumes "reads s r bs" "selector 4 bs 0 = Some (d, bs')"
  obtains r' where "readDoDPrefix r = Inr (d, r')" "reads s r' bs'"
  using readDoDPrefix_selects[OF assms(1)] assms(2) unfolding selects_def by auto

lemma readDoD_field:
  assumes "reads s r bs" "selector 4 bs 0 = Some (d, msb_bits n x @ rest)" "n \<le> 64"
  obtains r' r'' where "readDoDPrefix r = Inr (d, r')" "ReadBits r' n = Inr (take_bit n x, r'')" "reads s r'' rest"
proof -
  obtain r' where r': "readDoDPrefix r = Inr (d, r')" "reads s r' (msb_bits n x @ rest)" using readDoD_prefix[OF assms(1,2)] .
  then obtain r'' where "ReadBits r' n = Inr (take_bit n x, r'')" "reads s r'' rest" using ReadBits_enc[OF r'(2) assms(3)] by blast
  then show thesis using that r'(1) by blast
qed

lemma selector_dod:
  "selector 4 (False # bs) 0 = Some (0, bs)" "selector 4 (True # False # bs) 0 = Some (2, bs)"
  "selector 4 (True # True # False # bs) 0 = Some (6, bs)" "selector 4 (True # True # True # False # bs) 0 = Some (14, bs)"
  "selector 4 (True # True # True # True # bs) 0 = Some (15, bs)"
  by (simp_all add: numeral_eq_Suc)

lemma readDoD_signed:
  assumes r: "reads s r bs" and sel: "selector 4 bs 0 = Some (d, msb_bits n x @ rest)"
    and x: "bitRange x n" and d: "(d, n) = (2, 14) \<or> (d, n) = (6, 17) \<or> (d, n) = (14, 20)"
  shows "\<exists>r'. readDoD r = Inr (x, r') \<and> reads s r' rest"
proof -
  have n: "2 \<le> n" "n < 64" "n \<le> 64" using d by auto
  obtain r' r'' where "readDoDPrefix r = Inr (d, r')" "ReadBits r' n = Inr (take_bit n x, r'')" "reads s r'' rest"
    by (rule readDoD_field[OF r sel n(3)])
  then show ?thesis using d signExtend_take[OF x n(1,2)] unfolding readDoD_def by (elim disjE) simp_all
qed

lemma readDoD_enc:
  assumes r: "reads s r (dod_bits x @ rest)"
  shows "\<exists>r'. readDoD r = Inr (x, r') \<and> reads s r' rest"
proof -
  note signed = readDoD_signed[OF r]
  show ?thesis
  proof (cases "x = 0")
    case True
    then have "selector 4 (dod_bits x @ rest) 0 = Some (0, rest)" by (simp add: dod_bits_def selector_dod)
    from readDoD_prefix[OF r this] obtain r' where "readDoDPrefix r = Inr (0, r')" "reads s r' rest" .
    then show ?thesis using True by (simp add: readDoD_def)
  next
    case x: False
    consider "bitRange x 14" | "\<not> bitRange x 14" "bitRange x 17" | "\<not> bitRange x 14" "\<not> bitRange x 17" "bitRange x 20"
      | "\<not> bitRange x 14" "\<not> bitRange x 17" "\<not> bitRange x 20" by blast
    then show ?thesis
    proof cases
      case 4
      then have "selector 4 (dod_bits x @ rest) 0 = Some (15, msb_bits 64 x @ rest)"
        using x by (simp add: dod_bits_def selector_dod)
      from readDoD_field[OF r this] obtain r' r'' where
        "readDoDPrefix r = Inr (15, r')" "ReadBits r' 64 = Inr (take_bit 64 x, r'')" "reads s r'' rest" by auto
      then show ?thesis by (simp add: readDoD_def take_bit_word_eq_self)
    qed (use x signed[of 2 14 x rest] signed[of 6 17 x rest] signed[of 14 20 x rest] in
        \<open>simp_all add: dod_bits_def selector_dod\<close>)
  qed
qed

interpretation dod: bit_codec writeDoD readDoD dod_bits "\<lambda>_. True"
proof
  show "dod_bits x \<noteq> []" for x by (simp add: dod_bits_def)
qed (simp_all add: writeDoD_writes readDoD_enc)

subsection \<open>Scaled deltas read back\<close>

lemma i64_div_rem: "i64_div d s * s + i64_rem d s = d"
proof -
  have "i64_div d s * s + i64_rem d s = of_int (sint d sdiv sint s * sint s + sint d smod sint s)"
    by (simp add: i64_div_def i64_rem_def del: sdiv_mult_smod_eq)
  then show ?thesis by (simp only: sdiv_mult_smod_eq i64_of_sint)
qed

lemma i64_div_1 [simp]: "i64_div d 1 = d"
  by (simp add: i64_div_def)

lemma divides_exact: "validScale s \<Longrightarrow> divides s d \<Longrightarrow> i64_div d s * s = d"
  using i64_div_rem[of d s] by (auto simp: divides_def validScale_def)

fun deltas :: "i64 \<Rightarrow> i64 list \<Rightarrow> i64 list" where
  "deltas t [] = []"
| "deltas t (t' # ts) = (t' - t) # deltas t' ts"

fun dods_bits :: "i64 \<Rightarrow> i64 \<Rightarrow> i64 \<Rightarrow> i64 list \<Rightarrow> bool list" where
  "dods_bits scale prevDelta t [] = []"
| "dods_bits scale prevDelta t (t' # ts) =
     dod_bits (i64_div (t' - t) scale - prevDelta) @ dods_bits scale (i64_div (t' - t) scale) t' ts"

lemma dods_bits_length: "length ts \<le> length (dods_bits scale p t ts)"
proof (induction ts arbitrary: p t)
  case (Cons t' ts)
  have "0 < length (dod_bits (i64_div (t' - t) scale - p))" using dod.enc_pos by blast
  then show ?case using Cons.IH[of "i64_div (t' - t) scale" t']
    by (simp del: length_greater_0_conv)
qed simp

lemma write_scaled_dods_writes:
  "writes w bs \<Longrightarrow> \<exists>w'. write_scaled_dods w scale p t ts = Inr w' \<and> writes w' (bs @ dods_bits scale p t ts)"
proof (induction ts arbitrary: w bs p t)
  case (Cons t' ts)
  let ?d = "i64_div (t' - t) scale"
  obtain w' where w': "writeDoD w (?d - p) = Inr w'" "writes w' (bs @ dod_bits (?d - p))"
    using writeDoD_writes[OF Cons.prems] by blast
  then show ?case using Cons.IH[OF w'(2), of ?d t'] by (simp add: Let_def)
qed simp

lemma read_scaled_dods_enc:
  "reads s r (dods_bits scale p t ts @ rest) \<Longrightarrow> validScale scale \<Longrightarrow> \<forall>d \<in> set (deltas t ts). divides scale d \<Longrightarrow>
   \<exists>r'. read_scaled_dods (length ts) r scale p t = Inr (ts, r') \<and> reads s r' rest"
proof (induction ts arbitrary: r p t)
  case (Cons t' ts)
  let ?d = "i64_div (t' - t) scale"
  obtain r' where r': "readDoD r = Inr (?d - p, r')" "reads s r' (dods_bits scale ?d t' ts @ rest)"
    using readDoD_enc[of s r "?d - p"] Cons.prems(1) by auto
  moreover have "t + ?d * scale = t'" using divides_exact[of scale "t' - t"] Cons.prems by simp
  ultimately show ?case using Cons.IH[OF r'(2) Cons.prems(2)] Cons.prems(3) by (auto simp: Let_def)
qed simp

text \<open>The unscaled loops are the scaled ones at scale one.\<close>

lemma write_dods_scaled: "write_dods w p t ts = write_scaled_dods w 1 p t ts"
  by (induction ts arbitrary: w p t) (simp_all add: Let_def)

lemma writeDeltas_scaled: "writeDeltas w ts = writeScaledDeltas w ts 1"
  by (simp add: writeDeltas_def writeScaledDeltas_def write_dods_scaled split: list.splits)

lemma read_dods_scaled: "read_dods k r d t = read_scaled_dods k r 1 d t"
  by (induction k arbitrary: r d t) (simp_all add: Let_def)

lemma readDeltas_scaled: "readDeltas r t0 n = readScaledDeltas r t0 n 1"
  by (simp add: readDeltas_def readScaledDeltas_def read_dods_scaled)

subsection \<open>The scale of a column\<close>

lemma small_dvd: "\<bar>k\<bar> < N \<Longrightarrow> N dvd k \<longleftrightarrow> k = 0" for k N :: int
  using zdvd_not_zless[of "\<bar>k\<bar>" N] by auto

lemma rem_zero:
  assumes "0 < c" "c < 2 ^ 63"
  shows "(word_of_int (a smod c) :: i64) = 0 \<longleftrightarrow> c dvd a"
proof -
  have "a smod c \<in> {- \<bar>c\<bar> + 1..\<bar>c\<bar> - 1}" using assms by (intro smod_int_range) simp
  then have r: "\<bar>a smod c\<bar> < 2 ^ 64" using assms by auto
  then have "2 ^ 64 dvd a smod c \<longleftrightarrow> a smod c = 0" by (rule small_dvd)
  moreover have "a smod c = 0 \<longleftrightarrow> c dvd a" 
    by (simp add: signed_modulo_int_def mod_eq_0_iff_dvd sgn_0_0) auto
  ultimately show ?thesis by (simp add: word_of_int_eq_0_iff)
qed

lemma divides_dvd: "validScale s \<Longrightarrow> divides s d \<longleftrightarrow> sint s dvd sint d"
  using rem_zero[of 1000000000 "sint d"] rem_zero[of 1000000 "sint d"] rem_zero[of 1000 "sint d"]
  by (auto simp: validScale_def divides_def i64_rem_def)

text \<open>The scales form a chain under divisibility, so the loop finds the largest that divides everything.\<close>

definition scales_down :: "i64 \<Rightarrow> i64 list \<Rightarrow> i64 \<Rightarrow> bool" where
  "scales_down scale ds s \<longleftrightarrow> validScale s \<and> sint s dvd sint scale \<and> (\<forall>d \<in> set ds. divides s d)"

definition best_scale :: "i64 \<Rightarrow> i64 list \<Rightarrow> i64 \<Rightarrow> bool" where
  "best_scale scale ds s \<longleftrightarrow> scales_down scale ds s \<and> (\<forall>s'. scales_down scale ds s' \<longrightarrow> sint s' dvd sint s)"

lemma lower_scale_best: "validScale scale \<Longrightarrow> best_scale scale [d] (lower_scale scale d)"
proof -
  assume s: "validScale scale"
  have one: "lower_scale 1 d = 1" by (simp add: lower_scale.simps divides_def)
  have k: "lower_scale 1000 d = (if divides 1000 d then 1000 else 1)"
    using one by (simp add: lower_scale.simps[of 1000] i64_div_numeral)
  have m: "lower_scale 1000000 d = (if divides 1000000 d then 1000000 else if divides 1000 d then 1000 else 1)"
    using k by (simp add: lower_scale.simps[of 1000000] i64_div_numeral)
  have g: "lower_scale 1000000000 d = (if divides 1000000000 d then 1000000000
      else if divides 1000000 d then 1000000 else if divides 1000 d then 1000 else 1)"
    using m by (simp add: lower_scale.simps[of 1000000000] i64_div_numeral)
  have v: "validScale 1" "validScale 1000" "validScale 1000000" "validScale 1000000000" by (simp_all add: validScale_def)
  have "divides 1 d" by (simp add: divides_def)
  then show ?thesis using s one k m g v unfolding best_scale_def scales_down_def
    by (auto simp: validScale_def split: if_splits)
qed

lemma scale_loop_best: "validScale scale \<Longrightarrow> best_scale scale (deltas t ts) (scale_loop scale t ts)"
proof (induction scale t ts rule: scale_loop.induct)
  case (1 scale t)
  then show ?case by (simp add: best_scale_def scales_down_def)
next
  case (2 scale t t' ts)
  let ?s = "lower_scale scale (t' - t)"
  have b: "best_scale scale [t' - t] ?s" by (rule lower_scale_best[OF 2(2)])
  then have v: "validScale ?s" "sint ?s dvd sint scale" "divides ?s (t' - t)" by (simp_all add: best_scale_def scales_down_def)
  define r where "r = scale_loop scale t (t' # ts)"
  have r: "best_scale ?s (deltas t' ts) r"
  proof (cases "?s = 1")
    case True
    then show ?thesis using v by (auto simp: r_def best_scale_def scales_down_def divides_def)
  next
    case False
    then show ?thesis using 2(1)[OF refl False v(1)] by (simp add: r_def Let_def)
  qed
  have "divides r (t' - t)" using r v by (auto simp: best_scale_def scales_down_def divides_dvd intro: dvd_trans)
  then show ?case unfolding r_def[symmetric] using r v b
    by (auto simp: best_scale_def scales_down_def intro: dvd_trans)
qed

lemma tsScale_best: "best_scale 1000000000 (deltas t ts) (tsScale (t # ts))"
  unfolding tsScale_def by (simp add: scale_loop_best validScale_def)

subsection \<open>Columns of timestamps\<close>

fun ts_bits :: "i64 list \<Rightarrow> bool \<Rightarrow> bool list" where
  "ts_bits [] scaled = []"
| "ts_bits [t0] scaled = stream_bits (AppendVarint [] t0)"
| "ts_bits (t0 # t1 # ts) scaled =
     (let scale = (if scaled then tsScale (t0 # t1 # ts) else 1); d = i64_div (t1 - t0) scale
      in stream_bits (AppendVarint [] t0) @ (if scaled then stream_bits (AppendUvarint [] scale) else []) @
         stream_bits (AppendUvarint [] d) @ dods_bits scale d t1 ts)"

lemma ts_bits_length: "length ts \<le> length (ts_bits ts scaled)"
proof -
  have v: "1 \<le> length (AppendVarint [] x)" "1 \<le> length (AppendUvarint [] x)" for x
    using zv.enc_pos[of x] uv.enc_pos[of x] by (simp_all add: Suc_le_eq)
  have "length ts + 2 \<le> 8 * length (AppendVarint [] t0) + 8 * length (AppendUvarint [] d) + length (dods_bits scale d t1 ts)"
    for t0 d scale t1 ts
    using v(1)[of t0] v(2)[of d] dods_bits_length[of ts scale d t1] by linarith
  note two = this
  show ?thesis
  proof (cases "(ts, scaled)" rule: ts_bits.cases)
    case (3 t0 t1 ts' sc)
    then show ?thesis using two[of ts' t0 "i64_div (t1 - t0) (if scaled then tsScale ts else 1)" "if scaled then tsScale ts else 1" t1]
      by (cases scaled) (simp_all add: Let_def)
  qed (use v in simp_all)
qed

lemma writeScaledDeltas_writes:
  assumes "writes w bs"
  shows "\<exists>w'. writeScaledDeltas w (t0 # t1 # ts) scale = Inr w' \<and>
    writes w' (bs @ stream_bits (AppendUvarint [] (i64_div (t1 - t0) scale)) @ dods_bits scale (i64_div (t1 - t0) scale) t1 ts)"
  using write_scaled_dods_writes[OF WriteUvarint_writes[OF assms], of "i64_div (t1 - t0) scale" scale "i64_div (t1 - t0) scale" t1 ts]
  by (simp add: writeScaledDeltas_def Let_def)

lemma encodeTimestamps_bytes:
  "\<exists>p pad. encodeTimestamps dst ts scaled = Inr (dst @ AppendUvarint [] (of_nat (length ts)) @ p) \<and>
     stream_bits p = ts_bits ts scaled @ replicate pad False \<and> pad < 8"
proof -
  let ?n = "of_nat (length ts) :: u64" and ?w = "fst (writeHeader dst (length ts))"
  have h: "writes ?w (stream_bits dst @ stream_bits (AppendUvarint [] ?n))" by (rule writeHeader_writes)
  show ?thesis
  proof (cases "(ts, scaled)" rule: ts_bits.cases)
    case (1 sc)
    then show ?thesis using writeHeader_bytes[of dst 0] by (auto simp: encodeTimestamps_def split: prod.splits)
  next
    case (2 t0 sc)
    have "writes (WriteVarint ?w t0) (stream_bits dst @ stream_bits (AppendUvarint [] ?n) @ stream_bits (AppendVarint [] t0))"
      using WriteVarint_writes[OF h] by simp
    from column_bytes[OF this] 2 show ?thesis by (auto simp: encodeTimestamps_def split: prod.splits)
  next
    case (3 t0 t1 ts' sc)
    define scale where "scale = (if scaled then tsScale ts else 1)"
    define w1 where "w1 = (if scaled then WriteUvarint (WriteVarint ?w t0) scale else WriteVarint ?w t0)"
    have "writes w1 (stream_bits dst @ stream_bits (AppendUvarint [] ?n) @ stream_bits (AppendVarint [] t0) @
        (if scaled then stream_bits (AppendUvarint [] scale) else []))"
      using WriteVarint_writes[OF h, of t0] WriteUvarint_writes[OF WriteVarint_writes[OF h, of t0], of scale] by (simp add: w1_def)
    from writeScaledDeltas_writes[OF this, of t0 t1 ts' scale] obtain w' where
      w': "writeScaledDeltas w1 ts scale = Inr w'" "writes w' (stream_bits dst @ stream_bits (AppendUvarint [] ?n) @ ts_bits ts scaled)"
      using 3 by (auto simp: scale_def Let_def)
    have "encodeTimestamps dst ts scaled = attempt (writeScaledDeltas w1 ts scale) (\<lambda>w. Inr (Bytes (PadToByte w)))"
      using 3 by (cases "writeHeader dst (length ts)"; cases scaled)
        (simp_all add: encodeTimestamps_def scale_def w1_def Let_def writeDeltas_scaled)
    then have "encodeTimestamps dst ts scaled = Inr (Bytes (PadToByte w'))" using w'(1) by simp
    then show ?thesis using column_bytes[OF w'(2)] by auto
  qed
qed

lemma decode_deltas_enc:
  assumes r: "reads s r (drop (8 * length (AppendVarint [] t0)) (ts_bits (t0 # t1 # ts) scaled) @ rest)"
  shows "\<exists>r'. decode_deltas r t0 (length ts + 2) scaled = Inr (t1 # ts, r') \<and> reads s r' rest"
proof -
  define scale where "scale = (if scaled then tsScale (t0 # t1 # ts) else 1)"
  let ?d = "i64_div (t1 - t0) scale"
  have b: "validScale scale" "\<forall>d \<in> set (deltas t0 (t1 # ts)). divides scale d"
    using tsScale_best[of t0 "t1 # ts"] by (auto simp: scale_def best_scale_def scales_down_def validScale_def divides_def)
  obtain r0 where r0: "(if scaled then attempt (ReadUvarint r) (\<lambda>(s, r). if \<not> validScale s then Inl errUnexpectedEOF else Inr (s, r))
      else Inr (1, r)) = Inr (scale, r0)" "reads s r0 (stream_bits (AppendUvarint [] ?d) @ dods_bits scale ?d t1 ts @ rest)"
  proof (cases scaled)
    case True
    then have "reads s r (stream_bits (AppendUvarint [] scale) @ stream_bits (AppendUvarint [] ?d) @ dods_bits scale ?d t1 ts @ rest)"
      using r by (simp add: scale_def Let_def)
    from uvarint.get_ok[OF this TrueI] show thesis using that b(1) True by auto
  next
    case False
    then show thesis using that r by (simp add: scale_def Let_def)
  qed
  from uvarint.get_ok[OF r0(2) TrueI] obtain r1 where
    r1: "ReadUvarint r0 = Inr (?d, r1)" "reads s r1 (dods_bits scale ?d t1 ts @ rest)" by blast
  have "t0 + ?d * scale = t1" using divides_exact[OF b(1), of "t1 - t0"] b(2) by simp
  moreover obtain r2 where "read_scaled_dods (length ts) r1 scale ?d t1 = Inr (ts, r2)" "reads s r2 rest"
    using read_scaled_dods_enc[OF r1(2) b(1)] b(2) by auto
  ultimately have "readScaledDeltas r0 t0 (length ts + 2) scale = Inr (t1 # ts, r2) \<and> reads s r2 rest"
    using r1(1) by (simp add: readScaledDeltas_def Let_def)
  then show ?thesis using r0(1) by (auto simp: decode_deltas_def readDeltas_scaled)
qed

lemma decodeTimestamps_enc:
  assumes p: "stream_bits p = ts_bits ts scaled @ replicate pad False" "pad < 8" and n: "length ts < 2 ^ 63"
  shows "decodeTimestamps dst (AppendUvarint [] (of_nat (length ts)) @ p @ rest) scaled =
    Inr (if ts = [] then dst else ts, length (AppendUvarint [] (of_nat (length ts) :: u64)) + length p)"
proof -
  let ?h = "AppendUvarint [] (of_nat (length ts) :: u64)" and ?z = "replicate pad False @ stream_bits rest"
  note hd = readHeader_enc[OF n, of "p @ rest"]
  have start: "reads (p @ rest) (NewReader (p @ rest)) (ts_bits ts scaled @ ?z)" using column_reads[OF p(1)] .
  have len: "8 * length p = length (ts_bits ts scaled) + pad" using arg_cong[OF p(1), of length] by simp
  have "int (length ts) \<le> 8 * (int (length (?h @ p @ rest)) - int (length ?h))"
    using ts_bits_length[of ts scaled] len by simp
  note bound = boundRows_ok[OF this]
  note used = column_consumed[OF _ p(2)]
  show ?thesis
  proof (cases "(ts, scaled)" rule: ts_bits.cases)
    case (1 sc)
    then have "p = []" using len p(2) by (cases p) simp_all
    then show ?thesis using hd 1 by (simp add: decodeTimestamps_def)
  next
    case (2 t0 sc)
    from varint.get_ok[of _ _ t0 ?z, OF _ TrueI] start 2 obtain r' where
      "ReadVarint (NewReader (p @ rest)) = Inr (t0, r')" "reads (p @ rest) r' ?z" by fastforce
    then show ?thesis using hd bound used 2 by (simp add: decodeTimestamps_def)
  next
    case (3 t0 t1 ts' sc)
    let ?tail = "drop (8 * length (AppendVarint [] t0)) (ts_bits ts scaled) @ ?z"
    have "ts_bits ts scaled @ ?z = stream_bits (AppendVarint [] t0) @ ?tail" using 3 by (simp add: Let_def)
    from varint.get_ok[OF start[unfolded this] TrueI] obtain r1 where
      r1: "ReadVarint (NewReader (p @ rest)) = Inr (t0, r1)" "reads (p @ rest) r1 ?tail" by blast
    from decode_deltas_enc[of _ r1 t0 t1 ts' scaled ?z] r1(2) 3 obtain r2 where
      r2: "decode_deltas r1 t0 (length ts' + 2) scaled = Inr (t1 # ts', r2)" "reads (p @ rest) r2 ?z" by auto
    have "nat (2 + int (length ts')) = length ts' + 2" by simp
    then show ?thesis using hd bound used[OF r2(2)] 3 r1(1) r2(1) by (simp add: decodeTimestamps_def)
  qed
qed

text \<open>C6. A timestamp column reads back exactly: encoding appends to its destination without a panic, and
  decoding what was appended, whatever follows it, returns the timestamps and the number of bytes they
  took. It holds for every sequence of 64-bit timestamps, ordered or not, with deltas that overflow,
  scaled and unscaled. The empty column leaves the decoder's destination as it was.
\<close>

theorem timestamps_round_trip:
  assumes "length ts < 2 ^ 63"
  shows "\<exists>e. encodeTimestamps pre ts scaled = Inr (pre @ e) \<and>
    decodeTimestamps dst (e @ rest) scaled = Inr (if ts = [] then dst else ts, length e)"
proof -
  obtain p pad where p: "encodeTimestamps pre ts scaled = Inr (pre @ AppendUvarint [] (of_nat (length ts)) @ p)"
    "stream_bits p = ts_bits ts scaled @ replicate pad False" "pad < 8"
    using encodeTimestamps_bytes by blast
  then show ?thesis using decodeTimestamps_enc[OF p(2,3) assms] by auto
qed

text \<open>Timestamps at the ends of the range, whose deltas wrap, at one-second scale.\<close>

theorem timestamps_round_trip_witness:
  "\<exists>e. encodeTimestamps [7] [0x7fffffffffffffff, 0x800000003b9ac9ff, 0x8000000077359400 - 1] True = Inr ([7] @ e) \<and>
    decodeTimestamps [] (e @ [1, 2]) True = Inr ([0x7fffffffffffffff, 0x800000003b9ac9ff, 0x8000000077359400 - 1], length e)"
  using timestamps_round_trip[of "[0x7fffffffffffffff, 0x800000003b9ac9ff, 0x8000000077359400 - 1]" "[7]" True "[]" "[1, 2]"]
  by simp

subsection \<open>Corrupt columns\<close>

lemma selector_length: "selector k bs d = Some (x, bs') \<Longrightarrow> length bs' \<le> length bs"
  by (induction k bs d rule: selector.induct) (auto split: if_splits)

lemma sane_readDoD: "sane s readDoD"
proof -
  have "sane s readDoDPrefix"
  proof (rule saneI)
    fix r bs assume "reads s r bs"
    from readDoDPrefix_selects[OF this]
    show "(\<exists>x r' bs'. readDoDPrefix r = Inr (x, r') \<and> reads s r' bs' \<and> length bs' \<le> length bs) \<or>
        (\<exists>e. readDoDPrefix r = Inl e \<and> e \<noteq> Panic)"
      unfolding selects_def by (auto split: option.splits dest: selector_length)
  qed
  then show ?thesis unfolding readDoD_def[abs_def] by (intro sane_intros) simp_all
qed

lemma sane_read_scaled_dods: "sane s (\<lambda>r. read_scaled_dods k r scale d t)"
proof (induction k arbitrary: d t)
  case (Suc k)
  show ?case unfolding read_scaled_dods.simps Let_def by (intro sane_intros sane_readDoD Suc)
qed (simp add: sane_Inr)

lemma sane_readScaledDeltas: "sane s (\<lambda>r. readScaledDeltas r t0 n scale)"
  unfolding readScaledDeltas_def Let_def by (intro sane_intros sane_read_scaled_dods)

lemma sane_decode_deltas: "sane s (\<lambda>r. decode_deltas r t0 n scaled)"
  unfolding decode_deltas_def readDeltas_scaled by (intro sane_intros sane_readScaledDeltas) simp_all

lemma decodeTimestamps_no_panic: "decodeTimestamps dst src scaled \<noteq> Inl Panic"
proof (cases "readHeader src")
  case (Inr y)
  then obtain r rows consumed where h: "readHeader src = Inr (r, rows, consumed)" by (cases y) auto
  then have r: "reads (drop consumed src) r (stream_bits (drop consumed src))"
    using NewReader_reads readHeader_reader by metis
  show ?thesis
  proof (cases "ReadVarint r")
    case (Inl e)
    then show ?thesis using saneD(1)[OF sane_ReadVarint r] h by (auto simp: decodeTimestamps_def boundRows_def)
  next
    case (Inr z)
    then obtain t0 r1 where z: "ReadVarint r = Inr (t0, r1)" by (cases z) simp
    then obtain bs where "reads (drop consumed src) r1 bs" using saneD(2)[OF sane_ReadVarint r] by blast
    from saneD(1)[OF sane_decode_deltas this, of t0 "nat rows" scaled] h z show ?thesis
      by (cases "decode_deltas r1 t0 (nat rows) scaled") (auto simp: decodeTimestamps_def boundRows_def split: if_splits)
  qed
qed (use readHeader_no_panic(2)[of src] in \<open>auto simp: decodeTimestamps_def\<close>)

end
