(* ===== verification/Ts_Cursors.thy ===== *)
theory Ts_Cursors
  imports Timestamps
begin

text \<open>
  Adaptive timestamp chunks (\<^verbatim>\<open>src/encoding/chunk/timestamp_adaptive.go\<close>) and the forward cursors over
  the timestamp codecs (\<^verbatim>\<open>decoder.go\<close>), with the theorem that a cursor yields what decoding the column at
  once returns. A Go struct that embeds another is a record extension.
\<close>

subsection \<open>Cursors over delta-of-delta columns\<close>

record TsDecoder =
  td_r :: Reader
  td_rows :: int
  td_i :: int
  td_prev :: i64
  td_dod :: i64

definition NewTsDecoder :: "bytes \<Rightarrow> CodecError + TsDecoder" where
  "NewTsDecoder src =
     attempt (readHeader src) (\<lambda>(r, rows, consumed).
       if rows = 0 then Inr \<lparr>td_r = r, td_rows = 0, td_i = 0, td_prev = 0, td_dod = 0\<rparr>
       else attempt (boundRows rows (8 * (int (length src) - int consumed))) (\<lambda>_.
         Inr \<lparr>td_r = r, td_rows = rows, td_i = 0, td_prev = 0, td_dod = 0\<rparr>))"

definition TsDecoder_Next :: "'a TsDecoder_scheme \<Rightarrow> CodecError + i64 \<times> 'a TsDecoder_scheme" where
  "TsDecoder_Next d =
     (if td_i d \<ge> td_rows d then Inl errEOF
      else attempt
        (if td_i d = 0 then attempt (ReadVarint (td_r d)) (\<lambda>(t0, r). Inr (t0, d\<lparr>td_r := r\<rparr>))
         else if td_i d = 1 then
           attempt (ReadUvarint (td_r d)) (\<lambda>(td, r). Inr (td_prev d + td, d\<lparr>td_r := r, td_dod := td\<rparr>))
         else attempt (readDoD (td_r d)) (\<lambda>(delta, r).
           let dod = td_dod d + delta in Inr (td_prev d + dod, d\<lparr>td_r := r, td_dod := dod\<rparr>)))
        (\<lambda>(v, d). Inr (v, d\<lparr>td_prev := v, td_i := td_i d + 1\<rparr>)))"

record scaledTsDecoder = TsDecoder +
  sd_t0 :: i64
  sd_scale :: i64

definition new_scaledTsDecoder :: "TsDecoder \<Rightarrow> scaledTsDecoder" where
  "new_scaledTsDecoder d = TsDecoder.extend d (scaledTsDecoder.fields 0 0)"

definition scaledTsDecoder_Next :: "scaledTsDecoder \<Rightarrow> CodecError + i64 \<times> scaledTsDecoder" where
  "scaledTsDecoder_Next d =
     attempt
       (if td_i d = 1 \<and> td_rows d > 1 then
          attempt (ReadUvarint (td_r d)) (\<lambda>(s, r).
            if \<not> validScale s then Inl errUnexpectedEOF else Inr (d\<lparr>td_r := r, sd_scale := s\<rparr>))
        else Inr d)
       (\<lambda>d. attempt (TsDecoder_Next d) (\<lambda>(v, d).
          let d = (if td_i d = 1 then d\<lparr>sd_t0 := v\<rparr> else d)
          in Inr (sd_t0 d + (v - sd_t0 d) * sd_scale d, d)))"

record constTsCursor =
  cc_n :: int
  cc_i :: int
  cc_value :: i64

definition NewConstTsCursor :: "int \<Rightarrow> i64 \<Rightarrow> constTsCursor" where
  "NewConstTsCursor n v = \<lparr>cc_n = n, cc_i = 0, cc_value = v\<rparr>"

definition constTsCursor_Next :: "constTsCursor \<Rightarrow> CodecError + i64 \<times> constTsCursor" where
  "constTsCursor_Next d =
     (if cc_i d \<ge> cc_n d then Inl errEOF else Inr (cc_value d, d\<lparr>cc_i := cc_i d + 1\<rparr>))"

subsection \<open>Adaptive chunks\<close>

definition MaxFloatGroupRows :: nat where "MaxFloatGroupRows = 2 ^ 20"

fun regular :: "i64 \<Rightarrow> i64 \<Rightarrow> i64 list \<Rightarrow> bool" where
  "regular step t [] = True"
| "regular step t (t' # ts) = (if t' - t \<noteq> step then False else regular step t' ts)"

definition EncodeTimestampsAdaptive :: "bytes \<Rightarrow> i64 list \<Rightarrow> CodecError + bytes" where
  "EncodeTimestampsAdaptive dst vals =
     (if length vals > MaxFloatGroupRows then Inl (errMessage ''adaptive timestamps: too many rows'')
      else
        (let step = (case vals of v0 # v1 # _ \<Rightarrow> v1 - v0 | _ \<Rightarrow> 0) in
         if \<not> (case vals of v0 # v1 # rest \<Rightarrow> regular step v1 rest | _ \<Rightarrow> True) then
           EncodeTimestampsScaled (dst @ [1]) vals
         else
           (let dst = AppendUvarint (dst @ [0]) (of_nat (length vals))
            in Inr (case vals of [] \<Rightarrow> dst | v0 # _ \<Rightarrow> AppendVarint (AppendVarint dst v0) step))))"

definition adaptiveTimestampHeader :: "bytes \<Rightarrow> CodecError + int \<times> i64 \<times> i64" where
  "adaptiveTimestampHeader src =
     (case Uvarint src of (cnt, n) \<Rightarrow>
        if n \<le> 0 \<or> unat cnt > MaxFloatGroupRows then Inl (errMessage ''adaptive timestamps: invalid rows'')
        else
          (let src = drop (nat n) src in
           if cnt = 0 then
             (if src \<noteq> [] then Inl (errMessage ''adaptive timestamps: trailing bytes'') else Inr (0, 0, 0))
           else
             (case Varint src of (first, n) \<Rightarrow>
                if n \<le> 0 then Inl (errMessage ''adaptive timestamps: invalid first value'')
                else
                  (let src = drop (nat n) src in
                   case Varint src of (step, n) \<Rightarrow>
                     if n \<le> 0 \<or> n \<noteq> int (length src) then Inl (errMessage ''adaptive timestamps: invalid stride'')
                     else Inr (sint cnt, first, step)))))"

fun cadence :: "nat \<Rightarrow> i64 \<Rightarrow> i64 \<Rightarrow> i64 list" where
  "cadence 0 first step = []"
| "cadence (Suc k) first step = first # cadence k (first + step) step"

definition DecodeTimestampsAdaptive :: "i64 list \<Rightarrow> bytes \<Rightarrow> CodecError + i64 list \<times> nat" where
  "DecodeTimestampsAdaptive dst src =
     (case src of
        [] \<Rightarrow> Inl (errMessage ''adaptive timestamps: missing mode'')
      | mode # body \<Rightarrow>
          if mode = 0 then
            attempt (adaptiveTimestampHeader body) (\<lambda>(rows, first, step).
              Inr (cadence (nat rows) first step, length src))
          else if mode = 1 then
            (case Uvarint body of (rows, n) \<Rightarrow>
               if n \<le> 0 \<or> rows = 0 \<or> unat rows > MaxFloatGroupRows then
                 Inl (errMessage ''adaptive timestamps: invalid fallback rows'')
               else attempt (DecodeTimestampsScaled dst body) (\<lambda>(out, used).
                 if used \<noteq> length src - 1 then Inl (errMessage ''adaptive timestamps: trailing fallback bytes'')
                 else Inr (out, used + 1)))
          else Inl (errMessage ''adaptive timestamps: unsupported mode''))"

definition DecodeTimestampsAdaptiveRows :: "i64 list \<Rightarrow> bytes \<Rightarrow> int \<Rightarrow> CodecError + i64 list \<times> nat" where
  "DecodeTimestampsAdaptiveRows dst src rows =
     (if length src < 2 then Inl (errMessage ''adaptive timestamps: missing header'')
      else
        (case Uvarint (tl src) of (n, k) \<Rightarrow>
           if k \<le> 0 \<or> n \<noteq> word_of_int rows then Inl (errMessage ''adaptive timestamps: inconsistent rows'')
           else DecodeTimestampsAdaptive dst src))"

record adaptiveTimestampCursor =
  ac_rows :: int
  ac_pos :: int
  ac_next :: i64
  ac_step :: i64
  ac_fallback :: "scaledTsDecoder option"
  ac_fallbackBytes :: int
  ac_fallbackHeader :: int
  ac_failed :: "CodecError option"

definition NewAdaptiveTimestampCursor :: "bytes \<Rightarrow> CodecError + adaptiveTimestampCursor" where
  "NewAdaptiveTimestampCursor src =
     (case src of
        [] \<Rightarrow> Inl (errMessage ''adaptive timestamps: missing mode'')
      | mode # body \<Rightarrow>
          if mode = 0 then
            attempt (adaptiveTimestampHeader body) (\<lambda>(rows, first, step).
              Inr \<lparr>ac_rows = rows, ac_pos = 0, ac_next = first, ac_step = step, ac_fallback = None,
                   ac_fallbackBytes = 0, ac_fallbackHeader = 0, ac_failed = None\<rparr>)
          else if mode = 1 then
            (case Uvarint body of (rows, n) \<Rightarrow>
               if n \<le> 0 \<or> rows = 0 \<or> unat rows > MaxFloatGroupRows then
                 Inl (errMessage ''adaptive timestamps: invalid fallback rows'')
               else attempt (NewTsDecoder body) (\<lambda>decoded.
                 Inr \<lparr>ac_rows = sint rows, ac_pos = 0, ac_next = 0, ac_step = 0,
                      ac_fallback = Some (new_scaledTsDecoder decoded),
                      ac_fallbackBytes = int (length src) - 1, ac_fallbackHeader = n, ac_failed = None\<rparr>))
          else Inl (errMessage ''adaptive timestamps: unsupported mode''))"

text \<open>
  \<^verbatim>\<open>Next\<close> of the adaptive cursor returns its cursor also when it fails, because it records the failure. A
  fallback decoder that failed is never asked again, so what it read before failing is left out.
\<close>

definition adaptive_Next :: "adaptiveTimestampCursor \<Rightarrow> (CodecError + i64) \<times> adaptiveTimestampCursor" where
  "adaptive_Next c =
     (case ac_failed c of
        Some e \<Rightarrow> (Inl e, c)
      | None \<Rightarrow>
          if ac_pos c \<ge> ac_rows c then (Inl errEOF, c)
          else
            (case ac_fallback c of
               Some d \<Rightarrow>
                 (case scaledTsDecoder_Next d of
                    Inl e \<Rightarrow> (Inl e, c\<lparr>ac_failed := Some e\<rparr>)
                  | Inr (v, d) \<Rightarrow>
                      (let c = c\<lparr>ac_fallback := Some d, ac_pos := ac_pos c + 1\<rparr> in
                       if ac_pos c = ac_rows c \<and>
                          ac_fallbackHeader c + int (ConsumedBytes (td_r d)) \<noteq> ac_fallbackBytes c then
                         (let e = errMessage ''adaptive timestamps: trailing fallback bytes''
                          in (Inl e, c\<lparr>ac_failed := Some e\<rparr>))
                       else (Inr v, c)))
             | None \<Rightarrow> (Inr (ac_next c), c\<lparr>ac_next := ac_next c + ac_step c, ac_pos := ac_pos c + 1\<rparr>)))"

subsection \<open>The cursor of a codec\<close>

datatype TsCursor =
    DoDCursor TsDecoder
  | ScaledCursor scaledTsDecoder
  | AdaptiveCursor adaptiveTimestampCursor
  | ConstCursor constTsCursor

definition NewTsCursor :: "Codec \<Rightarrow> bytes \<Rightarrow> CodecError + TsCursor" where
  "NewTsCursor c src =
     (case c of
        CodecDoD \<Rightarrow> attempt (NewTsDecoder src) (\<lambda>d. Inr (DoDCursor d))
      | CodecDoDScaled \<Rightarrow> attempt (NewTsDecoder src) (\<lambda>d. Inr (ScaledCursor (new_scaledTsDecoder d)))
      | CodecAdaptiveTimestamps \<Rightarrow> attempt (NewAdaptiveTimestampCursor src) (\<lambda>c. Inr (AdaptiveCursor c))
      | _ \<Rightarrow> Inl errNotTsCodec)"

fun TsCursor_Len :: "TsCursor \<Rightarrow> int" where
  "TsCursor_Len (DoDCursor d) = td_rows d"
| "TsCursor_Len (ScaledCursor d) = td_rows d"
| "TsCursor_Len (AdaptiveCursor c) = ac_rows c"
| "TsCursor_Len (ConstCursor d) = cc_n d"

fun TsCursor_Pos :: "TsCursor \<Rightarrow> int" where
  "TsCursor_Pos (DoDCursor d) = td_i d"
| "TsCursor_Pos (ScaledCursor d) = td_i d"
| "TsCursor_Pos (AdaptiveCursor c) = ac_pos c"
| "TsCursor_Pos (ConstCursor d) = cc_i d"

fun TsCursor_Next :: "TsCursor \<Rightarrow> CodecError + i64 \<times> TsCursor" where
  "TsCursor_Next (DoDCursor d) = attempt (TsDecoder_Next d) (\<lambda>(v, d). Inr (v, DoDCursor d))"
| "TsCursor_Next (ScaledCursor d) = attempt (scaledTsDecoder_Next d) (\<lambda>(v, d). Inr (v, ScaledCursor d))"
| "TsCursor_Next (AdaptiveCursor c) = (case adaptive_Next c of (res, c) \<Rightarrow> attempt res (\<lambda>v. Inr (v, AdaptiveCursor c)))"
| "TsCursor_Next (ConstCursor d) = attempt (constTsCursor_Next d) (\<lambda>(v, d). Inr (v, ConstCursor d))"

subsection \<open>A cursor yields what decoding returns\<close>

lemma TsDecoder_step:
  "TsDecoder_Next d = Inr (v, d') \<Longrightarrow> td_i d' = td_i d + 1 \<and> td_rows d' = td_rows d \<and> td_i d < td_rows d"
  by (auto simp: TsDecoder_Next_def attempt_eq_Inr Let_def split: if_splits)

lemma scaledTsDecoder_step:
  "scaledTsDecoder_Next d = Inr (v, d') \<Longrightarrow> td_i d' = td_i d + 1 \<and> td_rows d' = td_rows d \<and> td_i d < td_rows d"
  by (auto simp: scaledTsDecoder_Next_def attempt_eq_Inr Let_def dest!: TsDecoder_step split: if_splits)

lemma adaptive_step:
  "adaptive_Next c = (Inr v, c') \<Longrightarrow> ac_pos c' = ac_pos c + 1 \<and> ac_rows c' = ac_rows c \<and> ac_pos c < ac_rows c"
  by (auto simp: adaptive_Next_def Let_def split: option.splits sum.splits if_splits prod.splits)

lemma TsCursor_step:
  "TsCursor_Next c = Inr (v, c') \<Longrightarrow>
   TsCursor_Pos c' = TsCursor_Pos c + 1 \<and> TsCursor_Len c' = TsCursor_Len c \<and> TsCursor_Pos c < TsCursor_Len c"
proof (cases c)
  case (AdaptiveCursor a)
  assume n: "TsCursor_Next c = Inr (v, c')"
  obtain res a' where a': "adaptive_Next a = (res, a')" by (rule prod.exhaust)
  then have "res = Inr v" "c' = AdaptiveCursor a'" using n AdaptiveCursor by (auto simp: attempt_eq_Inr)
  then show ?thesis using adaptive_step[of a v a'] a' AdaptiveCursor by simp
qed (auto simp: attempt_eq_Inr constTsCursor_Next_def dest!: TsDecoder_step scaledTsDecoder_step split: if_splits)

interpretation ts: cursor TsCursor_Len TsCursor_Pos TsCursor_Next
proof
  show "\<exists>e. TsCursor_Next c = Inl e" if "TsCursor_Len c \<le> TsCursor_Pos c" for c
    using TsCursor_step[of c] that by (cases "TsCursor_Next c") force+
qed (use TsCursor_step in blast)

lemma collect_wrap:
  assumes "\<And>d. TsCursor_Next (W d) = attempt (nxt d) (\<lambda>(v, d). Inr (v, W d))"
  shows "yields (collect TsCursor_Next k (W d)) = yields (collect nxt k d)"
proof (induction k arbitrary: d)
  case (Suc k)
  then show ?case by (cases "nxt d") (auto simp: assms yields_Cons)
qed simp

lemma scaled_rest:
  "2 \<le> td_i d \<Longrightarrow> td_i d + int k \<le> td_rows d \<Longrightarrow>
   through td_r (collect scaledTsDecoder_Next k d) =
   read_scaled_dods k (td_r d) (sd_scale d) (td_dod d) (sd_t0 d + (td_prev d - sd_t0 d) * sd_scale d)"
proof (induction k arbitrary: d)
  case (Suc k)
  show ?case
  proof (cases "readDoD (td_r d)")
    case (Inl e)
    then show ?thesis using Suc.prems by (simp add: scaledTsDecoder_Next_def TsDecoder_Next_def)
  next
    case (Inr y)
    then obtain x r where y: "readDoD (td_r d) = Inr (x, r)" by (cases y) simp
    let ?dod = "td_dod d + x"
    let ?d = "d\<lparr>td_r := r, td_dod := ?dod, td_prev := td_prev d + ?dod, td_i := td_i d + 1\<rparr>"
    let ?t = "sd_t0 d + (td_prev d - sd_t0 d) * sd_scale d"
    have t: "sd_t0 d + (td_prev d + ?dod - sd_t0 d) * sd_scale d = ?t + ?dod * sd_scale d"
      by (simp add: algebra_simps)
    have "scaledTsDecoder_Next d = Inr (?t + ?dod * sd_scale d, ?d)"
      using y Suc.prems t by (simp add: scaledTsDecoder_Next_def TsDecoder_Next_def Let_def)
    moreover have "through td_r (collect scaledTsDecoder_Next k ?d) =
        read_scaled_dods k r (sd_scale d) ?dod (?t + ?dod * sd_scale d)"
      using Suc.IH[of ?d] Suc.prems t by simp
    ultimately show ?thesis using y by (simp add: Let_def through_Cons)
  qed
qed simp

lemma dod_rest:
  "2 \<le> td_i d \<Longrightarrow> td_i d + int k \<le> td_rows d \<Longrightarrow>
   through td_r (collect TsDecoder_Next k d) = read_scaled_dods k (td_r d) 1 (td_dod d) (td_prev d)"
  for d :: TsDecoder
proof (induction k arbitrary: d)
  case (Suc k)
  show ?case
  proof (cases "readDoD (td_r d)")
    case (Inl e)
    then show ?thesis using Suc.prems by (simp add: TsDecoder_Next_def)
  next
    case (Inr y)
    then obtain x r where y: "readDoD (td_r d) = Inr (x, r)" by (cases y) simp
    let ?dod = "td_dod d + x"
    let ?d = "d\<lparr>td_r := r, td_dod := ?dod, td_prev := td_prev d + ?dod, td_i := td_i d + 1\<rparr>"
    have "TsDecoder_Next d = Inr (td_prev d + ?dod, ?d)"
      using y Suc.prems by (simp add: TsDecoder_Next_def Let_def)
    then show ?thesis using Suc.IH[of ?d] Suc.prems y by (simp add: Let_def through_Cons)
  qed
qed simp

text \<open>The header of a column, read both ways.\<close>

lemma readHeader_Uvarint: "Uvarint src = (u, n) \<Longrightarrow> 0 < n \<Longrightarrow> readHeader src = Inr (NewReader (drop (nat n) src), sint u, nat n)"
  using header_uvarint_loop_reads[of 0 0 src u n 0 src]
  by (simp add: Uvarint_def readHeader_def readHeaderInto_def header_readUvarint_def)

lemma NewTsDecoder_error: "NewTsDecoder src = Inl e \<Longrightarrow> decodeTimestamps dst src scaled = Inl e"
  by (cases "readHeader src") (auto simp: NewTsDecoder_def decodeTimestamps_def attempt_def split: sum.splits if_splits)

lemma NewTsDecoder_ok:
  assumes "NewTsDecoder src = Inr d" "readHeader src = Inr (r, rows, consumed)"
  shows "d = \<lparr>td_r = r, td_rows = rows, td_i = 0, td_prev = 0, td_dod = 0\<rparr> \<and> 0 \<le> rows \<and>
    (rows \<noteq> 0 \<longrightarrow> boundRows rows (8 * (int (length src) - int consumed)) = Inr ())"
  using assms by (auto simp: NewTsDecoder_def boundRows_def split: if_splits)

lemma ConsumedBytes_new: "ConsumedBytes (NewReader b) = 0"
  by (simp add: ConsumedBytes_def NewReader_def)

lemma rows_cases:
  assumes "0 \<le> rows"
  obtains "rows = 0" | "rows = 1" | k where "nat rows = Suc (Suc k)" "rows = int k + 2"
proof (cases "rows < 2")
  case True
  then show thesis using assms that by (cases "rows = 0") auto
next
  case False
  then show thesis using that(3)[of "nat (rows - 2)"] by simp
qed

text \<open>Decoding at once is reading the cursor to its length.\<close>

lemma dod_cursor:
  assumes d: "NewTsDecoder src = Inr d" and h: "readHeader src = Inr (r, rows, consumed)"
  shows "decodeTimestamps [] src False =
    attempt (through td_r (collect TsDecoder_Next (nat rows) d)) (\<lambda>(ts, r). Inr (ts, consumed + ConsumedBytes r))"
proof -
  note ok = NewTsDecoder_ok[OF d h]
  consider "rows = 0" | "rows = 1" | k where "nat rows = Suc (Suc k)" "rows = int k + 2"
    using rows_cases[of rows] ok by blast
  then show ?thesis
  proof cases
    case 1
    then show ?thesis using h ok readHeader_reader[OF h] by (simp add: decodeTimestamps_def ConsumedBytes_new)
  next
    case 2
    then show ?thesis using h ok
      by (cases "ReadVarint r") (auto simp: decodeTimestamps_def TsDecoder_Next_def)
  next
    case (3 k)
    show ?thesis
    proof (cases "ReadVarint r")
      case (Inr y)
      then obtain t0 r1 where y: "ReadVarint r = Inr (t0, r1)" by (cases y) simp
      show ?thesis
      proof (cases "ReadUvarint r1")
        case (Inr z)
        then obtain td r2 where z: "ReadUvarint r1 = Inr (td, r2)" by (cases z) simp
        have "through td_r (collect TsDecoder_Next (nat rows) d) =
          attempt (read_scaled_dods k r2 1 td (t0 + td)) (\<lambda>(ts, r). Inr (t0 # (t0 + td) # ts, r))"
          using dod_rest[of "\<lparr>td_r = r2, td_rows = rows, td_i = 2, td_prev = t0 + td, td_dod = td\<rparr>" k] ok y z 3
          by (simp add: TsDecoder_Next_def through_Cons) (auto simp: attempt_def split: sum.splits)
        then show ?thesis using h ok y z 3
          by (cases "read_scaled_dods k r2 1 td (t0 + td)")
            (auto simp: decodeTimestamps_def decode_deltas_def readDeltas_scaled readScaledDeltas_def)
      qed (use h ok y 3 in \<open>simp add: decodeTimestamps_def decode_deltas_def readDeltas_def TsDecoder_Next_def\<close>)
    qed (use h ok 3 in \<open>simp add: decodeTimestamps_def TsDecoder_Next_def\<close>)
  qed
qed

lemma scaled_second:
  assumes "td_i d = 1" "1 < td_rows d"
  shows "scaledTsDecoder_Next d =
    attempt (ReadUvarint (td_r d)) (\<lambda>(s, r). if \<not> validScale s then Inl errUnexpectedEOF
      else attempt (ReadUvarint r) (\<lambda>(td, r). Inr (sd_t0 d + (td_prev d + td - sd_t0 d) * s,
        d\<lparr>td_r := r, td_dod := td, td_prev := td_prev d + td, td_i := 2, sd_scale := s\<rparr>)))"
proof (cases "ReadUvarint (td_r d)")
  case (Inr y)
  then obtain s r where y: "ReadUvarint (td_r d) = Inr (s, r)" by (cases y) simp
  then show ?thesis using assms
    by (cases "ReadUvarint r") (auto simp: scaledTsDecoder_Next_def TsDecoder_Next_def Let_def)
qed (use assms in \<open>simp add: scaledTsDecoder_Next_def\<close>)

lemma scaled_deltas:
  assumes "rows = int k + 2"
  shows "through td_r (collect scaledTsDecoder_Next (Suc k)
      \<lparr>td_r = r, td_rows = rows, td_i = 1, td_prev = t0, td_dod = 0, sd_t0 = t0, sd_scale = 0\<rparr>) =
    decode_deltas r t0 (Suc (Suc k)) True"
proof (cases "ReadUvarint r")
  case (Inr z)
  then obtain s r2 where z: "ReadUvarint r = Inr (s, r2)" by (cases z) simp
  show ?thesis
  proof (cases "validScale s \<and> (\<exists>td r3. ReadUvarint r2 = Inr (td, r3))")
    case True
    then obtain td r3 where "validScale s" "ReadUvarint r2 = Inr (td, r3)" by blast
    then show ?thesis
      using scaled_rest[of "\<lparr>td_r = r3, td_rows = rows, td_i = 2, td_prev = t0 + td, td_dod = td, sd_t0 = t0, sd_scale = s\<rparr>" k] z assms
      by (simp add: scaled_second through_Cons decode_deltas_def readDeltas_scaled readScaledDeltas_def Let_def)
  next
    case False
    then show ?thesis using z assms by (cases "ReadUvarint r2")
        (auto simp: scaled_second decode_deltas_def readDeltas_scaled readScaledDeltas_def)
  qed
qed (use assms in \<open>simp add: scaled_second decode_deltas_def\<close>)

lemma scaled_cursor:
  assumes d: "NewTsDecoder src = Inr d" and h: "readHeader src = Inr (r, rows, consumed)"
  shows "decodeTimestamps [] src True =
    attempt (through td_r (collect scaledTsDecoder_Next (nat rows) (new_scaledTsDecoder d)))
      (\<lambda>(ts, r). Inr (ts, consumed + ConsumedBytes r))"
proof -
  note ok = NewTsDecoder_ok[OF d h]
  have init: "new_scaledTsDecoder d = \<lparr>td_r = r, td_rows = rows, td_i = 0, td_prev = 0, td_dod = 0, sd_t0 = 0, sd_scale = 0\<rparr>"
    using ok by (simp add: new_scaledTsDecoder_def TsDecoder.defs scaledTsDecoder.defs)
  consider "rows = 0" | "rows = 1" | k where "nat rows = Suc (Suc k)" "rows = int k + 2"
    using rows_cases[of rows] ok by blast
  then show ?thesis
  proof cases
    case 1
    then show ?thesis using h init readHeader_reader[OF h] by (simp add: decodeTimestamps_def ConsumedBytes_new)
  next
    case 2
    then show ?thesis using h ok init
      by (cases "ReadVarint r") (auto simp: decodeTimestamps_def scaledTsDecoder_Next_def TsDecoder_Next_def Let_def)
  next
    case (3 k)
    show ?thesis
    proof (cases "ReadVarint r")
      case (Inr y)
      then obtain t0 r1 where y: "ReadVarint r = Inr (t0, r1)" by (cases y) simp
      let ?d1 = "\<lparr>td_r = r1, td_rows = rows, td_i = 1, td_prev = t0, td_dod = 0, sd_t0 = t0, sd_scale = 0\<rparr>"
      have one: "scaledTsDecoder_Next (new_scaledTsDecoder d) = Inr (t0, ?d1)"
        using init y 3 by (simp add: scaledTsDecoder_Next_def TsDecoder_Next_def)
      have rest: "through td_r (collect scaledTsDecoder_Next (Suc k) ?d1) = decode_deltas r1 t0 (nat rows) True"
        using scaled_deltas[OF 3(2)] 3(1) by simp
      have "through td_r (collect scaledTsDecoder_Next (nat rows) (new_scaledTsDecoder d)) =
          attempt (decode_deltas r1 t0 (nat rows) True) (\<lambda>(ts, r). Inr (t0 # ts, r))"
        unfolding rest[symmetric] by (subst 3(1)) (rule through_step[where nxt = scaledTsDecoder_Next, OF one])
      then show ?thesis using h ok y 3
        by (cases "decode_deltas r1 t0 (nat rows) True") (auto simp: decodeTimestamps_def)
    qed (use h ok init 3 in \<open>simp add: decodeTimestamps_def scaledTsDecoder_Next_def TsDecoder_Next_def\<close>)
  qed
qed

lemma adaptive_cadence:
  "ac_failed c = None \<Longrightarrow> ac_fallback c = None \<Longrightarrow> k = 0 \<or> ac_pos c + int k \<le> ac_rows c \<Longrightarrow>
   yields (collect TsCursor_Next k (AdaptiveCursor c)) = Inr (cadence k (ac_next c) (ac_step c))"
proof (induction k arbitrary: c)
  case (Suc k)
  let ?c = "c\<lparr>ac_next := ac_next c + ac_step c, ac_pos := ac_pos c + 1\<rparr>"
  have "TsCursor_Next (AdaptiveCursor c) = Inr (ac_next c, AdaptiveCursor ?c)"
    using Suc.prems by (simp add: adaptive_Next_def)
  then have "yields (collect TsCursor_Next (Suc k) (AdaptiveCursor c)) =
      attempt (yields (collect TsCursor_Next k (AdaptiveCursor ?c))) (\<lambda>vs. Inr (ac_next c # vs))"
    by (rule yields_step)
  moreover have "k = 0 \<or> ac_pos ?c + int k \<le> ac_rows ?c" using Suc.prems by auto
  ultimately show ?case using Suc.IH[of ?c] Suc.prems by simp
qed simp

abbreviation trailing_bytes :: CodecError where
  "trailing_bytes \<equiv> errMessage ''adaptive timestamps: trailing fallback bytes''"

lemma adaptive_fallback:
  "ac_failed c = None \<Longrightarrow> ac_fallback c = Some d \<Longrightarrow> ac_pos c + 1 + int k = ac_rows c \<Longrightarrow>
   yields (collect TsCursor_Next (Suc k) (AdaptiveCursor c)) =
   attempt (through td_r (collect scaledTsDecoder_Next (Suc k) d)) (\<lambda>(ts, r).
     if ac_fallbackHeader c + int (ConsumedBytes r) \<noteq> ac_fallbackBytes c then Inl trailing_bytes else Inr ts)"
proof (induction k arbitrary: c d)
  case 0
  then show ?case by (cases "scaledTsDecoder_Next d") (auto simp: adaptive_Next_def Let_def)
next
  case (Suc k)
  show ?case
  proof (cases "scaledTsDecoder_Next d")
    case (Inl e)
    then show ?thesis using Suc.prems by (simp add: adaptive_Next_def)
  next
    case (Inr y)
    then obtain v d' where y: "scaledTsDecoder_Next d = Inr (v, d')" by (cases y) simp
    let ?c = "c\<lparr>ac_fallback := Some d', ac_pos := ac_pos c + 1\<rparr>"
    have "TsCursor_Next (AdaptiveCursor c) = Inr (v, AdaptiveCursor ?c)"
      using Suc.prems y by (simp add: adaptive_Next_def Let_def)
    then have "yields (collect TsCursor_Next (Suc (Suc k)) (AdaptiveCursor c)) =
        attempt (yields (collect TsCursor_Next (Suc k) (AdaptiveCursor ?c))) (\<lambda>vs. Inr (v # vs))"
      by (rule yields_step)
    moreover have "through td_r (collect scaledTsDecoder_Next (Suc (Suc k)) d) =
        attempt (through td_r (collect scaledTsDecoder_Next (Suc k) d')) (\<lambda>(ts, r). Inr (v # ts, r))"
      using y by (rule through_step)
    ultimately show ?thesis using Suc.IH[of ?c d'] Suc.prems
      by (cases "through td_r (collect scaledTsDecoder_Next (Suc k) d')") auto
  qed
qed

lemma adaptive_cursor:
  "attempt (NewAdaptiveTimestampCursor src) (\<lambda>c. yields (collect TsCursor_Next (nat (ac_rows c)) (AdaptiveCursor c))) =
   yields (DecodeTimestampsAdaptive [] src)"
proof (cases src)
  case (Cons mode body)
  consider "mode = 0" | "mode = 1" | "mode \<noteq> 0" "mode \<noteq> 1" by blast
  then show ?thesis
  proof cases
    case 1
    then show ?thesis using Cons
      by (cases "adaptiveTimestampHeader body")
        (auto simp: NewAdaptiveTimestampCursor_def DecodeTimestampsAdaptive_def adaptive_cadence)
  next
    case 2
    obtain u n where u: "Uvarint body = (u, n)" by (rule prod.exhaust)
    show ?thesis
    proof (cases "n \<le> 0 \<or> u = 0 \<or> unat u > MaxFloatGroupRows")
      case True
      then show ?thesis using Cons 2 u by (auto simp: NewAdaptiveTimestampCursor_def DecodeTimestampsAdaptive_def)
    next
      case False
      then have h: "readHeader body = Inr (NewReader (drop (nat n) body), sint u, nat n)"
        using readHeader_Uvarint[OF u] by simp
      show ?thesis
      proof (cases "NewTsDecoder body")
        case (Inl e)
        then show ?thesis using Cons 2 u False NewTsDecoder_error[OF Inl]
          by (simp add: NewAdaptiveTimestampCursor_def DecodeTimestampsAdaptive_def DecodeTimestampsScaled_def)
      next
        case (Inr d)
        have "0 \<le> sint u" using NewTsDecoder_ok[OF Inr h] by simp
        moreover have "sint u \<noteq> 0" using False signed_eq_0_iff[of u] by (metis signed_0 signed_word_eqI)
        ultimately obtain k where k: "nat (sint u) = Suc k" "1 + int k = sint u"
          by (metis gr0_conv_Suc nat_0_le of_nat_Suc order_le_less zero_less_nat_eq)
        note c = scaled_cursor[OF Inr h]
        show ?thesis using Cons 2 u False Inr c k(1)
            adaptive_fallback[of "\<lparr>ac_rows = sint u, ac_pos = 0, ac_next = 0, ac_step = 0,
              ac_fallback = Some (new_scaledTsDecoder d), ac_fallbackBytes = int (length src) - 1,
              ac_fallbackHeader = n, ac_failed = None\<rparr>" "new_scaledTsDecoder d" k] k(2)
          by (cases "through td_r (collect scaledTsDecoder_Next (Suc k) (new_scaledTsDecoder d))")
            (auto simp: NewAdaptiveTimestampCursor_def DecodeTimestampsAdaptive_def DecodeTimestampsScaled_def
              nat_eq_iff2 simp del: collect.simps split: if_splits)
      qed
    qed
  qed (use Cons in \<open>simp add: NewAdaptiveTimestampCursor_def DecodeTimestampsAdaptive_def\<close>)
qed (simp add: NewAdaptiveTimestampCursor_def DecodeTimestampsAdaptive_def)

lemma opened_cursor:
  "attempt (NewTsDecoder src) (\<lambda>d. yields (collect TsDecoder_Next (nat (td_rows d)) d)) = yields (decodeTimestamps [] src False) \<and>
   attempt (NewTsDecoder src) (\<lambda>d. yields (collect scaledTsDecoder_Next (nat (td_rows d)) (new_scaledTsDecoder d))) =
     yields (decodeTimestamps [] src True)"
proof (cases "NewTsDecoder src")
  case (Inl e)
  then show ?thesis using NewTsDecoder_error[OF Inl] by simp
next
  case (Inr d)
  then obtain y where "readHeader src = Inr y" by (auto simp: NewTsDecoder_def attempt_eq_Inr)
  then obtain r rows consumed where h: "readHeader src = Inr (r, rows, consumed)" by (cases y) auto
  have y: "yields (attempt res (\<lambda>(ts, r). Inr (ts, g r))) = yields res" for res :: "CodecError + 'v list \<times> 'r" and g
    by (cases res) auto
  show ?thesis unfolding dod_cursor[OF Inr h] scaled_cursor[OF Inr h] y yields_through
    using NewTsDecoder_ok[OF Inr h] Inr by simp
qed

text \<open>C10. The forward cursor a codec opens over a timestamp column yields, row by row, exactly what decoding
  the column at once returns, and fails exactly where that fails and with the same error, on every byte
  string and for every codec; for a codec that is not a timestamp codec there is no cursor.\<close>

theorem ts_cursor_decodes_column:
  "attempt (NewTsCursor c src) (\<lambda>cur. yields (collect TsCursor_Next (nat (TsCursor_Len cur)) cur)) =
   (case c of
      CodecDoD \<Rightarrow> yields (DecodeTimestamps [] src)
    | CodecDoDScaled \<Rightarrow> yields (DecodeTimestampsScaled [] src)
    | CodecAdaptiveTimestamps \<Rightarrow> yields (DecodeTimestampsAdaptive [] src)
    | _ \<Rightarrow> Inl errNotTsCodec)"
proof -
  have dod: "attempt (NewTsDecoder src) (\<lambda>d. yields (collect TsDecoder_Next (nat (td_rows d)) d)) =
      yields (decodeTimestamps [] src False)"
    and scaled: "attempt (NewTsDecoder src) (\<lambda>d. yields (collect scaledTsDecoder_Next (nat (td_rows d)) (new_scaledTsDecoder d))) =
      yields (decodeTimestamps [] src True)"
    using opened_cursor[of src] by blast+
  have w: "yields (collect TsCursor_Next k (DoDCursor d)) = yields (collect TsDecoder_Next k d)"
    "yields (collect TsCursor_Next k (ScaledCursor sd)) = yields (collect scaledTsDecoder_Next k sd)" for k d sd
    by (rule collect_wrap, simp)+
  have len: "td_rows (new_scaledTsDecoder d) = td_rows d" for d
    by (simp add: new_scaledTsDecoder_def TsDecoder.defs)
  have chain: "attempt (attempt m (\<lambda>x. Inr (f x))) g = attempt m (\<lambda>x. g (f x))" for m :: "CodecError + 'x" and f g
    by (cases m) simp_all
  show ?thesis
    by (cases c) (simp_all add: NewTsCursor_def chain w len dod scaled adaptive_cursor DecodeTimestamps_def DecodeTimestampsScaled_def)
qed

subsection \<open>Adaptive chunks read back\<close>

lemma cadence_regular: "regular step t ts \<Longrightarrow> cadence (length ts) (t + step) step = ts"
proof (induction ts arbitrary: t)
  case (Cons t' ts)
  then have "t' - t = step" "regular step t' ts" by (auto split: if_splits)
  then show ?case using Cons.IH[of t'] by (simp flip: \<open>t' - t = step\<close>)
qed simp

lemma rows_word: "n \<le> MaxFloatGroupRows \<Longrightarrow> unat (of_nat n :: u64) = n \<and> sint (of_nat n :: u64) = int n"
  by (simp add: MaxFloatGroupRows_def unat_of_nat signed_of_nat signed_take_bit_int_eq_self)

lemma adaptiveTimestampHeader_enc:
  assumes "n \<le> MaxFloatGroupRows" "0 < n"
  shows "adaptiveTimestampHeader (AppendUvarint [] (of_nat n) @ AppendVarint [] first @ AppendVarint [] step) = Inr (int n, first, step)"
proof -
  have "(of_nat n :: u64) \<noteq> 0" using rows_word[OF assms(1)] assms(2) by (metis unat_0 less_irrefl)
  then show ?thesis using rows_word[OF assms(1)] assms(1) Varint_enc[of step "[]"] zv.enc_pos[of step] zv.enc_pos[of first]
      uv.enc_pos[of "of_nat n"]
    by (simp add: adaptiveTimestampHeader_def Uvarint_enc Varint_enc Let_def)
qed

lemma adaptive_fallback_enc:
  assumes ts: "ts \<noteq> []" "length ts \<le> MaxFloatGroupRows"
  shows "\<exists>e. EncodeTimestampsScaled (pre @ [1]) ts = Inr (pre @ 1 # e) \<and> DecodeTimestampsAdaptive dst (1 # e) = Inr (ts, length e + 1)"
proof -
  obtain p pad where p: "encodeTimestamps (pre @ [1]) ts True = Inr ((pre @ [1]) @ AppendUvarint [] (of_nat (length ts)) @ p)"
    "stream_bits p = ts_bits ts True @ replicate pad False" "pad < 8" using encodeTimestamps_bytes by blast
  let ?e = "AppendUvarint [] (of_nat (length ts) :: u64) @ p"
  have n: "length ts < 2 ^ 63" using ts(2) by (simp add: MaxFloatGroupRows_def)
  have u: "Uvarint ?e = (of_nat (length ts), int (length (AppendUvarint [] (of_nat (length ts) :: u64))))" by (rule Uvarint_enc)
  have "(of_nat (length ts) :: u64) \<noteq> 0" using rows_word[OF ts(2)] ts(1) by (metis unat_0 length_0_conv)
  then have "DecodeTimestampsAdaptive dst (1 # ?e) = Inr (ts, length ?e + 1)"
    using u decodeTimestamps_enc[OF p(2,3) n, of dst "[]"] ts rows_word[OF ts(2)] uv.enc_pos[of "of_nat (length ts)"]
    by (simp add: DecodeTimestampsAdaptive_def DecodeTimestampsScaled_def)
  then show ?thesis using p(1) by (auto simp: EncodeTimestampsScaled_def)
qed

text \<open>C37. An adaptive chunk of at most \<^verbatim>\<open>MaxFloatGroupRows\<close> timestamps reads back exactly, whether it is stored
  as a cadence or as scaled deltas, and decoding takes every byte of it; more rows are refused by the encoder.\<close>

theorem adaptive_timestamps_round_trip:
  "(length ts \<le> MaxFloatGroupRows \<longrightarrow>
     (\<exists>e. EncodeTimestampsAdaptive pre ts = Inr (pre @ e) \<and> DecodeTimestampsAdaptive dst e = Inr (ts, length e))) \<and>
   (MaxFloatGroupRows < length ts \<longrightarrow>
     EncodeTimestampsAdaptive pre ts = Inl (errMessage ''adaptive timestamps: too many rows''))"
proof (intro conjI impI)
  assume n: "length ts \<le> MaxFloatGroupRows"
  define step where "step = (case ts of v0 # v1 # _ \<Rightarrow> v1 - v0 | _ \<Rightarrow> 0)"
  define reg where "reg = (case ts of v0 # v1 # rest \<Rightarrow> regular step v1 rest | _ \<Rightarrow> True)"
  have enc: "EncodeTimestampsAdaptive pre ts = (if \<not> reg then EncodeTimestampsScaled (pre @ [1]) ts
      else Inr (case ts of [] \<Rightarrow> AppendUvarint (pre @ [0]) (of_nat (length ts))
        | v # _ \<Rightarrow> AppendVarint (AppendVarint (AppendUvarint (pre @ [0]) (of_nat (length ts))) v) step))"
    unfolding EncodeTimestampsAdaptive_def Let_def step_def[symmetric] reg_def[symmetric] using n by simp
  show "\<exists>e. EncodeTimestampsAdaptive pre ts = Inr (pre @ e) \<and> DecodeTimestampsAdaptive dst e = Inr (ts, length e)"
  proof (cases reg)
    case False
    then have "ts \<noteq> []" by (auto simp: reg_def)
    from adaptive_fallback_enc[OF this n] obtain e where
      "EncodeTimestampsScaled (pre @ [1]) ts = Inr (pre @ 1 # e)" "DecodeTimestampsAdaptive dst (1 # e) = Inr (ts, length e + 1)" by blast
    then show ?thesis using False by (intro exI[of _ "1 # e"]) (simp add: enc)
  next
    case True
    show ?thesis
    proof (cases ts)
      case Nil
      have "EncodeTimestampsAdaptive pre ts = Inr (pre @ 0 # AppendUvarint [] 0)"
        unfolding enc using True Nil uv.app_only[of "pre @ [0]" 0] by simp
      moreover have "adaptiveTimestampHeader (AppendUvarint [] 0) = Inr (0, 0, 0)"
        by (simp add: adaptiveTimestampHeader_def AppendUvarint.simps[of "[]" 0] Uvarint_def MaxVarintLen64_def)
      ultimately show ?thesis using Nil by (auto simp: DecodeTimestampsAdaptive_def)
    next
      case (Cons v vs)
      let ?e = "AppendUvarint [] (of_nat (length ts)) @ AppendVarint [] v @ AppendVarint [] step"
      have "EncodeTimestampsAdaptive pre ts = Inr (pre @ 0 # ?e)"
        unfolding enc using True Cons uv.app_only[of "pre @ [0]" "of_nat (length ts)"]
          zv.app_only[of "pre @ 0 # AppendUvarint [] (of_nat (length ts))" v]
          zv.app_only[of "pre @ 0 # AppendUvarint [] (of_nat (length ts)) @ AppendVarint [] v" step] by simp
      moreover have "cadence (length ts) v step = ts"
      proof (cases vs)
        case (Cons v1 rest)
        then have "step = v1 - v" "regular step v1 rest" using True \<open>ts = v # vs\<close> by (auto simp: reg_def step_def)
        then show ?thesis using cadence_regular[of step v1 rest] Cons \<open>ts = v # vs\<close> by (simp del: diff_add_cancel add: algebra_simps)
      qed (use Cons in simp)
      then have "DecodeTimestampsAdaptive dst (0 # ?e) = Inr (ts, length (0 # ?e))"
        using adaptiveTimestampHeader_enc[OF n, of v step] Cons by (simp add: DecodeTimestampsAdaptive_def nat_add_distrib)
      ultimately show ?thesis by blast
    qed
  qed
qed (simp add: EncodeTimestampsAdaptive_def)

text \<open>A cadence of three, and the same with a late last sample.\<close>

theorem adaptive_timestamps_round_trip_witness:
  "(\<exists>e. EncodeTimestampsAdaptive [] [10, 25, 40] = Inr e \<and> DecodeTimestampsAdaptive [] e = Inr ([10, 25, 40], length e)) \<and>
   (\<exists>e. EncodeTimestampsAdaptive [] [10, 25, 41] = Inr e \<and> DecodeTimestampsAdaptive [] e = Inr ([10, 25, 41], length e))"
  using adaptive_timestamps_round_trip[of "[10, 25, 40]" "[]" "[]"] adaptive_timestamps_round_trip[of "[10, 25, 41]" "[]" "[]"]
  by (simp add: MaxFloatGroupRows_def)

subsection \<open>Corrupt chunks\<close>

lemma adaptiveTimestampHeader_no_panic: "adaptiveTimestampHeader src \<noteq> Inl Panic"
  by (simp add: adaptiveTimestampHeader_def Let_def split: prod.splits)

lemma DecodeTimestampsAdaptive_no_panic: "DecodeTimestampsAdaptive dst src \<noteq> Inl Panic"
proof (cases src)
  case (Cons mode body)
  have "attempt (adaptiveTimestampHeader body) (\<lambda>(rows, first, step). Inr (cadence (nat rows) first step, length src)) \<noteq> Inl Panic"
    using adaptiveTimestampHeader_no_panic by (rule attempt_no_panic) (simp split: prod.splits)
  moreover have "attempt (DecodeTimestampsScaled dst body) (\<lambda>(out, used).
      if used \<noteq> length src - 1 then Inl (errMessage ''adaptive timestamps: trailing fallback bytes'') else Inr (out, used + 1)) \<noteq> Inl Panic"
    using decodeTimestamps_no_panic[of dst body True]
    by (intro attempt_no_panic) (auto simp: DecodeTimestampsScaled_def split: prod.splits)
  ultimately show ?thesis using Cons by (simp add: DecodeTimestampsAdaptive_def split: prod.splits)
qed (simp add: DecodeTimestampsAdaptive_def)

lemma DecodeTimestampsAdaptiveRows_no_panic: "DecodeTimestampsAdaptiveRows dst src rows \<noteq> Inl Panic"
  by (simp add: DecodeTimestampsAdaptiveRows_def DecodeTimestampsAdaptive_no_panic split: prod.splits)

end
