(* ===== verification/Gorilla.thy ===== *)
theory Gorilla
  imports Columns
begin

text \<open>
  The Gorilla XOR codec for \<^verbatim>\<open>float64\<close> columns (\<^verbatim>\<open>src/encoding/chunk/xor.go\<close>) and its forward cursor
  (\<^verbatim>\<open>decoder.go\<close>). A \<^verbatim>\<open>float64\<close> is its bit pattern: \<^verbatim>\<open>math.Float64bits\<close> and \<^verbatim>\<open>math.Float64frombits\<close> are the
  identity, so every value, NaN payloads and signed zeros included, is compared bit for bit.
\<close>

definition LeadingZeros64 :: "u64 \<Rightarrow> nat" where
  "LeadingZeros64 u = length (takeWhile (\<lambda>i. \<not> bit u i) (rev [0..<64]))"

definition TrailingZeros64 :: "u64 \<Rightarrow> nat" where
  "TrailingZeros64 u = length (takeWhile (\<lambda>i. \<not> bit u i) [0..<64])"

subsection \<open>One value\<close>

definition xorWrite :: "Writer \<Rightarrow> u64 \<Rightarrow> u64 \<Rightarrow> nat \<Rightarrow> nat \<Rightarrow> CodecError + Writer \<times> nat \<times> nat" where
  "xorWrite w newVal curVal leading trailing =
     (let delta = newVal XOR curVal in
      if delta = 0 then Inr (WriteBit w False, leading, trailing)
      else
        (let w = WriteBit w True;
             newLeading = LeadingZeros64 delta;
             newTrailing = TrailingZeros64 delta;
             newLeading = (if newLeading \<ge> 32 then 31 else newLeading)
         in if leading \<noteq> 0xff \<and> newLeading \<ge> leading \<and> newTrailing \<ge> trailing then
              (let w = WriteBit w False; sigbits = 64 - int leading - int trailing
               in attempt (WriteBits w (drop_bit trailing delta) sigbits) (\<lambda>w. Inr (w, leading, trailing)))
            else
              (let w = WriteBit w True in
               attempt (WriteBits w (of_nat newLeading) 5) (\<lambda>w.
                 let sigbits = sub8 (sub8 64 newLeading) newTrailing in
                 attempt (WriteBits w (of_nat sigbits) 6) (\<lambda>w.
                   attempt (WriteBits w (drop_bit newTrailing delta) (int sigbits))
                     (\<lambda>w. Inr (w, newLeading, newTrailing)))))))"

definition xorReadControl :: "Reader \<Rightarrow> CodecError + (bool \<times> bool) \<times> Reader" where
  "xorReadControl r =
     (if Buffered r \<ge> 2 then
        (let p = Peek r 2 in
         if p AND 2 = 0 then Inr ((False, False), Skip r 1)
         else Inr ((True, p AND 1 \<noteq> 0), Skip r 2))
      else attempt (ReadBit r) (\<lambda>(b, r).
        if \<not> b then Inr ((False, False), r)
        else attempt (ReadBit r) (\<lambda>(newLT, r). Inr ((True, newLT), r))))"

text \<open>The window of a value: its trailing zeros, its width, and the carried state.\<close>

definition xorReadWindow :: "Reader \<Rightarrow> bool \<Rightarrow> nat \<Rightarrow> nat \<Rightarrow> CodecError + (nat \<times> nat \<times> nat \<times> nat) \<times> Reader" where
  "xorReadWindow r ctrl1 leading trailing =
     (if \<not> ctrl1 then
        (if leading + trailing > 64 then Inl errUnexpectedEOF
         else Inr ((trailing, sub8 (sub8 64 leading) trailing, leading, trailing), r))
      else attempt (ReadBits r 5) (\<lambda>(lbits, r). attempt (ReadBits r 6) (\<lambda>(sbits, r).
        let newLeading = unat lbits;
            sigbits = (if unat sbits = 0 then 64 else unat sbits)
        in if newLeading + sigbits > 64 then Inl errUnexpectedEOF
           else (let newTrailing = sub8 (sub8 64 newLeading) sigbits
                 in Inr ((newTrailing, sigbits, newLeading, newTrailing), r)))))"

definition xorRead :: "Reader \<Rightarrow> u64 \<Rightarrow> nat \<Rightarrow> nat \<Rightarrow> CodecError + (u64 \<times> nat \<times> nat) \<times> Reader" where
  "xorRead r val leading trailing =
     attempt (xorReadControl r) (\<lambda>((changed, ctrl1), r).
       if \<not> changed then Inr ((val, leading, trailing), r)
       else attempt (xorReadWindow r ctrl1 leading trailing) (\<lambda>((newTrailing, sigbits, leading, trailing), r).
         attempt (ReadBits r sigbits) (\<lambda>(mbits, r).
           Inr ((val XOR push_bit newTrailing mbits, leading, trailing), r))))"

subsection \<open>Columns\<close>

fun xor_writes :: "Writer \<Rightarrow> u64 \<Rightarrow> nat \<Rightarrow> nat \<Rightarrow> u64 list \<Rightarrow> CodecError + Writer" where
  "xor_writes w prev leading trailing [] = Inr w"
| "xor_writes w prev leading trailing (v # vs) =
     attempt (xorWrite w v prev leading trailing) (\<lambda>(w, leading, trailing). xor_writes w v leading trailing vs)"

definition EncodeFloats :: "bytes \<Rightarrow> u64 list \<Rightarrow> CodecError + bytes" where
  "EncodeFloats dst vals =
     (let w = WriteUvarint (NewWriter dst) (of_nat (length vals)) in
      case vals of
        [] \<Rightarrow> Inr (Bytes w)
      | v # vs \<Rightarrow> attempt (WriteBits w v 64) (\<lambda>w.
          attempt (xor_writes w v 0xff 0 vs) (\<lambda>w. Inr (Bytes (PadToByte w)))))"

fun xor_reads :: "nat \<Rightarrow> Reader \<Rightarrow> u64 \<Rightarrow> nat \<Rightarrow> nat \<Rightarrow> CodecError + u64 list \<times> Reader" where
  "xor_reads 0 r val leading trailing = Inr ([], r)"
| "xor_reads (Suc k) r val leading trailing =
     attempt (xorRead r val leading trailing) (\<lambda>((val, leading, trailing), r).
       attempt (xor_reads k r val leading trailing) (\<lambda>(vs, r). Inr (val # vs, r)))"

definition empty_reader :: Reader where
  "empty_reader = \<lparr>r_stream = [], r_offset = 0, r_buffer = 0, r_valid = 0, r_last = 0\<rparr>"

definition DecodeFloats :: "u64 list \<Rightarrow> bytes \<Rightarrow> CodecError + u64 list \<times> nat" where
  "DecodeFloats dst src =
     attempt (readHeaderInto src (Some empty_reader)) (\<lambda>(rows, consumed, ro).
       let r = the ro in
       if rows = 0 then Inr (dst, consumed)
       else attempt (boundRows rows (8 * (int (length src) - int consumed))) (\<lambda>_.
         attempt (ReadBits r 64) (\<lambda>(v0, r).
           attempt (xor_reads (nat rows - 1) r v0 0xff 0) (\<lambda>(vs, r).
             Inr (v0 # vs, consumed + ConsumedBytes r)))))"

subsection \<open>The cursor\<close>

record GorillaDecoder =
  gd_r :: Reader
  gd_rows :: int
  gd_i :: int
  gd_val :: u64
  gd_leading :: nat
  gd_trailing :: nat

definition NewGorillaDecoder :: "bytes \<Rightarrow> CodecError + GorillaDecoder" where
  "NewGorillaDecoder src =
     attempt (readHeader src) (\<lambda>(r, rows, consumed).
       if rows = 0 then
         Inr \<lparr>gd_r = r, gd_rows = 0, gd_i = 0, gd_val = 0, gd_leading = 0, gd_trailing = 0\<rparr>
       else attempt (boundRows rows (8 * (int (length src) - int consumed))) (\<lambda>_.
         Inr \<lparr>gd_r = r, gd_rows = rows, gd_i = 0, gd_val = 0, gd_leading = 0xff, gd_trailing = 0\<rparr>))"

definition GorillaDecoder_Next :: "GorillaDecoder \<Rightarrow> CodecError + u64 \<times> GorillaDecoder" where
  "GorillaDecoder_Next d =
     (if gd_i d \<ge> gd_rows d then Inl errEOF
      else attempt
        (if gd_i d = 0 then attempt (ReadBits (gd_r d) 64) (\<lambda>(b, r). Inr (d\<lparr>gd_val := b, gd_r := r\<rparr>))
         else attempt (xorRead (gd_r d) (gd_val d) (gd_leading d) (gd_trailing d)) (\<lambda>((val, leading, trailing), r).
           Inr (d\<lparr>gd_val := val, gd_leading := leading, gd_trailing := trailing, gd_r := r\<rparr>)))
        (\<lambda>d. Inr (gd_val d, d\<lparr>gd_i := gd_i d + 1\<rparr>)))"

subsection \<open>Windows\<close>

lemma LeadingZeros64_zero: "64 - LeadingZeros64 u \<le> i \<Longrightarrow> \<not> bit u i"
proof -
  assume i: "64 - LeadingZeros64 u \<le> i"
  show ?thesis
  proof (cases "i < 64")
    case True
    let ?t = "takeWhile (\<lambda>i. \<not> bit u i) (rev [0..<64])"
    have "63 - i < length ?t" using i True by (simp add: LeadingZeros64_def)
    moreover from this have "?t ! (63 - i) = i" using True by (simp add: takeWhile_nth rev_nth)
    ultimately have "i \<in> set ?t" by (metis nth_mem)
    then show ?thesis by (auto dest: set_takeWhileD)
  qed (auto dest: bit_imp_le_length)
qed

lemma TrailingZeros64_zero: "i < TrailingZeros64 u \<Longrightarrow> \<not> bit u i"
proof -
  assume i: "i < TrailingZeros64 u"
  let ?t = "takeWhile (\<lambda>i. \<not> bit u i) [0..<64]"
  have l: "i < length ?t" using i by (simp add: TrailingZeros64_def)
  then have "i < 64" using length_takeWhile_le[of "\<lambda>i. \<not> bit u i" "[0..<64]"] by simp
  then have "?t ! i = i" using l by (simp add: takeWhile_nth)
  then have "i \<in> set ?t" using l by (metis nth_mem)
  then show ?thesis by (auto dest: set_takeWhileD)
qed

lemma zeros_disjoint:
  assumes "u \<noteq> 0" shows "LeadingZeros64 u + TrailingZeros64 u \<le> 63"
proof (rule ccontr)
  assume "\<not> ?thesis"
  then have "64 - LeadingZeros64 u \<le> i \<or> i < TrailingZeros64 u" for i by linarith
  then have "\<not> bit u i" for i using LeadingZeros64_zero TrailingZeros64_zero by blast
  then show False using assms by (simp add: bit_eq_iff)
qed

text \<open>A window that covers the set bits of a word keeps them all.\<close>

definition fits :: "nat \<Rightarrow> nat \<Rightarrow> u64 \<Rightarrow> bool" where
  "fits l t u \<longleftrightarrow> l \<le> LeadingZeros64 u \<and> t \<le> TrailingZeros64 u \<and> l + t \<le> 63"

lemma fits_window:
  assumes "fits l t u"
  shows "take_bit (64 - l - t) (drop_bit t u) = drop_bit t u" "push_bit t (drop_bit t u) = u"
proof -
  have lz: "64 - l \<le> i \<Longrightarrow> \<not> bit u i" for i
    using assms LeadingZeros64_zero[of u i] unfolding fits_def by (meson diff_le_mono2 le_trans)
  have tz: "i < t \<Longrightarrow> \<not> bit u i" for i
    using assms TrailingZeros64_zero[of i u] unfolding fits_def by (meson less_le_trans)
  have "t + i < 64 - l" if "bit u (t + i)" for i using lz[of "t + i"] that by (meson not_le)
  then show "take_bit (64 - l - t) (drop_bit t u) = drop_bit t u"
    by (intro bit_word_eqI) (auto simp: bit_simps less_diff_conv ac_simps)
  show "push_bit t (drop_bit t u) = u"
  proof (rule bit_word_eqI)
    fix n assume "n < LENGTH(64)"
    then show "bit (push_bit t (drop_bit t u)) n = bit u n"
      using tz[of n] by (cases "n < t") (auto simp: bit_simps)
  qed
qed

definition xor_inv :: "nat \<Rightarrow> nat \<Rightarrow> bool" where
  "xor_inv l t \<longleftrightarrow> l = 0xff \<or> l \<le> 31 \<and> l + t \<le> 63"

definition clamped :: "u64 \<Rightarrow> nat" where
  "clamped u = (if LeadingZeros64 u \<ge> 32 then 31 else LeadingZeros64 u)"

lemma clamped_fits: "u \<noteq> 0 \<Longrightarrow> fits (clamped u) (TrailingZeros64 u) u" "clamped u \<le> 31"
  using zeros_disjoint[of u] by (auto simp: fits_def clamped_def)

definition xor_bits :: "u64 \<Rightarrow> nat \<Rightarrow> nat \<Rightarrow> bool list \<times> nat \<times> nat" where
  "xor_bits u l t =
     (let nl = clamped u; nt = TrailingZeros64 u; sig = 64 - nl - nt in
      if u = 0 then ([False], l, t)
      else if l \<noteq> 0xff \<and> nl \<ge> l \<and> nt \<ge> t then ([True, False] @ msb_bits (64 - l - t) (drop_bit t u), l, t)
      else ([True, True] @ msb_bits 5 (of_nat nl :: u64) @ msb_bits 6 (of_nat sig :: u64) @ msb_bits sig (drop_bit nt u), nl, nt))"

lemma WriteBits_put: "writes w bs \<Longrightarrow> int n = m \<Longrightarrow> n \<le> 64 \<Longrightarrow> \<exists>w'. WriteBits w u m = Inr w' \<and> writes w' (bs @ msb_bits n u)"
  using WriteBits_writes by blast

lemma xorWrite_writes:
  assumes w: "writes w bs" and inv: "xor_inv l t" and b: "xor_bits (new XOR cur) l t = (b, l', t')"
  shows "\<exists>w'. xorWrite w new cur l t = Inr (w', l', t') \<and> writes w' (bs @ b) \<and> xor_inv l' t'"
proof -
  let ?u = "new XOR cur"
  let ?nl = "clamped ?u" and ?nt = "TrailingZeros64 ?u"
  consider "?u = 0" | "?u \<noteq> 0" "l \<noteq> 0xff \<and> ?nl \<ge> l \<and> ?nt \<ge> t" | "?u \<noteq> 0" "\<not> (l \<noteq> 0xff \<and> ?nl \<ge> l \<and> ?nt \<ge> t)" by blast
  then show ?thesis
  proof cases
    case 1
    then show ?thesis using WriteBit_writes[OF w, of False] b inv by (auto simp: xorWrite_def xor_bits_def)
  next
    case 2
    have "int (64 - l - t) = 64 - int l - int t" "64 - l - t \<le> 64" using 2 inv by (auto simp: xor_inv_def)
    from WriteBits_put[OF WriteBit_writes[OF WriteBit_writes[OF w, of True], of False] this, of "drop_bit t ?u"] 2 b inv
    show ?thesis by (auto simp: xorWrite_def xor_bits_def Let_def clamped_def)
  next
    case 3
    let ?sig = "64 - ?nl - ?nt"
    have f: "?nl + ?nt \<le> 63" using clamped_fits(1)[OF 3(1)] by (simp add: fits_def)
    have sub: "sub8 (sub8 64 ?nl) ?nt = ?sig" using f by simp
    obtain w1 where w1: "WriteBits (WriteBit (WriteBit w True) True) (of_nat ?nl) 5 = Inr w1"
        "writes w1 (((bs @ [True]) @ [True]) @ msb_bits 5 (of_nat ?nl :: u64))"
      using WriteBits_put[OF WriteBit_writes[OF WriteBit_writes[OF w, of True], of True], of 5 5 "of_nat ?nl"] by auto
    obtain w2 where w2: "WriteBits w1 (of_nat ?sig) 6 = Inr w2"
        "writes w2 ((((bs @ [True]) @ [True]) @ msb_bits 5 (of_nat ?nl :: u64)) @ msb_bits 6 (of_nat ?sig :: u64))"
      using WriteBits_put[OF w1(2), of 6 6 "of_nat ?sig"] by auto
    obtain w3 where w3: "WriteBits w2 (drop_bit ?nt ?u) (int ?sig) = Inr w3" "writes w3 (bs @ b)"
      using WriteBits_put[OF w2(2), of ?sig "int ?sig" "drop_bit ?nt ?u"] b 3 by (auto simp: xor_bits_def Let_def)
    have s: "l' = ?nl" "t' = ?nt" using b 3 by (auto simp: xor_bits_def Let_def split: if_splits)
    have "xor_inv l' t'" using s f clamped_fits(2)[of ?u] by (simp add: xor_inv_def)
    moreover have "xorWrite w new cur l t = Inr (w3, l', t')"
      using 3 w1(1) w2(1) w3(1) sub s unfolding xorWrite_def Let_def clamped_def[symmetric] by auto
    ultimately show ?thesis using w3(2) by blast
  qed
qed

lemma control_bits:
  assumes r: "reads s r (c # bs)"
  shows "if c then (case bs of [] \<Rightarrow> xorReadControl r = Inl io_EOF
      | d # bs' \<Rightarrow> \<exists>r'. xorReadControl r = Inr ((True, d), r') \<and> reads s r' bs')
    else \<exists>r'. xorReadControl r = Inr ((False, False), r') \<and> reads s r' bs"
proof (cases "2 \<le> r_valid r")
  case True
  moreover from this obtain d bs' where bs: "bs = d # bs'" using reads_length[OF r] by (cases bs) auto
  have "Peek r 2 = of_bool c * 2 + of_bool d"
    using Peek_reads[OF r True] bs by (cases c; cases d) (simp_all add: bits_val_def)
  then show ?thesis using True Skip_reads[OF r, of 1] Skip_reads[OF r True] bs
    by (cases c; cases d) (simp_all add: xorReadControl_def Buffered_def)
next
  case False
  from ReadBit_reads[OF r] obtain r1 where r1: "ReadBit r = Inr (c, r1)" "reads s r1 bs" by auto
  from ReadBit_reads[OF r1(2)] show ?thesis using False r1
    by (cases c; cases bs) (auto simp: xorReadControl_def Buffered_def)
qed

lemma small_field: "n < 2 ^ k \<Longrightarrow> k \<le> 63 \<Longrightarrow> unat (take_bit k (of_nat n :: u64)) = n"
proof -
  assume a: "n < 2 ^ k" "k \<le> 63"
  have "n < 2 ^ 64" using a power_increasing[of k 64 "2 :: nat"] by linarith
  then show ?thesis using a by (simp add: unsigned_take_bit_eq unat_of_nat take_bit_nat_eq_self)
qed

lemma xorReadWindow_new:
  assumes r: "reads s r (msb_bits 5 (of_nat nl :: u64) @ msb_bits 6 (of_nat (64 - nl - nt) :: u64) @ m)"
    and n: "nl \<le> 31" "nl + nt \<le> 63"
  shows "\<exists>r'. xorReadWindow r True l t = Inr ((nt, 64 - nl - nt, nl, nt), r') \<and> reads s r' m"
proof -
  let ?sig = "64 - nl - nt"
  from ReadBits_enc[OF r] obtain r2 where
    r2: "ReadBits r 5 = Inr (take_bit 5 (of_nat nl), r2)" "reads s r2 (msb_bits 6 (of_nat ?sig :: u64) @ m)" by auto
  from ReadBits_enc[OF r2(2)] obtain r3 where
    r3: "ReadBits r2 6 = Inr (take_bit 6 (of_nat ?sig), r3)" "reads s r3 m" by auto
  have lead: "unat (take_bit 5 (of_nat nl :: u64)) = nl" using n by (intro small_field) simp_all
  have sig: "(if unat (take_bit 6 (of_nat ?sig :: u64)) = 0 then 64 else unat (take_bit 6 (of_nat ?sig :: u64))) = ?sig"
  proof (cases "?sig = 64")
    case True
    then show ?thesis unfolding True by (simp add: take_bit_eq_mod)
  next
    case False
    then have "?sig < 2 ^ 6" by simp
    from small_field[OF this] show ?thesis using n by simp
  qed
  have "sub8 (sub8 64 nl) ?sig = nt" "\<not> nl + ?sig > 64" using n by simp_all
  then have "xorReadWindow r True l t = Inr ((nt, ?sig, nl, nt), r3)"
    unfolding xorReadWindow_def r2(1) r3(1) attempt_simps prod.case Let_def lead sig by simp
  then show ?thesis using r3(2) by blast
qed

lemma xorRead_enc:
  assumes inv: "xor_inv l t" and b: "xor_bits (new XOR cur) l t = (b, l', t')" and r: "reads s r (b @ rest)"
  shows "\<exists>r'. xorRead r cur l t = Inr ((new, l', t'), r') \<and> reads s r' rest"
proof -
  let ?u = "new XOR cur"
  let ?nl = "clamped ?u" and ?nt = "TrailingZeros64 ?u"
  have inverse: "cur XOR ?u = new" by (rule bit_word_eqI) (auto simp: bit_simps)
  consider "?u = 0" | "?u \<noteq> 0" "l \<noteq> 0xff \<and> ?nl \<ge> l \<and> ?nt \<ge> t" | "?u \<noteq> 0" "\<not> (l \<noteq> 0xff \<and> ?nl \<ge> l \<and> ?nt \<ge> t)" by blast
  then show ?thesis
  proof cases
    case 1
    then have e: "b = [False]" "l' = l" "t' = t" using b by (simp_all add: xor_bits_def)
    from control_bits[of s r False rest] r e obtain r' where "xorReadControl r = Inr ((False, False), r')" "reads s r' rest" by auto
    then show ?thesis using e 1 inverse by (simp add: xorRead_def)
  next
    case 2
    let ?sig = "64 - l - t"
    have e: "b = [True, False] @ msb_bits ?sig (drop_bit t ?u)" "l' = l" "t' = t" using b 2 by (auto simp: xor_bits_def Let_def)
    have f: "fits l t ?u" using 2 inv clamped_fits(1)[OF 2(1)] by (auto simp: fits_def clamped_def xor_inv_def split: if_splits)
    from control_bits[of s r True "False # msb_bits ?sig (drop_bit t ?u) @ rest"] r e obtain r1 where
      r1: "xorReadControl r = Inr ((True, False), r1)" "reads s r1 (msb_bits ?sig (drop_bit t ?u) @ rest)" by auto
    from ReadBits_enc[OF r1(2)] obtain r2 where r2: "ReadBits r1 ?sig = Inr (drop_bit t ?u, r2)" "reads s r2 rest"
      using fits_window(1)[OF f] by auto
    have "l + t \<le> 63" using f by (simp add: fits_def)
    then have "xorReadWindow r1 False l t = Inr ((t, ?sig, l, t), r1)" by (simp add: xorReadWindow_def)
    then show ?thesis using r1(1) r2 e fits_window(2)[OF f] inverse by (simp add: xorRead_def)
  next
    case 3
    let ?sig = "64 - ?nl - ?nt"
    have f: "fits ?nl ?nt ?u" using clamped_fits(1)[OF 3(1)] .
    have e: "b = [True, True] @ msb_bits 5 (of_nat ?nl :: u64) @ msb_bits 6 (of_nat ?sig :: u64) @ msb_bits ?sig (drop_bit ?nt ?u)"
      "l' = ?nl" "t' = ?nt" using b 3 by (auto simp: xor_bits_def Let_def split: if_splits)
    define m where "m = msb_bits ?sig (drop_bit ?nt ?u) @ rest"
    from control_bits[of s r True "True # msb_bits 5 (of_nat ?nl :: u64) @ msb_bits 6 (of_nat ?sig :: u64) @ m"] r e obtain r1 where
      r1: "xorReadControl r = Inr ((True, True), r1)" "reads s r1 (msb_bits 5 (of_nat ?nl :: u64) @ msb_bits 6 (of_nat ?sig :: u64) @ m)"
      by (auto simp: m_def)
    have "?nl + ?nt \<le> 63" using f by (simp add: fits_def)
    from xorReadWindow_new[OF r1(2) clamped_fits(2) this] obtain r3 where
      r3: "xorReadWindow r1 True l t = Inr ((?nt, ?sig, ?nl, ?nt), r3)" "reads s r3 m" by blast
    from ReadBits_enc[OF r3(2)[unfolded m_def]] obtain r4 where
      r4: "ReadBits r3 ?sig = Inr (drop_bit ?nt ?u, r4)" "reads s r4 rest" using fits_window(1)[OF f] by auto
    then show ?thesis using r1(1) r3(1) r4 e(2,3) fits_window(2)[OF f] inverse by (simp add: xorRead_def)
  qed
qed

subsection \<open>Columns read back\<close>

fun xors_bits :: "u64 \<Rightarrow> nat \<Rightarrow> nat \<Rightarrow> u64 list \<Rightarrow> bool list" where
  "xors_bits prev l t [] = []"
| "xors_bits prev l t (v # vs) = (case xor_bits (v XOR prev) l t of (b, l', t') \<Rightarrow> b @ xors_bits v l' t' vs)"

lemma xor_bits_pos: "xor_bits u l t = (b, l', t') \<Longrightarrow> 1 \<le> length b"
  by (auto simp: xor_bits_def Let_def split: if_splits)

lemma xors_bits_length: "length vs \<le> length (xors_bits prev l t vs)"
proof (induction vs arbitrary: prev l t)
  case (Cons v vs)
  obtain b l' t' where b: "xor_bits (v XOR prev) l t = (b, l', t')" by (rule prod_cases3)
  then show ?case using xor_bits_pos[OF b] Cons.IH[of v l' t'] by simp
qed simp

lemma xor_writes_writes:
  "writes w bs \<Longrightarrow> xor_inv l t \<Longrightarrow> \<exists>w'. xor_writes w prev l t vs = Inr w' \<and> writes w' (bs @ xors_bits prev l t vs)"
proof (induction vs arbitrary: w bs prev l t)
  case (Cons v vs)
  obtain b l' t' where b: "xor_bits (v XOR prev) l t = (b, l', t')" by (rule prod_cases3)
  obtain w' where w': "xorWrite w v prev l t = Inr (w', l', t')" "writes w' (bs @ b)" "xor_inv l' t'"
    using xorWrite_writes[OF Cons.prems b] by blast
  then show ?case using Cons.IH[OF w'(2,3), of v] b by simp
qed simp

lemma xor_inv_next: "xor_inv l t \<Longrightarrow> xor_bits u l t = (b, l', t') \<Longrightarrow> xor_inv l' t'"
  using clamped_fits[of u] by (auto simp: xor_bits_def xor_inv_def fits_def Let_def split: if_splits)

lemma xor_reads_enc:
  "reads s r (xors_bits prev l t vs @ rest) \<Longrightarrow> xor_inv l t \<Longrightarrow>
   \<exists>r'. xor_reads (length vs) r prev l t = Inr (vs, r') \<and> reads s r' rest"
proof (induction vs arbitrary: r prev l t)
  case (Cons v vs)
  obtain b l' t' where b: "xor_bits (v XOR prev) l t = (b, l', t')" by (rule prod_cases3)
  then have "reads s r (b @ (xors_bits v l' t' vs @ rest))" using Cons.prems(1) by simp
  from xorRead_enc[OF Cons.prems(2) b this] obtain r1 where
    r1: "xorRead r prev l t = Inr ((v, l', t'), r1)" "reads s r1 (xors_bits v l' t' vs @ rest)" by blast
  then show ?case using Cons.IH[OF r1(2) xor_inv_next[OF Cons.prems(2) b]] by auto
qed simp

definition floats_bits :: "u64 list \<Rightarrow> bool list" where
  "floats_bits vals = (case vals of [] \<Rightarrow> [] | v # vs \<Rightarrow> msb_bits 64 v @ xors_bits v 0xff 0 vs)"

lemma floats_bits_length: "length vals \<le> length (floats_bits vals)"
  using xors_bits_length by (auto simp: floats_bits_def le_SucI trans_le_add2 split: list.splits)

lemma EncodeFloats_bytes:
  "\<exists>p pad. EncodeFloats dst vals = Inr (dst @ AppendUvarint [] (of_nat (length vals)) @ p) \<and>
     stream_bits p = floats_bits vals @ replicate pad False \<and> pad < 8"
proof -
  let ?n = "of_nat (length vals) :: u64" and ?w = "fst (writeHeader dst (length vals))"
  have h: "writes ?w (stream_bits dst @ stream_bits (AppendUvarint [] ?n))" by (rule writeHeader_writes)
  have w: "WriteUvarint (NewWriter dst) ?n = ?w" by (simp add: writeHeader_def Let_def)
  show ?thesis
  proof (cases vals)
    case Nil
    then show ?thesis using writeHeader_bytes[of dst 0]
      by (auto simp: EncodeFloats_def writeHeader_def Let_def floats_bits_def)
  next
    case (Cons v vs)
    obtain w1 where w1: "WriteBits ?w v 64 = Inr w1" "writes w1 ((stream_bits dst @ stream_bits (AppendUvarint [] ?n)) @ msb_bits 64 v)"
      using WriteBits_put[OF h, of 64 64 v] by auto
    obtain w2 where w2: "xor_writes w1 v 0xff 0 vs = Inr w2"
        "writes w2 (((stream_bits dst @ stream_bits (AppendUvarint [] ?n)) @ msb_bits 64 v) @ xors_bits v 0xff 0 vs)"
      using xor_writes_writes[OF w1(2), of "0xff" 0 v vs] by (auto simp: xor_inv_def)
    have "EncodeFloats dst vals = Inr (Bytes (PadToByte w2))"
      unfolding EncodeFloats_def Let_def w using Cons w1(1) w2(1) by simp
    moreover have "writes w2 (stream_bits dst @ stream_bits (AppendUvarint [] ?n) @ floats_bits vals)"
      using w2(2) Cons by (simp add: floats_bits_def)
    ultimately show ?thesis using column_bytes by auto
  qed
qed

lemma Reset_empty: "Reader_Reset empty_reader b = NewReader b"
  by (simp add: Reader_Reset_def empty_reader_def NewReader_def)

lemma DecodeFloats_enc:
  assumes p: "stream_bits p = floats_bits vals @ replicate pad False" "pad < 8" and n: "length vals < 2 ^ 63"
  shows "DecodeFloats dst (AppendUvarint [] (of_nat (length vals)) @ p @ rest) =
    Inr (if vals = [] then dst else vals, length (AppendUvarint [] (of_nat (length vals) :: u64)) + length p)"
proof -
  let ?h = "AppendUvarint [] (of_nat (length vals) :: u64)" and ?z = "replicate pad False @ stream_bits rest"
  note hd = readHeaderInto_enc[OF n, of "p @ rest" "Some empty_reader"]
  have len: "8 * length p = length (floats_bits vals) + pad" using arg_cong[OF p(1), of length] by simp
  show ?thesis
  proof (cases vals)
    case Nil
    then have "p = []" using len p(2) by (cases p) (simp_all add: floats_bits_def)
    then show ?thesis using hd Nil by (simp add: DecodeFloats_def)
  next
    case (Cons v vs)
    have "int (length vals) \<le> 8 * (int (length (?h @ p @ rest)) - int (length ?h))"
      using floats_bits_length[of vals] len by simp
    note bound = boundRows_ok[OF this]
    have "reads (p @ rest) (NewReader (p @ rest)) (msb_bits 64 v @ (xors_bits v 0xff 0 vs @ ?z))"
      using column_reads[OF p(1)] Cons by (simp add: floats_bits_def)
    from ReadBits_enc[OF this] obtain r1 where
      r1: "ReadBits (NewReader (p @ rest)) 64 = Inr (v, r1)" "reads (p @ rest) r1 (xors_bits v 0xff 0 vs @ ?z)"
      by (auto simp: take_bit_word_eq_self)
    from xor_reads_enc[OF r1(2)] obtain r2 where
      r2: "xor_reads (length vs) r1 v 0xff 0 = Inr (vs, r2)" "reads (p @ rest) r2 ?z" by (auto simp: xor_inv_def)
    have "nat (1 + int (length vs)) - 1 = length vs" by simp
    then show ?thesis using hd bound column_consumed[OF r2(2) p(2)] Cons r1(1) r2(1)
      by (simp add: DecodeFloats_def Reset_empty)
  qed
qed

text \<open>C7. A float column reads back bit for bit: encoding appends to its destination without a panic, and
  decoding what was appended, whatever follows it, returns the same bit patterns and the number of bytes
  they took, for every sequence of 64-bit patterns, infinities, NaNs and signed zeros included.\<close>

theorem floats_round_trip:
  assumes "length vals < 2 ^ 63"
  shows "\<exists>e. EncodeFloats pre vals = Inr (pre @ e) \<and>
    DecodeFloats dst (e @ rest) = Inr (if vals = [] then dst else vals, length e)"
proof -
  obtain p pad where p: "EncodeFloats pre vals = Inr (pre @ AppendUvarint [] (of_nat (length vals)) @ p)"
    "stream_bits p = floats_bits vals @ replicate pad False" "pad < 8"
    using EncodeFloats_bytes by blast
  then show ?thesis using DecodeFloats_enc[OF p(2,3) assms] by auto
qed

text \<open>One, minus zero, a NaN and one again.\<close>

theorem floats_round_trip_witness:
  "\<exists>e. EncodeFloats [9] [0x3ff0000000000000, 0x8000000000000000, 0x7ff8000000000001, 0x3ff0000000000000] = Inr ([9] @ e) \<and>
    DecodeFloats [] (e @ [3]) = Inr ([0x3ff0000000000000, 0x8000000000000000, 0x7ff8000000000001, 0x3ff0000000000000], length e)"
  using floats_round_trip[of "[0x3ff0000000000000, 0x8000000000000000, 0x7ff8000000000001, 0x3ff0000000000000]" "[9]" "[]" "[3]"]
  by simp

subsection \<open>Corrupt columns\<close>

lemma sane_xorReadControl: "sane s xorReadControl"
proof (rule saneI)
  fix r bs assume r: "reads s r bs"
  show "(\<exists>x r' bs'. xorReadControl r = Inr (x, r') \<and> reads s r' bs' \<and> length bs' \<le> length bs) \<or>
      (\<exists>e. xorReadControl r = Inl e \<and> e \<noteq> Panic)"
  proof (cases bs)
    case Nil
    then have "r_valid r = 0" using reads_length[OF r] by simp
    then show ?thesis using ReadBit_reads[OF r] Nil by (simp add: xorReadControl_def Buffered_def)
  next
    case (Cons c bs')
    then have r': "reads s r (c # bs')" using r by simp
    consider "\<not> c" | "c" "bs' = []" | d bs2 where "c" "bs' = d # bs2" by (cases c; cases bs') auto
    then show ?thesis
    proof cases
      case 1
      then obtain r1 where "xorReadControl r = Inr ((False, False), r1)" "reads s r1 bs'" using control_bits[OF r'] by auto
      then show ?thesis using Cons by (intro disjI1 exI[of _ "(False, False)"] exI[of _ r1] exI[of _ bs']) simp
    next
      case (3 d bs2)
      then obtain r1 where "xorReadControl r = Inr ((True, d), r1)" "reads s r1 bs2" using control_bits[OF r'] by auto
      then show ?thesis using Cons 3 by (intro disjI1 exI[of _ "(True, d)"] exI[of _ r1] exI[of _ bs2]) simp
    qed (use control_bits[OF r'] in simp)
  qed
qed

lemma xorReadWindow_width: "xorReadWindow r ctrl1 l t = Inr ((nt, sig, l', t'), r') \<Longrightarrow> sig \<le> 64"
  by (auto simp: xorReadWindow_def attempt_eq_Inr Let_def not_less split: if_splits)

lemma sane_xorReadWindow: "sane s (\<lambda>r. xorReadWindow r ctrl1 l t)"
  unfolding xorReadWindow_def Let_def by (intro sane_intros) simp_all

lemma sane_xorRead: "sane s (\<lambda>r. xorRead r val l t)"
proof -
  have w: "sane s (\<lambda>r. attempt (xorReadWindow r c l t) (\<lambda>(x, r). attempt (ReadBits r (fst (snd x)))
      (\<lambda>(m, r). Inr ((val XOR push_bit (fst x) m, fst (snd (snd x)), snd (snd (snd x))), r))))" for c
  proof (rule sane_attempt_if[where P = "\<lambda>x. fst (snd x) \<le> 64"])
    show "fst (snd x) \<le> 64" if "xorReadWindow r c l t = Inr (x, r')" for r x r'
      using xorReadWindow_width that by (cases x) auto
  qed (rule sane_xorReadWindow, intro sane_intros)
  have "sane s (\<lambda>r. attempt (xorReadControl r) (\<lambda>(x, r). if \<not> fst x then Inr ((val, l, t), r)
      else attempt (xorReadWindow r (snd x) l t) (\<lambda>(x, r). attempt (ReadBits r (fst (snd x)))
        (\<lambda>(m, r). Inr ((val XOR push_bit (fst x) m, fst (snd (snd x)), snd (snd (snd x))), r)))))"
    by (intro sane_attempt[OF sane_xorReadControl] sane_if sane_Inr w)
  then show ?thesis by (simp add: xorRead_def case_prod_unfold cong: if_cong)
qed

lemma sane_xor_reads: "sane s (\<lambda>r. xor_reads k r val l t)"
proof (induction k arbitrary: val l t)
  case (Suc k)
  have "sane s (\<lambda>r. attempt (xorRead r val l t) (\<lambda>(x, r).
      attempt (xor_reads k r (fst x) (fst (snd x)) (snd (snd x))) (\<lambda>(vs, r). Inr (fst x # vs, r))))"
    by (intro sane_intros sane_xorRead Suc)
  then show ?case by (simp add: case_prod_unfold)
qed (simp add: sane_Inr)

lemma DecodeFloats_header:
  "DecodeFloats dst src = attempt (readHeader src) (\<lambda>(r, rows, consumed).
     if rows = 0 then Inr (dst, consumed)
     else attempt (boundRows rows (8 * (int (length src) - int consumed))) (\<lambda>_.
       attempt (ReadBits r 64) (\<lambda>(v0, r). attempt (xor_reads (nat rows - 1) r v0 0xff 0) (\<lambda>(vs, r).
         Inr (v0 # vs, consumed + ConsumedBytes r)))))"
  by (cases "header_readUvarint \<lparr>br_data = src, br_off = 0\<rparr>")
    (auto simp: DecodeFloats_def readHeader_def readHeaderInto_def Reset_empty)

lemma DecodeFloats_no_panic: "DecodeFloats dst src \<noteq> Inl Panic"
proof (cases "readHeader src")
  case (Inr y)
  then obtain r rows consumed where h: "readHeader src = Inr (r, rows, consumed)" by (cases y) auto
  then have r: "reads (drop consumed src) r (stream_bits (drop consumed src))"
    using NewReader_reads readHeader_reader by metis
  have "sane (drop consumed src) (\<lambda>r. attempt (ReadBits r 64) (\<lambda>(v0, r).
      attempt (xor_reads (nat rows - 1) r v0 0xff 0) (\<lambda>(vs, r). Inr (v0 # vs, r))))"
    by (intro sane_intros sane_xor_reads) simp
  from saneD(1)[OF this r] h show ?thesis
    by (auto simp: DecodeFloats_header boundRows_def attempt_def split: sum.splits if_splits)
qed (use readHeader_no_panic(2)[of src] in \<open>auto simp: DecodeFloats_header\<close>)

subsection \<open>The cursor yields the column\<close>

interpretation gorilla: cursor gd_rows gd_i GorillaDecoder_Next
  by unfold_locales (auto simp: GorillaDecoder_Next_def attempt_eq_Inr split: if_splits)

lemma gorilla_rest:
  "0 < gd_i d \<Longrightarrow> gd_i d + int k \<le> gd_rows d \<Longrightarrow>
   yields (collect GorillaDecoder_Next k d) = yields (xor_reads k (gd_r d) (gd_val d) (gd_leading d) (gd_trailing d))"
proof (induction k arbitrary: d)
  case (Suc k)
  show ?case
  proof (cases "xorRead (gd_r d) (gd_val d) (gd_leading d) (gd_trailing d)")
    case (Inl e)
    then show ?thesis using Suc.prems by (simp add: GorillaDecoder_Next_def)
  next
    case (Inr y)
    obtain v l t r where y: "y = ((v, l, t), r)" by (metis prod.collapse)
    let ?d = "d\<lparr>gd_val := v, gd_leading := l, gd_trailing := t, gd_r := r, gd_i := gd_i d + 1\<rparr>"
    have "GorillaDecoder_Next d = Inr (v, ?d)" using Inr y Suc.prems by (simp add: GorillaDecoder_Next_def)
    then show ?thesis using Suc.IH[of ?d] Suc.prems Inr y by (simp add: yields_Cons)
  qed
qed simp

text \<open>C36. The forward cursor over a float column yields, row by row, exactly what decoding the column at
  once returns, and fails exactly where that fails and with the same error, on every byte string.\<close>

theorem gorilla_cursor_decodes_column:
  "attempt (NewGorillaDecoder src) (\<lambda>d. yields (collect GorillaDecoder_Next (nat (gd_rows d)) d)) =
   yields (DecodeFloats [] src)"
proof (cases "readHeader src")
  case (Inr y)
  then obtain r rows consumed where h: "readHeader src = Inr (r, rows, consumed)" by (cases y) auto
  let ?b = "boundRows rows (8 * (int (length src) - int consumed))"
  consider "rows = 0" | "rows \<noteq> 0" "?b = Inl errUnexpectedEOF" | "0 < rows" "?b = Inr ()"
    unfolding boundRows_def by (cases "rows < 0 \<or> rows > 8 * (int (length src) - int consumed)"; cases "rows = 0") auto
  then show ?thesis
  proof cases
    case 3
    then obtain k where k: "nat rows = Suc k" by (metis gr0_conv_Suc zero_less_nat_eq)
    then have rows: "rows = int k + 1" by linarith
    show ?thesis
    proof (cases "ReadBits r 64")
      case (Inr z)
      then obtain v r1 where z: "ReadBits r 64 = Inr (v, r1)" by (cases z) simp
      let ?d = "\<lparr>gd_r = r1, gd_rows = rows, gd_i = 1, gd_val = v, gd_leading = 0xff, gd_trailing = 0\<rparr>"
      from gorilla_rest[of ?d k] show ?thesis using h 3 z k rows
        by (simp add: NewGorillaDecoder_def DecodeFloats_header GorillaDecoder_Next_def yields_Cons)
    qed (use h 3 k rows in \<open>simp add: NewGorillaDecoder_def DecodeFloats_header GorillaDecoder_Next_def\<close>)
  qed (use h in \<open>simp_all add: NewGorillaDecoder_def DecodeFloats_header\<close>)
qed (simp add: NewGorillaDecoder_def DecodeFloats_header)

end
