(* ===== verification/Int_Columns.thy ===== *)
theory Int_Columns
  imports Gorilla
begin

text \<open>
  The T64 integer codec of \<^verbatim>\<open>src/encoding/chunk/t64.go\<close>: blocks of 64 values as a bit matrix, transposed,
  without the high bits all values of the column share. The reader rebuilds those from the least and the
  greatest value, which the column starts with.
\<close>

subsection \<open>Words as bytes\<close>

text \<open>\<^verbatim>\<open>binary.LittleEndian.PutUint64\<close> and \<^verbatim>\<open>binary.LittleEndian.Uint64\<close>.\<close>

definition LittleEndian_PutUint64 :: "u64 \<Rightarrow> bytes" where
  "LittleEndian_PutUint64 u = map (\<lambda>b. ucast (drop_bit (8 * b) u)) [0..<8]"

definition le_word :: "u64 list \<Rightarrow> u64" where
  "le_word bs = foldl (\<lambda>v b. v OR push_bit (8 * b) (bs ! b)) 0 [0..<8]"

definition LittleEndian_Uint64 :: "bytes \<Rightarrow> u64" where
  "LittleEndian_Uint64 b = le_word (map ucast b)"

subsection \<open>The codec\<close>

definition t64BlockSize :: nat where "t64BlockSize = 64"

definition valuableBits :: "u64 \<Rightarrow> u64 \<Rightarrow> bool \<Rightarrow> nat" where
  "valuableBits umin umax signedStraddle =
     (if umin = umax then 0
      else
        (let nb = 64 - LeadingZeros64 (umin XOR umax)
         in if signedStraddle then (if nb + 1 > 64 then 64 else nb + 1) else nb))"

definition t64_row :: "i64 list \<Rightarrow> nat \<Rightarrow> u64" where
  "t64_row vals p = foldl (\<lambda>row i. if (vals ! i) AND push_bit p 1 \<noteq> 0 then row OR push_bit i 1 else row) 0 [0..<length vals]"

definition t64EncodeBlock :: "Writer \<Rightarrow> i64 list \<Rightarrow> nat \<Rightarrow> Writer" where
  "t64EncodeBlock w vals numBits =
     foldl (\<lambda>w p. let row = t64_row vals p
        in foldl (\<lambda>w b. WriteByte w (ucast (drop_bit (8 * b) row))) (WriteByte w (ucast row)) [1..<8])
       w [0..<numBits]"

function t64_encode_blocks :: "Writer \<Rightarrow> i64 list \<Rightarrow> nat \<Rightarrow> Writer" where
  "t64_encode_blocks w vals numBits =
     (if vals = [] then w
      else t64_encode_blocks (t64EncodeBlock w (take t64BlockSize vals) numBits) (drop t64BlockSize vals) numBits)"
  by pat_completeness auto
termination
  by (relation "measure (\<lambda>(_, vals, _). length vals)") (auto simp: t64BlockSize_def)

declare t64_encode_blocks.simps [simp del]

fun column_range :: "i64 \<Rightarrow> i64 \<Rightarrow> i64 list \<Rightarrow> i64 \<times> i64" where
  "column_range lo hi [] = (lo, hi)"
| "column_range lo hi (v # vs) =
     column_range (if sint v < sint lo then v else lo) (if sint hi < sint v then v else hi) vs"

definition EncodeIntsT64 :: "bytes \<Rightarrow> i64 list \<Rightarrow> bytes" where
  "EncodeIntsT64 dst vals =
     (let w = WriteUvarint (NewWriter dst) (of_nat (length vals)) in
      case vals of
        [] \<Rightarrow> Bytes (PadToByte w)
      | v # vs \<Rightarrow>
          (let (minVal, maxVal) = column_range v v vs;
               header = LittleEndian_PutUint64 minVal @ LittleEndian_PutUint64 maxVal;
               w = foldl WriteByte w header;
               numBits = valuableBits minVal maxVal (sint minVal < 0 \<and> sint maxVal \<ge> 0)
           in if numBits = 0 then Bytes (PadToByte w)
              else Bytes (PadToByte (t64_encode_blocks w vals numBits))))"

fun read_octets :: "nat \<Rightarrow> Reader \<Rightarrow> CodecError + u64 list \<times> Reader" where
  "read_octets 0 r = Inr ([], r)"
| "read_octets (Suc k) r = attempt (ReadBits r 8) (\<lambda>(b, r). attempt (read_octets k r) (\<lambda>(bs, r). Inr (b # bs, r)))"

fun read_t64_rows :: "nat \<Rightarrow> Reader \<Rightarrow> CodecError + u64 list \<times> Reader" where
  "read_t64_rows 0 r = Inr ([], r)"
| "read_t64_rows (Suc k) r =
     attempt (read_octets 8 r) (\<lambda>(bs, r). attempt (read_t64_rows k r) (\<lambda>(rows, r). Inr (le_word bs # rows, r)))"

definition t64_value :: "u64 list \<Rightarrow> nat \<Rightarrow> i64 \<Rightarrow> i64 \<Rightarrow> nat \<Rightarrow> i64" where
  "t64_value rows numBits minVal maxVal i =
     (let upperMin = minVal AND NOT (push_bit numBits 1 - 1);
          signedStraddle = (sint minVal < 0 \<and> sint maxVal \<ge> 0);
          upperMax = maxVal AND NOT (push_bit numBits 1 - 1);
          signBit = push_bit (numBits - 1) 1;
          v = foldl (\<lambda>v p. if (rows ! p) AND push_bit i 1 \<noteq> 0 then v OR push_bit p 1 else v) 0 [0..<numBits]
      in if signedStraddle then (if v AND signBit \<noteq> 0 then v OR upperMin else v OR upperMax) else v OR upperMin)"

definition t64DecodeBlock :: "Reader \<Rightarrow> nat \<Rightarrow> nat \<Rightarrow> i64 \<Rightarrow> i64 \<Rightarrow> CodecError + i64 list \<times> Reader" where
  "t64DecodeBlock r n numBits minVal maxVal =
     attempt (read_t64_rows numBits r) (\<lambda>(rows, r). Inr (map (t64_value rows numBits minVal maxVal) [0..<n], r))"

function t64_decode_blocks :: "Reader \<Rightarrow> nat \<Rightarrow> nat \<Rightarrow> i64 \<Rightarrow> i64 \<Rightarrow> CodecError + i64 list \<times> Reader" where
  "t64_decode_blocks r n numBits minVal maxVal =
     (if n = 0 then Inr ([], r)
      else attempt (t64DecodeBlock r (min t64BlockSize n) numBits minVal maxVal) (\<lambda>(vs, r).
        attempt (t64_decode_blocks r (n - t64BlockSize) numBits minVal maxVal) (\<lambda>(vs', r). Inr (vs @ vs', r))))"
  by pat_completeness auto
termination
  by (relation "measure (\<lambda>(_, n, _). n)") (auto simp: t64BlockSize_def)

declare t64_decode_blocks.simps [simp del]

definition DecodeIntsT64 :: "i64 list \<Rightarrow> bytes \<Rightarrow> int \<Rightarrow> CodecError + i64 list \<times> nat" where
  "DecodeIntsT64 dst src rows =
     attempt (readHeaderRows src rows) (\<lambda>(r, rows, consumed).
       if rows = 0 then Inr (dst, consumed)
       else
         attempt (read_octets 8 r) (\<lambda>(minBytes, r).
         attempt (read_octets 8 r) (\<lambda>(maxBytes, r).
           let minVal = LittleEndian_Uint64 (map ucast minBytes);
               maxVal = LittleEndian_Uint64 (map ucast maxBytes);
               numBits = valuableBits minVal maxVal (sint minVal < 0 \<and> sint maxVal \<ge> 0)
           in if numBits = 0 then Inr (replicate (nat rows) minVal, consumed + ConsumedBytes r)
              else
                attempt (boundRows rows (8 * (int (length src) - int consumed))) (\<lambda>_.
                attempt (t64_decode_blocks r (nat rows) numBits minVal maxVal) (\<lambda>(vs, r).
                  Inr (vs, consumed + ConsumedBytes r))))))"

subsection \<open>Words and bits\<close>

lemma or_fold_singles:
  "bit (foldl (\<lambda>acc i. if Q i then acc OR push_bit i 1 else acc) a [0..<n]) j \<longleftrightarrow> bit a j \<or> (j < n \<and> j < 64 \<and> Q j)" for a :: u64
  by (induction n) (auto simp: bit_simps less_Suc_eq)

lemma or_fold_octets:
  "bit (foldl (\<lambda>v b. v OR push_bit (8 * b) (f b)) a [0..<n]) j \<longleftrightarrow>
   bit a j \<or> (\<exists>b < n. 8 * b \<le> j \<and> j < 64 \<and> bit (f b) (j - 8 * b))" for a :: u64
  by (induction n) (auto simp: bit_simps less_Suc_eq)

lemma PutUint64_length [simp]: "length (LittleEndian_PutUint64 u) = 8"
  by (simp add: LittleEndian_PutUint64_def)

lemma le_word_PutUint64: "le_word (map ucast (LittleEndian_PutUint64 u)) = u"
proof (rule bit_word_eqI)
  fix j assume "j < LENGTH(64)"
  then have j: "j < 64" by simp
  have "bit (le_word (map ucast (LittleEndian_PutUint64 u))) j \<longleftrightarrow>
      (\<exists>b < 8. 8 * b \<le> j \<and> bit (map ucast (LittleEndian_PutUint64 u) ! b :: u64) (j - 8 * b))"
    using j by (simp add: le_word_def or_fold_octets)
  also have "\<dots> \<longleftrightarrow> (\<exists>b < 8. 8 * b \<le> j \<and> j - 8 * b < 8 \<and> bit u j)"
    using j by (intro ex_cong1 conj_cong refl) (auto simp: LittleEndian_PutUint64_def bit_simps)
  also have "\<dots> \<longleftrightarrow> bit u j" using j by (auto intro!: exI[of _ "j div 8"])
  finally show "bit (le_word (map ucast (LittleEndian_PutUint64 u))) j = bit u j" .
qed

lemma LittleEndian_Uint64_Put: "LittleEndian_Uint64 (LittleEndian_PutUint64 u) = u"
  by (simp add: LittleEndian_Uint64_def le_word_PutUint64)

lemma and_single: "(v AND push_bit p 1 \<noteq> 0) = bit v p" for v :: u64
  by (simp add: push_bit_of_1 and_exp_eq_0_iff_not_bit)

lemma t64_row_bit: "bit (t64_row vals p) i \<longleftrightarrow> i < length vals \<and> i < 64 \<and> bit (vals ! i) p"
  unfolding t64_row_def and_single or_fold_singles by simp

lemma t64_value_bits:
  fixes u :: u64 and rows :: "u64 list"
  assumes "\<forall>p < n. bit (rows ! p) i = bit u p" "n \<le> 64"
  shows "foldl (\<lambda>v p. if (rows ! p) AND push_bit i 1 \<noteq> 0 then v OR push_bit p 1 else v) 0 [0..<n] = take_bit n u"
  unfolding and_single by (rule bit_word_eqI) (use assms in \<open>auto simp: or_fold_singles bit_simps\<close>)

subsection \<open>The bits a column shares\<close>

lemma LeadingZeros64_top: "bit u 63 \<Longrightarrow> LeadingZeros64 u = 0"
proof -
  have "rev [0..<64] = 63 # rev [0..<63]" by (simp add: upt_rec)
  then show "bit u 63 \<Longrightarrow> ?thesis" by (simp only: LeadingZeros64_def) simp
qed

text \<open>Between two words that agree from bit \<open>n\<close> up, every word agrees with them there.\<close>

lemma between_shares_high_bits:
  fixes a b u :: u64
  assumes "\<forall>i. n \<le> i \<longrightarrow> bit a i = bit b i" "a \<le> u" "u \<le> b"
  shows "drop_bit n u = drop_bit n a"
proof -
  have "drop_bit n a = drop_bit n b" by (rule bit_word_eqI) (use assms(1) in \<open>auto simp: bit_simps\<close>)
  moreover have "unat (drop_bit n x) = unat x div 2 ^ n" for x :: u64 
    using unsigned_less[of x, where 'a = nat] by (simp add: unsigned_drop_bit_eq drop_bit_nat_def take_bit_nat_eq_self)
  moreover have "unat a div 2 ^ n \<le> unat u div 2 ^ n" "unat u div 2 ^ n \<le> unat b div 2 ^ n"
    using assms(2,3) by (auto simp: word_le_nat_alt intro: div_le_mono)
  ultimately show ?thesis by (metis le_antisym word_unat_eq_iff)
qed

lemma same_sign_order:
  fixes a b :: i64
  assumes "sint a \<le> sint b" "sint a < 0 \<longleftrightarrow> sint b < 0"
  shows "a \<le> b"
proof -
  have "uint x = sint x + (if sint x < 0 then 2 ^ 64 else 0)" for x :: i64
  proof -
    have x: "uint x = sint x mod 2 ^ 64" by (simp add: uint_sint take_bit_eq_mod)
    have "- (2 ^ 63) \<le> sint x" "sint x < 2 ^ 63" using sint_ge[of x] sint_lt[of x] by simp_all
    then show ?thesis using x mod_add_self2[of "sint x" "2 ^ 64"] mod_pos_pos_trivial[of "sint x + 2 ^ 64" "2 ^ 64"]
      by (cases "sint x < 0") simp_all
  qed
  then show ?thesis using assms by (auto simp: word_le_def)
qed

lemma sign_bit: "bit x 63 \<longleftrightarrow> sint x < 0" for x :: i64
  by (simp add: bit_last_iff[where 'a = 64, simplified])

lemma column_range_bounds:
  "column_range lo hi vs = (lo', hi') \<Longrightarrow> sint lo' \<le> sint lo \<and> sint hi \<le> sint hi' \<and> (\<forall>v \<in> set vs. sint lo' \<le> sint v \<and> sint v \<le> sint hi')"
proof (induction vs arbitrary: lo hi)
  case (Cons v vs)
  from Cons.IH[OF Cons.prems[simplified]] show ?case by (auto split: if_splits)
qed simp

lemma valuableBits_bound: "valuableBits a b s \<le> 64"
  by (simp add: valuableBits_def Let_def)

text \<open>The reader of a row gets the value back from its low bits and the range of the column.\<close>

lemma t64_value_correct:
  fixes lo hi u :: i64 and rows :: "u64 list"
  defines "n \<equiv> valuableBits lo hi (sint lo < 0 \<and> sint hi \<ge> 0)"
  assumes "sint lo \<le> sint u" "sint u \<le> sint hi" and rows: "\<forall>p < n. bit (rows ! p) i = bit u p"
  shows "t64_value rows n lo hi i = u"
proof -
  have n: "n \<le> 64" by (simp add: n_def valuableBits_bound)
  have m: "push_bit n 1 - 1 = (mask n :: u64)" by (simp add: push_bit_of_1 mask_eq_exp_minus_1)
  have merge: "take_bit n u OR x AND NOT (mask n) = u" if "drop_bit n u = drop_bit n x" for x :: i64
  proof (rule bit_word_eqI)
    fix j assume "j < LENGTH(64)"
    have "bit u j = bit x j" if "n \<le> j"
      using arg_cong[OF \<open>drop_bit n u = drop_bit n x\<close>, of "\<lambda>w. bit w (j - n)"] that by (simp add: bit_drop_bit_eq)
    then show "bit (take_bit n u OR x AND NOT (mask n)) j = bit u j"
      using \<open>j < LENGTH(64)\<close> by (cases "n \<le> j") (auto simp: bit_simps)
  qed
  show ?thesis
  proof (cases "sint lo < 0 \<and> sint hi \<ge> 0")
    case True
    then have "bit (lo XOR hi) 63" "lo \<noteq> hi" using sign_bit[of lo] sign_bit[of hi] by (auto simp: bit_simps)
    then have "n = 64" using LeadingZeros64_top True by (simp add: n_def valuableBits_def)
    then have "drop_bit n u = drop_bit n lo" "drop_bit n u = drop_bit n hi" by (auto intro!: bit_word_eqI simp: bit_simps)
    then show ?thesis unfolding t64_value_def Let_def t64_value_bits[OF rows n] m using merge True by auto
  next
    case False
    then have "lo \<le> u" "u \<le> hi" using assms(2,3) by (auto intro!: same_sign_order)
    moreover have "\<forall>i. n \<le> i \<longrightarrow> bit lo i = bit hi i"
    proof (intro allI impI)
      fix i assume i: "n \<le> i"
      show "bit lo i = bit hi i"
      proof (cases "i < 64 \<and> lo \<noteq> hi")
        case True
        then have "\<not> bit (lo XOR hi) i" using i False by (intro LeadingZeros64_zero) (auto simp: n_def valuableBits_def)
        then show ?thesis by (simp add: bit_simps)
      qed (auto dest: bit_imp_le_length)
    qed
    ultimately have "drop_bit n u = drop_bit n lo" by (intro between_shares_high_bits)
    then show ?thesis unfolding t64_value_def Let_def t64_value_bits[OF rows n] m using merge False by auto
  qed
qed

subsection \<open>Blocks as bytes\<close>

definition block_bytes :: "i64 list \<Rightarrow> nat \<Rightarrow> bytes" where
  "block_bytes vals n = concat (map (\<lambda>p. LittleEndian_PutUint64 (t64_row vals p)) [0..<n])"

lemma write_row: "foldl (\<lambda>w b. WriteByte w (ucast (drop_bit (8 * b) row))) (WriteByte w (ucast row)) [1..<8] =
    foldl WriteByte w (LittleEndian_PutUint64 row)"
proof -
  have "[0..<8] = 0 # [1..<8]" by (simp add: upt_rec)
  then show ?thesis by (simp add: LittleEndian_PutUint64_def foldl_map del: upt_Suc)
qed

lemma t64EncodeBlock_bytes: "t64EncodeBlock w vals n = foldl WriteByte w (block_bytes vals n)"
  unfolding t64EncodeBlock_def Let_def write_row block_bytes_def
  by (induction n) simp_all

function blocks_bytes :: "i64 list \<Rightarrow> nat \<Rightarrow> bytes" where
  "blocks_bytes vals n = (if vals = [] then [] else block_bytes (take t64BlockSize vals) n @ blocks_bytes (drop t64BlockSize vals) n)"
  by pat_completeness auto
termination
  by (relation "measure (\<lambda>(vals, _). length vals)") (auto simp: t64BlockSize_def)

declare blocks_bytes.simps [simp del]

lemma t64_encode_blocks_bytes: "t64_encode_blocks w vals n = foldl WriteByte w (blocks_bytes vals n)"
proof (induction w vals n rule: t64_encode_blocks.induct)
  case (1 w vals n)
  then show ?case
    by (cases "vals = []") (simp_all add: t64_encode_blocks.simps[of w] blocks_bytes.simps[of vals n] blocks_bytes.simps[of "[]" n] t64EncodeBlock_bytes)
qed

lemma read_octets_enc:
  "reads s r (stream_bits p @ rest) \<Longrightarrow> \<exists>r'. read_octets (length p) r = Inr (map ucast p, r') \<and> reads s r' rest"
proof (induction p arbitrary: r)
  case (Cons b p)
  have "msb_bits 8 b = msb_bits 8 (ucast b :: u64)" by (rule msb_ucast[symmetric]) simp
  then have "reads s r (msb_bits 8 (ucast b :: u64) @ (stream_bits p @ rest))" using Cons.prems by simp
  from ReadBits_enc[OF this] obtain r1 where r1: "ReadBits r 8 = Inr (take_bit 8 (ucast b), r1)" "reads s r1 (stream_bits p @ rest)"
    by auto
  have "take_bit 8 (ucast b :: u64) = ucast b" by (rule bit_word_eqI) (auto simp: bit_simps dest: bit_imp_le_length)
  then show ?case using r1 Cons.IH[OF r1(2)] by auto
qed auto

lemma read_t64_rows_enc:
  "reads s r (stream_bits (concat (map LittleEndian_PutUint64 rows)) @ rest) \<Longrightarrow>
   \<exists>r'. read_t64_rows (length rows) r = Inr (rows, r') \<and> reads s r' rest"
proof (induction rows arbitrary: r)
  case (Cons row rows)
  have "reads s r (stream_bits (LittleEndian_PutUint64 row) @ (stream_bits (concat (map LittleEndian_PutUint64 rows)) @ rest))"
    using Cons.prems by simp
  from read_octets_enc[OF this] obtain r1 where r1: "read_octets 8 r = Inr (map ucast (LittleEndian_PutUint64 row), r1)"
    "reads s r1 (stream_bits (concat (map LittleEndian_PutUint64 rows)) @ rest)" by auto
  then show ?case using Cons.IH[OF r1(2)] by (auto simp: le_word_PutUint64)
qed auto

lemma t64DecodeBlock_enc:
  fixes lo hi :: i64
  assumes n: "n = valuableBits lo hi (sint lo < 0 \<and> sint hi \<ge> 0)"
    and vals: "length vals \<le> 64" "\<forall>v \<in> set vals. sint lo \<le> sint v \<and> sint v \<le> sint hi"
    and r: "reads s r (stream_bits (block_bytes vals n) @ rest)"
  shows "\<exists>r'. t64DecodeBlock r (length vals) n lo hi = Inr (vals, r') \<and> reads s r' rest"
proof -
  let ?rows = "map (t64_row vals) [0..<n]"
  have "concat (map LittleEndian_PutUint64 ?rows) = block_bytes vals n" by (simp add: block_bytes_def comp_def)
  then obtain r' where r': "read_t64_rows n r = Inr (?rows, r')" "reads s r' rest" using read_t64_rows_enc[of s r ?rows rest] r by auto
  have "t64_value ?rows n lo hi i = vals ! i" if "i < length vals" for i
    unfolding n using vals that by (intro t64_value_correct) (auto simp: t64_row_bit)
  then have "map (t64_value ?rows n lo hi) [0..<length vals] = vals" by (intro nth_equalityI) simp_all
  then show ?thesis using r' by (simp add: t64DecodeBlock_def)
qed

lemma t64_decode_blocks_enc:
  fixes lo hi :: i64
  assumes "n = valuableBits lo hi (sint lo < 0 \<and> sint hi \<ge> 0)"
    "\<forall>v \<in> set vals. sint lo \<le> sint v \<and> sint v \<le> sint hi" "reads s r (stream_bits (blocks_bytes vals n) @ rest)"
  shows "\<exists>r'. t64_decode_blocks r (length vals) n lo hi = Inr (vals, r') \<and> reads s r' rest"
  using assms
proof (induction vals n arbitrary: r rule: blocks_bytes.induct)
  case (1 vals n)
  show ?case
  proof (cases "vals = []")
    case False
    let ?b = "take t64BlockSize vals" and ?vs = "drop t64BlockSize vals"
    have r: "reads s r (stream_bits (block_bytes ?b n) @ (stream_bits (blocks_bytes ?vs n) @ rest))"
      using 1(4) False by (simp add: blocks_bytes.simps[of vals])
    have b: "length ?b \<le> 64" "\<forall>v \<in> set ?b. sint lo \<le> sint v \<and> sint v \<le> sint hi"
      using 1(3) by (auto simp: t64BlockSize_def dest: in_set_takeD)
    from t64DecodeBlock_enc[OF 1(2) b r] obtain r1 where r1: "t64DecodeBlock r (length ?b) n lo hi = Inr (?b, r1)"
        "reads s r1 (stream_bits (blocks_bytes ?vs n) @ rest)" by blast
    have "\<forall>v \<in> set ?vs. sint lo \<le> sint v \<and> sint v \<le> sint hi" using 1(3) by (auto dest: in_set_dropD)
    from 1(1)[OF False 1(2) this r1(2)] obtain r2 where "t64_decode_blocks r1 (length ?vs) n lo hi = Inr (?vs, r2)" "reads s r2 rest" by blast
    then show ?thesis using r1(1) False by (simp add: t64_decode_blocks.simps[of r] min.commute)
  qed (use 1 in \<open>simp add: blocks_bytes.simps[of "[]"] t64_decode_blocks.simps[of r]\<close>)
qed

lemma blocks_bytes_length: "0 < n \<Longrightarrow> length vals \<le> 8 * length (blocks_bytes vals n)"
proof (induction vals n rule: blocks_bytes.induct)
  case (1 vals n)
  have "length (block_bytes vs n) = 8 * n" for vs by (simp add: block_bytes_def length_concat comp_def sum_list_triv)
  then show ?case using 1
    by (cases "vals = []") (auto simp: blocks_bytes.simps[of vals] t64BlockSize_def)
qed

text \<open>The payload of a column after its row count.\<close>

definition ints_bytes :: "i64 list \<Rightarrow> bytes" where
  "ints_bytes vals =
     (case vals of
        [] \<Rightarrow> []
      | v # vs \<Rightarrow>
          (let (lo, hi) = column_range v v vs; n = valuableBits lo hi (sint lo < 0 \<and> sint hi \<ge> 0)
           in LittleEndian_PutUint64 lo @ LittleEndian_PutUint64 hi @ (if n = 0 then [] else blocks_bytes vals n)))"

lemma aligned_bytes: "writes w (stream_bits b) \<Longrightarrow> Bytes (PadToByte w) = b"
  by (drule aligned_writer) (simp add: NewWriter_def PadToByte_def Bytes_def)

lemma EncodeIntsT64_bytes: "EncodeIntsT64 dst vals = dst @ AppendUvarint [] (of_nat (length vals)) @ ints_bytes vals"
proof -
  let ?w = "WriteUvarint (NewWriter dst) (of_nat (length vals))"
  let ?h = "dst @ AppendUvarint [] (of_nat (length vals) :: u64)"
  have "writes ?w (stream_bits ?h)" using WriteUvarint_writes[OF NewWriter_writes] by simp
  then have w: "Bytes (PadToByte (foldl WriteByte ?w p)) = ?h @ p" for p
    using WriteByte_fold[of ?w "stream_bits ?h" p] by (intro aligned_bytes) simp
  show ?thesis
  proof (cases vals)
    case Nil
    then show ?thesis using w[of "[]"] by (simp add: EncodeIntsT64_def ints_bytes_def)
  next
    case (Cons v vs)
    obtain lo hi where lohi: "column_range v v vs = (lo, hi)" by fastforce
    then show ?thesis using w[of "ints_bytes vals"] Cons
      by (cases "valuableBits lo hi (sint lo < 0 \<and> sint hi \<ge> 0) = 0")
        (simp_all add: EncodeIntsT64_def ints_bytes_def Let_def t64_encode_blocks_bytes)
  qed
qed

lemma map_ucast_octets [simp]: "map ucast (map ucast p :: u64 list) = p" for p :: bytes
proof -
  have "ucast (ucast b :: u64) = b" for b :: u8 by (rule bit_word_eqI) (auto simp: bit_simps)
  then show ?thesis by (simp add: comp_def)
qed

lemma valuableBits_0: "valuableBits a b s = 0 \<longleftrightarrow> a = b"
proof -
  have "LeadingZeros64 (a XOR b) < 64" if "a \<noteq> b"
  proof (rule ccontr)
    assume "\<not> LeadingZeros64 (a XOR b) < 64"
    then have "\<not> bit (a XOR b) i" if "i < 64" for i using that by (intro LeadingZeros64_zero) simp_all
    then have "a = b" by (intro bit_word_eqI) (auto simp: bit_simps)
    then show False using that by simp
  qed
  then show ?thesis by (auto simp: valuableBits_def Let_def)
qed

lemma DecodeIntsT64_enc:
  assumes "length vals < 2 ^ 63"
  shows "DecodeIntsT64 dst (AppendUvarint [] (of_nat (length vals)) @ ints_bytes vals @ rest) (int (length vals)) =
    Inr (if vals = [] then dst else vals, length (AppendUvarint [] (of_nat (length vals) :: u64)) + length (ints_bytes vals))"
proof (cases vals)
  case Nil
  then show ?thesis using readHeaderRows_enc[of 0 rest] by (simp add: DecodeIntsT64_def ints_bytes_def)
next
  case (Cons v vs)
  let ?h = "AppendUvarint [] (of_nat (length vals) :: u64)" and ?p = "ints_bytes vals"
  obtain lo hi where lohi: "column_range v v vs = (lo, hi)" by fastforce
  define n where "n = valuableBits lo hi (sint lo < 0 \<and> sint hi \<ge> 0)"
  define blocks where "blocks = (if n = 0 then [] else blocks_bytes vals n)"
  have p: "?p = LittleEndian_PutUint64 lo @ LittleEndian_PutUint64 hi @ blocks"
    using Cons lohi by (simp add: ints_bytes_def n_def blocks_def)
  have range: "\<forall>v \<in> set vals. sint lo \<le> sint v \<and> sint v \<le> sint hi" using column_range_bounds[OF lohi] Cons by auto
  note hd = readHeaderRows_enc[OF assms, of "?p @ rest"]
  have "reads (?p @ rest) (NewReader (?p @ rest))
      (stream_bits (LittleEndian_PutUint64 lo) @ (stream_bits (LittleEndian_PutUint64 hi) @ (stream_bits blocks @ stream_bits rest)))"
    using NewReader_reads[of "?p @ rest"] p by simp
  from read_octets_enc[OF this] obtain r1 where r1: "read_octets 8 (NewReader (?p @ rest)) = Inr (map ucast (LittleEndian_PutUint64 lo), r1)"
    "reads (?p @ rest) r1 (stream_bits (LittleEndian_PutUint64 hi) @ (stream_bits blocks @ stream_bits rest))" by auto
  from read_octets_enc[OF this(2)] obtain r2 where r2: "read_octets 8 r1 = Inr (map ucast (LittleEndian_PutUint64 hi), r2)"
    "reads (?p @ rest) r2 (stream_bits blocks @ stream_bits rest)" by auto
  have dec: "DecodeIntsT64 dst (?h @ ?p @ rest) (int (length vals)) =
      (if n = 0 then Inr (replicate (length vals) lo, length ?h + ConsumedBytes r2)
       else attempt (boundRows (int (length vals)) (8 * (int (length (?h @ ?p @ rest)) - int (length ?h)))) (\<lambda>_.
         attempt (t64_decode_blocks r2 (length vals) n lo hi) (\<lambda>(vs, r). Inr (vs, length ?h + ConsumedBytes r))))"
    unfolding DecodeIntsT64_def using hd r1(1) r2(1) Cons
    by (simp add: LittleEndian_Uint64_Put n_def[symmetric] Let_def nat_add_distrib del: map_map)
  show ?thesis
  proof (cases "n = 0")
    case True
    then have "lo = hi" by (simp add: n_def valuableBits_0)
    then have "\<forall>v \<in> set vals. v = lo" using range by (auto intro!: signed_word_eqI order_antisym)
    then have "replicate (length vals) lo = vals" by (simp add: replicate_length_same)
    then show ?thesis using dec True Cons r2(2) column_consumed[of ?p rest r2 0] by (auto simp: blocks_def)
  next
    case False
    have "int (length vals) \<le> 8 * (int (length (?h @ ?p @ rest)) - int (length ?h))"
      using blocks_bytes_length[of n vals] False p by (simp add: blocks_def)
    note bound = boundRows_ok[OF this]
    have "reads (?p @ rest) r2 (stream_bits (blocks_bytes vals n) @ stream_bits rest)" using r2(2) False by (simp add: blocks_def)
    from t64_decode_blocks_enc[OF n_def range this] obtain r3 where "t64_decode_blocks r2 (length vals) n lo hi = Inr (vals, r3)"
      "reads (?p @ rest) r3 (stream_bits rest)" by blast
    then show ?thesis using dec bound False Cons column_consumed[of ?p rest r3 0] by simp
  qed
qed

text \<open>C38. An integer column in the T64 codec reads back exactly: decoding what the encoder appended,
  whatever follows it, returns the values and the number of bytes they took, for all values of 64-bit
  integers, mixed signs and constant columns included; and a caller that asks for another number of rows
  than the column holds gets an error.\<close>

theorem ints_round_trip:
  assumes "length vals < 2 ^ 63"
  shows "\<exists>e. EncodeIntsT64 pre vals = pre @ e \<and>
    DecodeIntsT64 dst (e @ rest) rows =
      (if rows = int (length vals) then Inr (if vals = [] then dst else vals, length e) else Inl errUnexpectedEOF)"
proof -
  let ?e = "AppendUvarint [] (of_nat (length vals)) @ ints_bytes vals"
  have "DecodeIntsT64 dst (?e @ rest) rows = Inl errUnexpectedEOF" if "rows \<noteq> int (length vals)"
    using readHeaderRows_other[OF assms that] by (simp add: DecodeIntsT64_def)
  then show ?thesis using DecodeIntsT64_enc[OF assms, of dst rest] EncodeIntsT64_bytes[of pre vals] by auto
qed

theorem ints_round_trip_witness:
  "(\<exists>e. EncodeIntsT64 [9] [- 3, 0x7fffffffffffffff, 0x8000000000000000] = [9] @ e \<and>
     DecodeIntsT64 [] (e @ [1]) 3 = Inr ([- 3, 0x7fffffffffffffff, 0x8000000000000000], length e)) \<and>
   (\<exists>e. EncodeIntsT64 [] [5, 5] = e \<and> DecodeIntsT64 [] e 3 = Inl errUnexpectedEOF)"
  using ints_round_trip[of "[- 3, 0x7fffffffffffffff, 0x8000000000000000]" "[9]" "[]" "[1]" 3]
    ints_round_trip[of "[5, 5]" "[]" "[]" "[]" 3]
  by simp

subsection \<open>Corrupt columns\<close>

lemma sane_read_octets: "sane s (read_octets k)"
proof (induction k)
  case (Suc k)
  show ?case unfolding read_octets.simps by (intro sane_intros Suc) simp
qed (simp add: sane_Inr)

lemma sane_read_t64_rows: "sane s (read_t64_rows k)"
proof (induction k)
  case (Suc k)
  show ?case unfolding read_t64_rows.simps by (intro sane_intros sane_read_octets Suc)
qed (simp add: sane_Inr)

lemma sane_t64_decode_blocks: "sane s (\<lambda>r. t64_decode_blocks r n numBits lo hi)"
proof (induction n rule: less_induct)
  case (less n)
  show ?case
  proof (cases "n = 0")
    case False
    then have "sane s (\<lambda>r. t64_decode_blocks r (n - t64BlockSize) numBits lo hi)" by (intro less) (simp add: t64BlockSize_def)
    with False show ?thesis unfolding t64_decode_blocks.simps[of _ n] t64DecodeBlock_def
      by (simp add: sane_intros sane_read_t64_rows)
  qed (simp add: t64_decode_blocks.simps sane_Inr)
qed

lemma DecodeIntsT64_no_panic: "DecodeIntsT64 dst src rows \<noteq> Inl Panic"
proof (cases "readHeaderRows src rows")
  case (Inr y)
  then obtain r n consumed where h: "readHeaderRows src rows = Inr (r, n, consumed)" by (cases y) auto
  then have r: "reads (drop consumed src) r (stream_bits (drop consumed src))" using NewReader_reads readHeaderRows_reader by metis
  have b: "boundRows n m \<noteq> Inl Panic" for m by (simp add: boundRows_def)
  show ?thesis unfolding DecodeIntsT64_def h attempt_simps prod.case Let_def
    by (rule if_no_panic sane_then[OF sane_read_octets r] sane_then[OF sane_read_octets] sane_then[OF sane_t64_decode_blocks]
      attempt_no_panic[OF b] Inr_no_panic | assumption)+
qed (use readHeader_no_panic(3)[of src rows] in \<open>auto simp: DecodeIntsT64_def\<close>)

end
