(* ===== verification/Id_Columns.thy ===== *)
theory Id_Columns
  imports Columns
begin

text \<open>
  The run-length codec of 128-bit series ids of \<^verbatim>\<open>src/encoding/chunk/u128.go\<close>, and its second encoder, which
  takes runs instead of rows. The second one sizes its output first and panics where that exceeds what a
  slice can hold.
\<close>

record U128 =
  Hi :: u64
  Lo :: u64

text \<open>\<^verbatim>\<open>binary.BigEndian.PutUint64\<close>.\<close>

definition BigEndian_PutUint64 :: "u64 \<Rightarrow> bytes" where
  "BigEndian_PutUint64 u = map (\<lambda>b. ucast (drop_bit (56 - 8 * b) u)) [0..<8]"

definition u128_bytes :: "U128 \<Rightarrow> bytes" where
  "u128_bytes v = BigEndian_PutUint64 (Hi v) @ BigEndian_PutUint64 (Lo v)"

function encode_u128_runs :: "Writer \<Rightarrow> U128 list \<Rightarrow> Writer" where
  "encode_u128_runs w [] = w"
| "encode_u128_runs w (v # vs) =
     (let n = 1 + length (takeWhile (\<lambda>x. x = v) vs); w = AppendBytes w (u128_bytes v)
      in encode_u128_runs (WriteUvarint w (of_nat n)) (dropWhile (\<lambda>x. x = v) vs))"
  by pat_completeness auto
termination
  by (relation "measure (\<lambda>(_, vs). length vs)") (auto simp: le_imp_less_Suc length_dropWhile_le)

definition EncodeU128 :: "bytes \<Rightarrow> U128 list \<Rightarrow> bytes" where
  "EncodeU128 dst vals = Bytes (PadToByte (encode_u128_runs (fst (writeHeader dst (length vals))) vals))"

record U128Run =
  run_Value :: U128
  run_Count :: i64

definition max0 :: "i64 \<Rightarrow> i64" where
  "max0 c = (if sint c < 0 then 0 else c)"

text \<open>The inner loop of both passes over the runs: the rows of the group a run opens, and the runs after it.\<close>

fun run_group :: "U128 \<Rightarrow> i64 \<Rightarrow> U128Run list \<Rightarrow> i64 \<times> U128Run list" where
  "run_group v n [] = (n, [])"
| "run_group v n (r # rs) =
     (if sint (run_Count r) \<le> 0 \<or> run_Value r = v then run_group v (n + max0 (run_Count r)) rs else (n, r # rs))"

lemma run_group_length: "length (snd (run_group v n rs)) \<le> length rs"
  by (induction v n rs rule: run_group.induct) auto

function uvarintLen :: "u64 \<Rightarrow> nat" where
  "uvarintLen u = (if u \<ge> 0x80 then uvarintLen (drop_bit 7 u) + 1 else 1)"
  by pat_completeness auto
termination
proof (relation "measure unat")
  fix u :: u64 assume u: "u \<ge> 0x80"
  then have "unat u \<noteq> 0" by (simp add: unat_eq_0) (use u in auto)
  then show "(drop_bit 7 u, u) \<in> measure unat"
    using unsigned_less[of u, where 'a = nat] by (simp add: unsigned_drop_bit_eq drop_bit_nat_def take_bit_nat_eq_self)
qed simp

declare uvarintLen.simps [simp del]

definition maxInt :: int where "maxInt = 2 ^ 63 - 1"

function size_groups :: "int \<Rightarrow> U128Run list \<Rightarrow> i64 \<Rightarrow> int \<Rightarrow> nat \<Rightarrow> U128 \<Rightarrow> CodecError + i64 \<times> int \<times> nat \<times> U128" where
  "size_groups available [] rows sz groups first = Inr (rows, sz, groups, first)"
| "size_groups available (r # rs) rows sz groups first =
     (if sint (run_Count r) \<le> 0 then size_groups available rs rows sz groups first
      else
        (let first = (if groups = 0 then run_Value r else first);
             (n, rest) = run_group (run_Value r) (run_Count r) rs;
             bytes = 16 + int (uvarintLen n)
         in if bytes > available - sz then Inl Panic
            else size_groups available rest (rows + n) (sz + bytes) (groups + 1) first))"
  by pat_completeness auto
termination
  by (relation "measure (\<lambda>(_, rs, _). length rs)")
    (auto simp: less_Suc_eq_le intro: order_trans[OF _ run_group_length] dest!: arg_cong[where f = "\<lambda>p. length (snd p)"])

definition u128RunsSize :: "U128Run list \<Rightarrow> nat \<Rightarrow> CodecError + i64 \<times> int \<times> nat \<times> U128" where
  "u128RunsSize runs prefix =
     (let available = maxInt - int prefix in
      attempt (size_groups available runs 0 0 0 \<lparr>Hi = 0, Lo = 0\<rparr>) (\<lambda>(rows, sz, groups, first).
        let header = int (uvarintLen rows)
        in if header > available - sz then Inl Panic else Inr (rows, sz + header, groups, first)))"

function append_groups :: "bytes \<Rightarrow> U128Run list \<Rightarrow> bytes" where
  "append_groups dst [] = dst"
| "append_groups dst (r # rs) =
     (if sint (run_Count r) \<le> 0 then append_groups dst rs
      else
        (let (n, rest) = run_group (run_Value r) (run_Count r) rs
         in append_groups (AppendUvarint (dst @ u128_bytes (run_Value r)) n) rest))"
  by pat_completeness auto
termination
  by (relation "measure (\<lambda>(_, rs). length rs)")
    (auto simp: less_Suc_eq_le intro: order_trans[OF _ run_group_length] dest!: arg_cong[where f = "\<lambda>p. length (snd p)"])

definition EncodeU128Runs :: "bytes \<Rightarrow> U128Run list \<Rightarrow> CodecError + bytes" where
  "EncodeU128Runs dst runs =
     attempt (u128RunsSize runs (length dst)) (\<lambda>(rows, sz, groups, first).
       let dst = AppendUvarint dst rows
       in Inr (if groups = 0 then dst
               else if groups = 1 then AppendUvarint (dst @ u128_bytes first) rows
               else append_groups dst runs))"

function decode_u128_runs :: "Reader \<Rightarrow> nat \<Rightarrow> CodecError + U128 list \<times> Reader" where
  "decode_u128_runs r n =
     (if n = 0 then Inr ([], r)
      else
        attempt (ReadBytesView r 16) (\<lambda>(raw, r).
          let v = \<lparr>Hi = BigEndian_Uint64 (take 8 raw), Lo = BigEndian_Uint64 (drop 8 raw)\<rparr> in
          attempt (ReadUvarint r) (\<lambda>(runLen, r).
            if runLen = 0 \<or> runLen > of_nat n then Inl errUnexpectedEOF
            else attempt (decode_u128_runs r (n - unat runLen)) (\<lambda>(vs, r). Inr (replicate (unat runLen) v @ vs, r)))))"
  by pat_completeness auto
termination
  by (relation "measure snd") (auto simp: unat_gt_0)

declare decode_u128_runs.simps [simp del]

definition DecodeU128 :: "U128 list \<Rightarrow> bytes \<Rightarrow> int \<Rightarrow> CodecError + U128 list \<times> nat" where
  "DecodeU128 dst src rows =
     attempt (readHeaderRows src rows) (\<lambda>(r, rows, consumed).
       attempt (decode_u128_runs r (nat rows)) (\<lambda>(vs, r). Inr (vs, consumed + ConsumedBytes r)))"

subsection \<open>Ids as bytes\<close>

lemma PutUint64_be_length [simp]: "length (BigEndian_PutUint64 u) = 8" "length (u128_bytes v) = 16"
  by (simp_all add: BigEndian_PutUint64_def u128_bytes_def)

lemma BigEndian_PutUint64_bits: "stream_bits (BigEndian_PutUint64 u) = msb_bits 64 u"
proof (rule nth_equalityI)
  fix k assume "k < length (stream_bits (BigEndian_PutUint64 u))"
  then have k: "k < 64" by simp
  define q m where "q = k div 8" and "m = k mod 8"
  have qm: "k = 8 * q + m" "m < 8" "q < 8" using k by (auto simp: q_def m_def)
  have "stream_bits (BigEndian_PutUint64 u) ! k = bit (BigEndian_PutUint64 u ! q) (7 - m)"
    using k by (simp add: stream_bits_nth q_def m_def)
  also have "\<dots> = bit u (56 - 8 * q + (7 - m))" using qm by (auto simp: BigEndian_PutUint64_def bit_simps)
  also have "56 - 8 * q + (7 - m) = 63 - k" using qm by simp
  finally show "stream_bits (BigEndian_PutUint64 u) ! k = msb_bits 64 u ! k" using k by (simp add: msb_nth)
qed simp

lemma BigEndian_Uint64_Put: "BigEndian_Uint64 (BigEndian_PutUint64 u) = u"
proof -
  have "msb_bits 64 (BigEndian_Uint64 (BigEndian_PutUint64 u)) = msb_bits 64 u"
    using BigEndian_bits[of "BigEndian_PutUint64 u"] by (simp add: BigEndian_PutUint64_bits)
  from msb_eqD[OF this] show ?thesis by (intro bit_word_eqI) simp
qed

lemma u128_bytes_read: "\<lparr>Hi = BigEndian_Uint64 (take 8 (u128_bytes v)), Lo = BigEndian_Uint64 (drop 8 (u128_bytes v))\<rparr> = v"
  by (simp add: u128_bytes_def BigEndian_Uint64_Put)

text \<open>The payload of a column: one id and one count per run of equal rows.\<close>

function id_bytes :: "U128 list \<Rightarrow> bytes" where
  "id_bytes [] = []"
| "id_bytes (v # vs) =
     u128_bytes v @ AppendUvarint [] (of_nat (1 + length (takeWhile (\<lambda>x. x = v) vs))) @ id_bytes (dropWhile (\<lambda>x. x = v) vs)"
  by pat_completeness auto
termination
  by (relation "measure length") (auto simp: le_imp_less_Suc length_dropWhile_le)

lemma encode_u128_runs_bytes: "encode_u128_runs (NewWriter b) vals = NewWriter (b @ id_bytes vals)"
proof (induction vals arbitrary: b rule: id_bytes.induct)
  case (2 v vs)
  let ?n = "of_nat (1 + length (takeWhile (\<lambda>x. x = v) vs)) :: u64"
  have "AppendBytes (NewWriter b) (u128_bytes v) = NewWriter (b @ u128_bytes v)"
    using PutUint64_be_length(2)[of v] by (cases "u128_bytes v = []") (simp_all add: AppendBytes_def NewWriter_def)
  moreover have "WriteUvarint (NewWriter (b @ u128_bytes v)) ?n = NewWriter ((b @ u128_bytes v) @ AppendUvarint [] ?n)"
    using WriteUvarint_writes[OF NewWriter_writes, of "b @ u128_bytes v" ?n] by (intro aligned_writer) simp
  ultimately show ?case using 2 by simp
qed simp

lemma EncodeU128_bytes: "EncodeU128 dst vals = dst @ AppendUvarint [] (of_nat (length vals)) @ id_bytes vals"
proof -
  have "fst (writeHeader dst (length vals)) = NewWriter (dst @ AppendUvarint [] (of_nat (length vals)))"
    using writeHeader_writes[of dst "length vals"] by (intro aligned_writer) simp
  then show ?thesis by (simp add: EncodeU128_def encode_u128_runs_bytes) (simp add: NewWriter_def PadToByte_def Bytes_def)
qed

subsection \<open>Reading a column back\<close>

lemma ReadBytesView_enc:
  assumes "reads s r (stream_bits p @ stream_bits rest)" "p \<noteq> []"
  shows "\<exists>r'. ReadBytesView r (int (length p)) = Inr (p, r') \<and> reads s r' (stream_bits rest)"
  using ReadBytesView_reads[OF assms(1), of "length p"] assms(2) by (auto dest: stream_bits_inj)

lemma decode_u128_runs_enc:
  assumes "length vals < 2 ^ 63" "reads s r (stream_bits (id_bytes vals @ rest))"
  shows "\<exists>r'. decode_u128_runs r (length vals) = Inr (vals, r') \<and> reads s r' (stream_bits rest)"
  using assms
proof (induction vals arbitrary: r rule: id_bytes.induct)
  case 1
  then show ?case by (auto simp: decode_u128_runs.simps)
next
  case (2 v vs)
  let ?vs = "dropWhile (\<lambda>x. x = v) vs"
  define m where "m = 1 + length (takeWhile (\<lambda>x. x = v) vs)"
  have bytes: "id_bytes (v # vs) = u128_bytes v @ AppendUvarint [] (of_nat m) @ id_bytes ?vs" by (simp only: id_bytes.simps m_def)
  have "\<forall>x \<in> set (takeWhile (\<lambda>x. x = v) vs). x = v" by (auto dest: set_takeWhileD)
  then have "replicate (length (takeWhile (\<lambda>x. x = v) vs)) v @ ?vs = vs"
    using replicate_length_same[of "takeWhile (\<lambda>x. x = v) vs" v] by simp
  then have split: "v # vs = replicate m v @ ?vs" by (simp add: m_def)
  then have len: "length (v # vs) = m + length ?vs" by (metis length_append length_replicate)
  then have m: "unat (of_nat m :: u64) = m" using 2(2) by (intro unat_rows) simp
  have "reads s r (stream_bits (u128_bytes v) @ stream_bits (AppendUvarint [] (of_nat m) @ id_bytes ?vs @ rest))"
    using 2(3) bytes by simp
  from ReadBytesView_enc[OF this] obtain r1 where r1: "ReadBytesView r 16 = Inr (u128_bytes v, r1)"
    "reads s r1 (stream_bits (AppendUvarint [] (of_nat m)) @ stream_bits (id_bytes ?vs @ rest))"
    using PutUint64_be_length(2)[of v] by fastforce
  from ReadUvarint_enc[OF r1(2)] obtain r2 where r2: "ReadUvarint r1 = Inr (of_nat m, r2)" "reads s r2 (stream_bits (id_bytes ?vs @ rest))"
    by blast
  have "length ?vs < 2 ^ 63" using len 2(2) by linarith
  from 2(1)[OF this r2(2)] obtain r3 where r3: "decode_u128_runs r2 (length ?vs) = Inr (?vs, r3)" "reads s r3 (stream_bits rest)" by blast
  have "\<not> of_nat m > (of_nat (length (v # vs)) :: u64)" unfolding word_less_nat_alt m unat_rows[OF 2(2)] using len by simp
  moreover have "(of_nat m :: u64) \<noteq> 0" using m by (metis add_is_0 m_def unat_0 zero_neq_one)
  moreover have "length (v # vs) - unat (of_nat m :: u64) = length ?vs" using m len by simp
  ultimately have "decode_u128_runs r (length (v # vs)) = Inr (replicate m v @ ?vs, r3)"
    using r1(1) r2(1) r3(1) m by (simp add: decode_u128_runs.simps[of r] u128_bytes_read)
  then show ?case using r3(2) split by auto
qed

text \<open>C39. A column of series ids reads back exactly: decoding what the encoder appended, whatever follows
  it, returns the ids and the number of bytes they took, and a caller that asks for another number of rows
  than the column holds gets an error.\<close>

theorem ids_round_trip:
  assumes "length vals < 2 ^ 63"
  shows "\<exists>e. EncodeU128 pre vals = pre @ e \<and>
    DecodeU128 dst (e @ rest) rows = (if rows = int (length vals) then Inr (vals, length e) else Inl errUnexpectedEOF)"
proof -
  let ?h = "AppendUvarint [] (of_nat (length vals) :: u64)" and ?p = "id_bytes vals"
  have "reads (?p @ rest) (NewReader (?p @ rest)) (stream_bits (?p @ rest))" by (rule NewReader_reads)
  from decode_u128_runs_enc[OF assms this] obtain r where
    "decode_u128_runs (NewReader (?p @ rest)) (length vals) = Inr (vals, r)" "reads (?p @ rest) r (stream_bits rest)" by blast
  then have "DecodeU128 dst (?h @ ?p @ rest) (int (length vals)) = Inr (vals, length ?h + length ?p)"
    using readHeaderRows_enc[OF assms, of "?p @ rest"] column_consumed[of ?p rest r 0] by (simp add: DecodeU128_def)
  moreover have "DecodeU128 dst (?h @ ?p @ rest) rows = Inl errUnexpectedEOF" if "rows \<noteq> int (length vals)"
    using readHeaderRows_other[OF assms that] by (simp add: DecodeU128_def)
  ultimately show ?thesis using EncodeU128_bytes[of pre vals] by auto
qed

theorem ids_round_trip_witness:
  "let a = \<lparr>Hi = 1, Lo = 0xffffffffffffffff\<rparr>; b = \<lparr>Hi = 0, Lo = 2\<rparr> in
   \<exists>e. EncodeU128 [3] [a, a, b] = [3] @ e \<and> DecodeU128 [] (e @ [4]) 3 = Inr ([a, a, b], length e)"
  unfolding Let_def
  using ids_round_trip[of "[\<lparr>Hi = 1, Lo = 0xffffffffffffffff\<rparr>, \<lparr>Hi = 1, Lo = 0xffffffffffffffff\<rparr>, \<lparr>Hi = 0, Lo = 2\<rparr>]" "[3]" "[]" "[4]" 3]
  by simp

subsection \<open>Encoding from runs\<close>

definition expand :: "U128Run list \<Rightarrow> U128 list" where
  "expand runs = concat (map (\<lambda>r. replicate (nat (sint (run_Count r))) (run_Value r)) runs)"

lemma expand_simps [simp]:
  "expand [] = []" "expand (r # rs) = replicate (nat (sint (run_Count r))) (run_Value r) @ expand rs"
  by (simp_all add: expand_def)

lemma max0_count: "max0 c = of_nat (nat (sint c))"
  by (simp add: max0_def)

text \<open>A group is a maximal run of the expanded column; its count is exact modulo the width it is summed in.\<close>

lemma run_group_expand:
  assumes "run_group v n rs = (n', rest)"
  shows "\<exists>k. expand rs = replicate k v @ expand rest \<and> n' = n + of_nat k \<and> (expand rest = [] \<or> hd (expand rest) \<noteq> v)"
  using assms
proof (induction v n rs rule: run_group.induct)
  case (2 v n r rs)
  show ?case
  proof (cases "sint (run_Count r) \<le> 0 \<or> run_Value r = v")
    case True
    from 2(1)[OF this] 2(2) True obtain k where
      k: "expand rs = replicate k v @ expand rest" "n' = n + max0 (run_Count r) + of_nat k" "expand rest = [] \<or> hd (expand rest) \<noteq> v" by auto
    have "replicate (nat (sint (run_Count r))) (run_Value r) = replicate (nat (sint (run_Count r))) v" using True by auto
    then have "expand (r # rs) = replicate (nat (sint (run_Count r)) + k) v @ expand rest" using k(1) by (simp add: replicate_add)
    then show ?thesis using k(2,3) by (auto simp: max0_count intro!: exI[of _ "nat (sint (run_Count r)) + k"])
  next
    case False
    then have "hd (expand (r # rs)) = run_Value r" by (cases "nat (sint (run_Count r))") simp_all
    then show ?thesis using 2(2) False by (intro exI[of _ 0]) auto
  qed
qed simp

lemma id_bytes_run:
  assumes "0 < m" "xs = [] \<or> hd xs \<noteq> v"
  shows "id_bytes (replicate m v @ xs) = u128_bytes v @ AppendUvarint [] (of_nat m) @ id_bytes xs"
proof -
  obtain k where m: "m = Suc k" using assms(1) gr0_conv_Suc by auto
  have "takeWhile (\<lambda>x. x = v) (replicate k v @ xs) = replicate k v" "dropWhile (\<lambda>x. x = v) (replicate k v @ xs) = xs"
    using assms(2) by (cases xs; simp add: takeWhile_append dropWhile_append)+
  then show ?thesis using m by simp
qed

text \<open>The step both passes take at a run with rows.\<close>

lemma group_step:
  assumes "0 < sint (run_Count r)" "run_group (run_Value r) (run_Count r) rs = (n, rest)"
  shows "id_bytes (expand (r # rs)) = u128_bytes (run_Value r) @ AppendUvarint [] n @ id_bytes (expand rest)"
    and "of_nat (length (expand (r # rs))) = n + of_nat (length (expand rest))"
proof -
  from run_group_expand[OF assms(2)] obtain k where k: "expand rs = replicate k (run_Value r) @ expand rest"
    "n = run_Count r + of_nat k" "expand rest = [] \<or> hd (expand rest) \<noteq> run_Value r" by blast
  let ?m = "nat (sint (run_Count r)) + k"
  have e: "expand (r # rs) = replicate ?m (run_Value r) @ expand rest" using k(1) by (simp add: replicate_add)
  have c: "of_nat (nat (sint (run_Count r))) = run_Count r" using assms(1) by simp
  then have n: "n = of_nat ?m" using k(2) by simp
  show "id_bytes (expand (r # rs)) = u128_bytes (run_Value r) @ AppendUvarint [] n @ id_bytes (expand rest)"
    unfolding e n using assms(1) k(3) by (intro id_bytes_run) simp_all
  show "of_nat (length (expand (r # rs))) = n + of_nat (length (expand rest))" unfolding e n by simp
qed

lemma append_groups_bytes: "append_groups dst runs = dst @ id_bytes (expand runs)"
proof (induction dst runs rule: append_groups.induct)
  case (2 dst r rs)
  show ?case
  proof (cases "sint (run_Count r) \<le> 0")
    case False
    obtain n rest where g: "run_group (run_Value r) (run_Count r) rs = (n, rest)" by fastforce
    from 2(2)[OF False g[symmetric] refl] False g show ?thesis
      using group_step(1)[OF _ g] AppendUvarint_append[of "dst @ u128_bytes (run_Value r)" n] by simp
  qed (use 2(1) in simp)
qed simp

lemma uvarintLen_bytes: "uvarintLen u = length (AppendUvarint [] u)"
proof (induction u rule: uvarintLen.induct)
  case (1 u)
  then show ?case
    using AppendUvarint.simps[of "[]" u] AppendUvarint_append[of "[ucast u OR 0x80]" "drop_bit 7 u"] uvarintLen.simps[of u]
    by (cases "u \<ge> 0x80") simp_all
qed

definition one_run :: "U128 list \<Rightarrow> bytes" where
  "one_run vals = u128_bytes (hd vals) @ AppendUvarint [] (of_nat (length vals))"

text \<open>The sizing pass: it panics exactly if the payload is too long, and one group means one run.\<close>

lemma size_groups_empty: "expand runs = [] \<Longrightarrow> size_groups available runs rows sz groups first = Inr (rows, sz, groups, first)"
  by (induction runs) auto

lemma size_groups_runs:
  assumes "expand runs \<noteq> []"
  shows "if int (length (id_bytes (expand runs))) > available - sz then size_groups available runs rows sz groups first = Inl Panic
    else \<exists>g > groups. size_groups available runs rows sz groups first =
        Inr (rows + of_nat (length (expand runs)), sz + int (length (id_bytes (expand runs))), g, if groups = 0 then hd (expand runs) else first) \<and>
      (g = groups + 1 \<longrightarrow> id_bytes (expand runs) = one_run (expand runs))"
  using assms
proof (induction available runs rows sz groups first rule: size_groups.induct)
  case (2 available r rs rows sz groups first)
  show ?case
  proof (cases "sint (run_Count r) \<le> 0")
    case True
    then have eq: "expand (r # rs) = expand rs"
      "size_groups available (r # rs) rows sz groups first = size_groups available rs rows sz groups first" by simp_all
    show ?thesis unfolding eq using 2(1)[OF True] 2(3) unfolding eq .
  next
    case False
    obtain n rest where g: "run_group (run_Value r) (run_Count r) rs = (n, rest)" by fastforce
    have pos: "0 < sint (run_Count r)" using False by simp
    note step = group_step[OF pos g]
    have hd: "hd (expand (r # rs)) = run_Value r" using pos by (cases "nat (sint (run_Count r))") simp_all
    let ?f = "if groups = 0 then run_Value r else first" and ?b = "16 + int (uvarintLen n)"
    have eq: "size_groups available (r # rs) rows sz groups first =
        (if ?b > available - sz then Inl Panic else size_groups available rest (rows + n) (sz + ?b) (groups + 1) ?f)"
      using False g by (simp add: Let_def)
    have len: "int (length (id_bytes (expand (r # rs)))) = ?b + int (length (id_bytes (expand rest)))"
      using step(1) by (simp add: uvarintLen_bytes)
    show ?thesis
    proof (cases "expand rest = []")
      case True
      then have "id_bytes (expand (r # rs)) = one_run (expand (r # rs))" using step hd by (simp only: one_run_def) simp
      then show ?thesis using eq len hd step(2) True size_groups_empty[OF True] by (auto simp del: size_groups.simps expand_simps)
    next
      case ne: False
      show ?thesis
      proof (cases "?b > available - sz")
        case True
        then show ?thesis using eq len by (simp del: size_groups.simps expand_simps)
      next
        case fits: False
        from 2(2)[OF False refl g[symmetric] refl refl fits ne] eq len hd step(2) fits show ?thesis
          by (auto simp del: size_groups.simps expand_simps simp: add.assoc split: if_splits)
      qed
    qed
  qed
qed simp

text \<open>C40. Encoding a column of ids from its runs gives byte for byte what encoding its rows gives, for runs
  in any grouping, empty and negative ones included; it panics exactly where the result would not fit a
  slice.\<close>

theorem runs_encode_as_rows:
  "EncodeU128Runs dst runs =
     (if int (length (EncodeU128 dst (expand runs))) \<le> maxInt then Inr (EncodeU128 dst (expand runs)) else Inl Panic)"
proof -
  let ?n = "of_nat (length (expand runs)) :: u64" and ?av = "maxInt - int (length dst)"
  note enc = EncodeU128_bytes[of dst "expand runs"] AppendUvarint_append[of dst ?n]
  show ?thesis
  proof (cases "expand runs = []")
    case True
    then show ?thesis using enc size_groups_empty[OF True, of ?av 0 0 0 "\<lparr>Hi = 0, Lo = 0\<rparr>"]
      by (auto simp: EncodeU128Runs_def u128RunsSize_def Let_def uvarintLen_bytes)
  next
    case ne: False
    note sized = size_groups_runs[OF ne, of ?av 0 0 0 "\<lparr>Hi = 0, Lo = 0\<rparr>"]
    show ?thesis
    proof (cases "int (length (id_bytes (expand runs))) > ?av")
      case True
      then show ?thesis using sized enc by (simp add: EncodeU128Runs_def u128RunsSize_def)
    next
      case False
      with sized obtain g where g: "0 < g" "size_groups ?av runs 0 0 0 \<lparr>Hi = 0, Lo = 0\<rparr> =
          Inr (?n, int (length (id_bytes (expand runs))), g, hd (expand runs))"
        "g = 1 \<longrightarrow> id_bytes (expand runs) = one_run (expand runs)" by auto
      then show ?thesis using enc AppendUvarint_append[of "AppendUvarint dst ?n @ u128_bytes (hd (expand runs))" ?n]
        by (auto simp: EncodeU128Runs_def u128RunsSize_def Let_def uvarintLen_bytes append_groups_bytes one_run_def)
    qed
  qed
qed

subsection \<open>Corrupt columns\<close>

lemma sane_ReadBytesView: "sane s (\<lambda>r. ReadBytesView r 16)"
proof (rule saneI)
  fix r bs assume "reads s r bs"
  from ReadBytesView_reads[OF this, of 16]
  show "(\<exists>x r' bs'. ReadBytesView r 16 = Inr (x, r') \<and> reads s r' bs' \<and> length bs' \<le> length bs) \<or>
      (\<exists>e. ReadBytesView r 16 = Inl e \<and> e \<noteq> Panic)"
    by (auto split: if_splits) (metis length_drop diff_le_self)
qed

lemma sane_decode_u128_runs: "sane s (\<lambda>r. decode_u128_runs r n)"
proof (induction n rule: less_induct)
  case (less n)
  show ?case
  proof (cases "n = 0")
    case False
    have "sane s (\<lambda>r. decode_u128_runs r (n - unat l))" if "l \<noteq> 0" for l :: u64
      using that False by (intro less) (simp add: unat_gt_0)
    then show ?thesis unfolding decode_u128_runs.simps[of _ n] Let_def
      by (intro sane_intros sane_ReadBytesView) simp_all
  qed (simp add: decode_u128_runs.simps sane_Inr)
qed

lemma DecodeU128_no_panic: "DecodeU128 dst src rows \<noteq> Inl Panic"
proof (cases "readHeaderRows src rows")
  case (Inr y)
  then obtain r n consumed where h: "readHeaderRows src rows = Inr (r, n, consumed)" by (cases y) auto
  then have r: "reads (drop consumed src) r (stream_bits (drop consumed src))" using NewReader_reads readHeaderRows_reader by metis
  show ?thesis unfolding DecodeU128_def h attempt_simps prod.case
    by (rule sane_then[OF sane_decode_u128_runs r] Inr_no_panic)+
qed (use readHeader_no_panic(3)[of src rows] in \<open>auto simp: DecodeU128_def\<close>)

end
