(* ===== verification/Probing.thy ===== *)
theory Probing
  imports Prelude
begin

text \<open>
  Linear probing in the abstract: a table of \<open>N\<close> slots on a circle, each empty or holding an entry, and
  for every key the slot its search starts at. The laws here are those \<open>Byte_Int_Map\<close> needs of a search,
  an insertion and a deletion that moves the entries after the freed slot; they mention no arrays and no
  machine words.
\<close>

text \<open>Every entry is reached from its home over occupied slots only.\<close>

definition chained :: "nat \<Rightarrow> ('k \<Rightarrow> nat) \<Rightarrow> (nat \<Rightarrow> ('k \<times> 'v) option) \<Rightarrow> bool" where
  "chained N home s \<longleftrightarrow>
     (\<forall>i < N. \<forall>k v. s i = Some (k, v) \<longrightarrow>
        (\<exists>d < N. i = (home k + d) mod N \<and> (\<forall>t < d. s ((home k + t) mod N) \<noteq> None)))"

definition keyed_once :: "nat \<Rightarrow> (nat \<Rightarrow> ('k \<times> 'v) option) \<Rightarrow> bool" where
  "keyed_once N s \<longleftrightarrow> (\<forall>i < N. \<forall>j < N. \<forall>k v w. s i = Some (k, v) \<longrightarrow> s j = Some (k, w) \<longrightarrow> i = j)"

definition table_map :: "nat \<Rightarrow> (nat \<Rightarrow> ('k \<times> 'v) option) \<Rightarrow> 'k \<Rightarrow> 'v option" where
  "table_map N s = map_of (List.map_filter s [0..<N])"

lemma keyed_onceD: "keyed_once N s \<Longrightarrow> i < N \<Longrightarrow> j < N \<Longrightarrow> s i = Some (k, v) \<Longrightarrow> s j = Some (k, w) \<Longrightarrow> i = j"
  unfolding keyed_once_def by blast

lemma map_filter_set: "set (List.map_filter s xs) = {y. \<exists>x \<in> set xs. s x = Some y}"
  by (induction xs) (auto simp: map_filter_simps split: option.splits)

lemma map_filter_snoc: "List.map_filter s (xs @ [x]) = List.map_filter s xs @ (case s x of None \<Rightarrow> [] | Some y \<Rightarrow> [y])"
  by (simp add: map_filter_def split: option.splits)

lemma table_map_distinct: "keyed_once N s \<Longrightarrow> distinct (map fst (List.map_filter s [0..<N]))"
proof (induction N)
  case (Suc N)
  have "keyed_once N s" using Suc.prems by (simp add: keyed_once_def)
  moreover have "fst y \<notin> fst ` set (List.map_filter s [0..<N])" if "s N = Some y" for y
  proof
    assume "fst y \<in> fst ` set (List.map_filter s [0..<N])"
    then obtain i v where "i < N" "s i = Some (fst y, v)" by (auto simp: map_filter_set)
    moreover have "s N = Some (fst y, snd y)" using that by simp
    ultimately show False using keyed_onceD[OF Suc.prems, of i N] by fastforce
  qed
  ultimately show ?case using Suc.IH by (cases "s N") (simp_all add: map_filter_snoc)
qed (simp add: map_filter_simps)

lemma table_map_Some: "keyed_once N s \<Longrightarrow> table_map N s k = Some v \<longleftrightarrow> (\<exists>i < N. s i = Some (k, v))"
  using map_of_eq_Some_iff[OF table_map_distinct, of N s k v] by (auto simp: table_map_def map_filter_set)

lemma table_map_None: "keyed_once N s \<Longrightarrow> table_map N s k = None \<longleftrightarrow> (\<forall>i < N. \<forall>v. s i \<noteq> Some (k, v))"
  using table_map_Some[of N s k] by (metis not_Some_eq)

lemma keyed_once_put:
  assumes "keyed_once N s" "\<And>i v. i < N \<Longrightarrow> s i = Some (k, v) \<Longrightarrow> i = j"
  shows "keyed_once N (s(j \<mapsto> (k, w)))"
  unfolding keyed_once_def
proof (intro allI impI)
  fix i i' k' v v' assume i: "i < N" "i' < N" "(s(j \<mapsto> (k, w))) i = Some (k', v)" "(s(j \<mapsto> (k, w))) i' = Some (k', v')"
  have "x = j" if "k' = k" "x < N" "(s(j \<mapsto> (k, w))) x = Some (k', u)" for x u
    using that assms(2)[OF that(2)] by (cases "x = j") simp_all
  moreover have "i = i'" if "i \<noteq> j" "i' \<noteq> j" using that i keyed_onceD[OF assms(1) i(1,2)] by simp
  moreover have "k' = k" if "i = j \<or> i' = j" using that i by auto
  ultimately show "i = i'" using i by blast
qed

lemma table_map_put:
  assumes "keyed_once N s" "j < N" "\<And>i v. i < N \<Longrightarrow> s i = Some (k, v) \<Longrightarrow> i = j" "\<And>y. s j = Some y \<Longrightarrow> fst y = k"
  shows "table_map N (s(j \<mapsto> (k, w))) = (table_map N s)(k \<mapsto> w)"
proof (rule ext)
  fix k'
  have once: "keyed_once N (s(j \<mapsto> (k, w)))" using assms(1,3) by (rule keyed_once_put)
  have "table_map N (s(j \<mapsto> (k, w))) k' = Some x \<longleftrightarrow> ((table_map N s)(k \<mapsto> w)) k' = Some x" for x
  proof (cases "k' = k")
    case True
    then show ?thesis using assms(2,3) table_map_Some[OF once, of k x] by (auto split: if_splits)
  next
    case False
    then have "s j \<noteq> Some (k', x)" using assms(4) by force
    then show ?thesis using False table_map_Some[OF once, of k' x] table_map_Some[OF assms(1), of k' x] by auto
  qed
  then show "table_map N (s(j \<mapsto> (k, w))) k' = ((table_map N s)(k \<mapsto> w)) k'" by (metis not_Some_eq)
qed

lemma keyed_once_clear: "keyed_once N s \<Longrightarrow> keyed_once N (s(j := None))"
  by (auto simp: keyed_once_def)

lemma table_map_clear:
  assumes "keyed_once N s" "j < N" "s j = Some (k, w)"
  shows "table_map N (s(j := None)) = (table_map N s)(k := None)"
proof (rule ext)
  fix k'
  note once = keyed_once_clear[OF assms(1), of j]
  have "table_map N (s(j := None)) k' = Some x \<longleftrightarrow> ((table_map N s)(k := None)) k' = Some x" for x
  proof (cases "k' = k")
    case True
    then have "\<not> (\<exists>i < N. (s(j := None)) i = Some (k', x))" using keyed_onceD[OF assms(1) assms(2) _ assms(3)] by auto
    then show ?thesis using True table_map_Some[OF once, of k' x] by simp
  next
    case False
    then have "(s(j := None)) i = Some (k', x) \<longleftrightarrow> s i = Some (k', x)" for i using assms(3) by auto
    then show ?thesis using False table_map_Some[OF once, of k' x] table_map_Some[OF assms(1), of k' x] by simp
  qed
  then show "table_map N (s(j := None)) k' = ((table_map N s)(k := None)) k'" by (metis not_Some_eq)
qed

text \<open>The first empty slot of a search, and the freed cut \<open>e\<close> at which the circle becomes a line.\<close>

definition free_at :: "nat \<Rightarrow> nat \<Rightarrow> (nat \<Rightarrow> 'a option) \<Rightarrow> nat \<Rightarrow> bool" where
  "free_at N p s d \<longleftrightarrow> d < N \<and> s ((p + d) mod N) = None \<and> (\<forall>t < d. s ((p + t) mod N) \<noteq> None)"

definition unroll :: "nat \<Rightarrow> nat \<Rightarrow> (nat \<Rightarrow> 'a option) \<Rightarrow> nat \<Rightarrow> 'a option" where
  "unroll N e s l = s ((e + 1 + l) mod N)"

definition offset :: "nat \<Rightarrow> nat \<Rightarrow> nat \<Rightarrow> nat" where
  "offset N e p = (p + N - (e + 1)) mod N"

text \<open>On the line, entries with gaps between their home and them: only below \<open>j\<close>, and only for entries from \<open>j\<close> on.\<close>

definition gaps_below :: "nat \<Rightarrow> ('k \<Rightarrow> nat) \<Rightarrow> nat \<Rightarrow> (nat \<Rightarrow> ('k \<times> 'v) option) \<Rightarrow> bool" where
  "gaps_below N hm j r \<longleftrightarrow>
     (\<forall>l < N. \<forall>k v. r l = Some (k, v) \<longrightarrow> hm k \<le> l \<and> (\<forall>x. hm k \<le> x \<and> x < l \<and> r x = None \<longrightarrow> x < j \<and> j \<le> l))"

lemma gaps_belowD:
  "gaps_below N hm j r \<Longrightarrow> l < N \<Longrightarrow> r l = Some (k, v) \<Longrightarrow> hm k \<le> l"
  "gaps_below N hm j r \<Longrightarrow> l < N \<Longrightarrow> r l = Some (k, v) \<Longrightarrow> hm k \<le> x \<Longrightarrow> x < l \<Longrightarrow> r x = None \<Longrightarrow> x < j \<and> j \<le> l"
  unfolding gaps_below_def by blast+

locale probing =
  fixes N :: nat and home :: "'k \<Rightarrow> nat"
  assumes home_less: "home k < N"
begin

lemma N_pos: "0 < N"
  using home_less[of undefined] by simp

lemma first_free:
  assumes "p < N" "\<exists>i < N. s i = None"
  shows "\<exists>d. free_at N p s d"
proof -
  from assms(2) obtain i where i: "i < N" "s i = None" by blast
  have "(p + (i + N - p) mod N) mod N = (p + (i + N - p)) mod N" by (simp add: mod_add_right_eq)
  also have "\<dots> = i" using assms(1) i(1) by simp
  finally have "s ((p + (i + N - p) mod N) mod N) = None" using i(2) by simp
  moreover have "(i + N - p) mod N < N" using N_pos by simp
  ultimately have ex: "\<exists>d. d < N \<and> s ((p + d) mod N) = None" by blast
  define d where "d = (LEAST d. d < N \<and> s ((p + d) mod N) = None)"
  from LeastI_ex[OF ex] have "d < N \<and> s ((p + d) mod N) = None" unfolding d_def .
  moreover have "s ((p + t) mod N) \<noteq> None" if "t < d" for t
    using not_less_Least[of t "\<lambda>d. d < N \<and> s ((p + d) mod N) = None"] that \<open>d < N \<and> _\<close> by (auto simp: d_def)
  ultimately show ?thesis unfolding free_at_def by blast
qed

lemma insert_chained:
  assumes "chained N home s" "free_at N (home k) s d"
  shows "chained N home (s((home k + d) mod N \<mapsto> (k, v)))"
  unfolding chained_def
proof (intro allI impI)
  let ?j = "(home k + d) mod N" and ?s = "s((home k + d) mod N \<mapsto> (k, v))"
  fix i k' v' assume i: "i < N" "?s i = Some (k', v')"
  show "\<exists>d < N. i = (home k' + d) mod N \<and> (\<forall>t < d. ?s ((home k' + t) mod N) \<noteq> None)"
  proof (cases "i = ?j")
    case True
    then show ?thesis using i assms(2) unfolding free_at_def by (intro exI[of _ d]) auto
  next
    case False
    then have "s i = Some (k', v')" using i(2) by simp
    then obtain d' where "d' < N" "i = (home k' + d') mod N" "\<forall>t < d'. s ((home k' + t) mod N) \<noteq> None"
      using assms(1) i(1) unfolding chained_def by blast
    then show ?thesis by (intro exI[of _ d']) auto
  qed
qed

lemma found_before_free:
  assumes "chained N home s" "free_at N (home k) s d" "i < N" "s i = Some (k, v)"
  shows "\<exists>t < d. i = (home k + t) mod N"
proof -
  obtain t where t: "t < N" "i = (home k + t) mod N" "\<forall>u < t. s ((home k + u) mod N) \<noteq> None"
    using assms(1,3,4) unfolding chained_def by blast
  have "\<not> d < t" using t(3) assms(2) by (auto simp: free_at_def)
  moreover have "t \<noteq> d" using t(2) assms(2,4) by (auto simp: free_at_def)
  ultimately show ?thesis using t(2) by (intro exI[of _ t]) auto
qed

subsubsection \<open>The circle cut open\<close>

lemma offset_home: "e < N \<Longrightarrow> p < N \<Longrightarrow> (e + 1 + offset N e p) mod N = p" "offset N e p < N"
proof -
  assume "e < N" "p < N"
  have "(e + 1 + offset N e p) mod N = (e + 1 + (p + N - (e + 1))) mod N" unfolding offset_def by (rule mod_add_right_eq)
  then show "(e + 1 + offset N e p) mod N = p" using \<open>e < N\<close> \<open>p < N\<close> by simp
qed (simp add: offset_def N_pos)

lemma line_inj: "l < N \<Longrightarrow> l' < N \<Longrightarrow> (a + l) mod N = (a + l') mod N \<Longrightarrow> l = l'"
proof (induction l l' rule: linorder_wlog)
  case (le l l')
  then have "N dvd (a + l') - (a + l)" by (metis mod_eq_dvd_iff_nat add_le_mono1 add_left_mono)
  then have "N dvd l' - l" by simp
  then show ?case using le by (metis diff_is_0_eq dvd_imp_le le_antisym less_imp_diff_less linorder_not_less zero_less_iff_neq_zero)
qed simp

lemma chained_line:
  assumes "e < N" "s e = None"
  shows "chained N home s \<longleftrightarrow> gaps_below N (\<lambda>k. offset N e (home k)) 0 (unroll N e s)"
proof -
  have at: "(home k + t) mod N = (e + 1 + (offset N e (home k) + t)) mod N" for k t
    using offset_home(1)[OF assms(1) home_less[of k]] by (metis mod_add_left_eq add.assoc)
  have last: "(e + 1 + (N - 1)) mod N = e" using assms(1) by simp
  show ?thesis
  proof
    assume c: "chained N home s"
    show "gaps_below N (\<lambda>k. offset N e (home k)) 0 (unroll N e s)"
      unfolding gaps_below_def
    proof (intro allI impI)
      fix l k v assume l: "l < N" "unroll N e s l = Some (k, v)"
      let ?o = "offset N e (home k)"
      have "s ((e + 1 + l) mod N) = Some (k, v)" using l(2) by (simp add: unroll_def)
      then obtain d where d: "d < N" "(e + 1 + l) mod N = (home k + d) mod N" "\<forall>t < d. s ((home k + t) mod N) \<noteq> None"
        using c N_pos unfolding chained_def by (meson mod_less_divisor)
      have short: "?o + d < N"
      proof (rule ccontr)
        assume "\<not> ?o + d < N"
        have "?o + (N - 1 - ?o) = N - 1" using offset_home(2)[of e "home k"] by linarith
        then have "s ((home k + (N - 1 - ?o)) mod N) = None" using at[of k "N - 1 - ?o"] last assms(2) by simp
        moreover have "N - 1 - ?o < d" using \<open>\<not> ?o + d < N\<close> offset_home(2)[of e "home k"] by linarith
        ultimately show False using d(3) by blast
      qed
      then have "l = ?o + d" using line_inj[OF l(1) short, of "e + 1"] d(2) at[of k d] by simp
      moreover have "unroll N e s x \<noteq> None" if "?o \<le> x" "x < ?o + d" for x
      proof -
        have "x - ?o < d" "?o + (x - ?o) = x" using that by linarith+
        then have "s ((home k + (x - ?o)) mod N) \<noteq> None" using d(3) by blast
        then show ?thesis using at[of k "x - ?o"] \<open>?o + (x - ?o) = x\<close> by (simp add: unroll_def)
      qed
      ultimately show "?o \<le> l \<and> (\<forall>x. ?o \<le> x \<and> x < l \<and> unroll N e s x = None \<longrightarrow> x < 0 \<and> 0 \<le> l)" by auto
    qed
  next
    assume g: "gaps_below N (\<lambda>k. offset N e (home k)) 0 (unroll N e s)"
    show "chained N home s" unfolding chained_def
    proof (intro allI impI)
      fix i k v assume i: "i < N" "s i = Some (k, v)"
      let ?o = "offset N e (home k)" and ?l = "offset N e i"
      have l: "?l < N" "unroll N e s ?l = Some (k, v)" using offset_home(1)[OF assms(1) i(1)] offset_home(2) i(2) by (simp_all add: unroll_def)
      have "?o \<le> ?l" using gaps_belowD(1)[OF g l] .
      moreover have "s ((home k + t) mod N) \<noteq> None" if "t < ?l - ?o" for t
      proof -
        have "?o \<le> ?o + t" "?o + t < ?l" using that by linarith+
        then have "unroll N e s (?o + t) \<noteq> None" using gaps_belowD(2)[OF g l] by blast
        then show ?thesis using at[of k t] by (simp add: unroll_def)
      qed
      moreover have "(home k + (?l - ?o)) mod N = i" using at[of k "?l - ?o"] \<open>?o \<le> ?l\<close> offset_home(1)[OF assms(1) i(1)] by simp
      ultimately show "\<exists>d < N. i = (home k + d) mod N \<and> (\<forall>t < d. s ((home k + t) mod N) \<noteq> None)"
        using l(1) by (intro exI[of _ "?l - ?o"]) auto
    qed
  qed
qed

end

text \<open>Deletion on the line: clearing a slot opens a gap; each entry after it is taken out and put back at its
  first empty slot; where the next slot is empty, no gap is left.\<close>

lemma gaps_clear:
  assumes "gaps_below N hm 0 r"
  shows "gaps_below N hm (Suc l0) (r(l0 := None))"
  unfolding gaps_below_def
proof (intro allI impI)
  fix l k v assume l: "l < N" "(r(l0 := None)) l = Some (k, v)"
  then have r: "r l = Some (k, v)" "l \<noteq> l0" by (auto split: if_splits)
  moreover have "x < Suc l0 \<and> Suc l0 \<le> l" if "hm k \<le> x \<and> x < l \<and> (r(l0 := None)) x = None" for x
    using gaps_belowD(2)[OF assms l(1) r(1), of x] that r(2) by (cases "x = l0") auto
  ultimately show "hm k \<le> l \<and> (\<forall>x. hm k \<le> x \<and> x < l \<and> (r(l0 := None)) x = None \<longrightarrow> x < Suc l0 \<and> Suc l0 \<le> l)"
    using gaps_belowD(1)[OF assms l(1) r(1)] by blast
qed

lemma gaps_move:
  assumes g: "gaps_below N hm j r" and j: "j < N" "r j = Some (k, v)"
    and q: "hm k \<le> q" "q \<le> j" "(r(j := None)) q = None" "\<And>x. hm k \<le> x \<Longrightarrow> x < q \<Longrightarrow> (r(j := None)) x \<noteq> None"
  shows "gaps_below N hm (Suc j) (r(j := None, q \<mapsto> (k, v)))"
  unfolding gaps_below_def
proof (intro allI impI)
  let ?r = "r(j := None, q \<mapsto> (k, v))"
  fix l k' v' assume l: "l < N" "?r l = Some (k', v')"
  show "hm k' \<le> l \<and> (\<forall>x. hm k' \<le> x \<and> x < l \<and> ?r x = None \<longrightarrow> x < Suc j \<and> Suc j \<le> l)"
  proof (cases "l = q")
    case True
    then have "k' = k" using l(2) by simp
    moreover have "?r x \<noteq> None" if "hm k \<le> x" "x < q" for x using q(4)[OF that] that(2) by auto
    ultimately show ?thesis using q(1) True by metis
  next
    case False
    then have r: "r l = Some (k', v')" "l \<noteq> j" using l(2) by (auto split: if_splits)
    have "x < Suc j \<and> Suc j \<le> l" if x: "hm k' \<le> x" "x < l" "?r x = None" for x
    proof (cases "l < j")
      case True
      then have "r x = None" using x(2,3) by (auto split: if_splits)
      then show ?thesis using gaps_belowD(2)[OF g l(1) r(1) x(1,2)] True by simp
    next
      case False
      then have "x = j \<or> r x = None" using x(3) by (auto split: if_splits)
      then show ?thesis using gaps_belowD(2)[OF g l(1) r(1) x(1,2)] False r(2) by auto
    qed
    then show ?thesis using gaps_belowD(1)[OF g l(1) r(1)] by blast
  qed
qed

lemma gaps_closed:
  assumes g: "gaps_below N hm j r" and j: "r j = None"
  shows "gaps_below N hm 0 r"
  unfolding gaps_below_def
proof (intro allI impI)
  fix l k v assume l: "l < N" "r l = Some (k, v)"
  have False if x: "hm k \<le> x" "x < l" "r x = None" for x
  proof -
    have "x < j \<and> j \<le> l" using gaps_belowD(2)[OF g l x] .
    moreover have "j \<noteq> l" using j l(2) by auto
    ultimately have "j < j" using gaps_belowD(2)[OF g l, of j] x(1) j by simp
    then show False by simp
  qed
  then show "hm k \<le> l \<and> (\<forall>x. hm k \<le> x \<and> x < l \<and> r x = None \<longrightarrow> x < 0 \<and> 0 \<le> l)"
    using gaps_belowD(1)[OF g l] by blast
qed

lemma gaps_below_cong:
  assumes "\<And>x. x < N \<Longrightarrow> r x = r' x" "gaps_below N hm j r"
  shows "gaps_below N hm j r'"
  unfolding gaps_below_def
proof (intro allI impI)
  fix l k v assume l: "l < N" "r' l = Some (k, v)"
  then have r: "r l = Some (k, v)" using assms(1) by simp
  have "x < j \<and> j \<le> l" if "hm k \<le> x \<and> x < l \<and> r' x = None" for x
    using gaps_belowD(2)[OF assms(2) l(1) r, of x] assms(1)[of x] that l(1) by simp
  then show "hm k \<le> l \<and> (\<forall>x. hm k \<le> x \<and> x < l \<and> r' x = None \<longrightarrow> x < j \<and> j \<le> l)"
    using gaps_belowD(1)[OF assms(2) l(1) r] by blast
qed

context probing
begin

lemma unroll_upd:
  assumes "e < N" "l < N"
  shows "\<forall>x < N. unroll N e (s((e + 1 + l) mod N := y)) x = ((unroll N e s)(l := y)) x"
proof (intro allI impI)
  fix x assume "x < N"
  then show "unroll N e (s((e + 1 + l) mod N := y)) x = ((unroll N e s)(l := y)) x"
    using line_inj[of x l "e + 1"] assms(2) by (auto simp: unroll_def)
qed

text \<open>One step of the re-insertion loop at the occupied slot \<open>l\<close> of the line: the entry there goes to its first
  empty slot, which is not after it, so the cut stays empty.\<close>

lemma reinsert_step:
  assumes e: "e < N" "s e = None" and l: "l < N" "s ((e + 1 + l) mod N) = Some (k, v)"
    and g: "gaps_below N (\<lambda>k. offset N e (home k)) l (unroll N e s)"
    and d: "free_at N (home k) (s((e + 1 + l) mod N := None)) d"
  shows "gaps_below N (\<lambda>k. offset N e (home k)) (Suc l)
      (unroll N e (s((e + 1 + l) mod N := None, (home k + d) mod N \<mapsto> (k, v))))"
    and "(home k + d) mod N \<noteq> e"
proof -
  let ?j = "(e + 1 + l) mod N" and ?o = "offset N e (home k)" and ?r = "unroll N e s"
  let ?s = "s(?j := None)"
  have at: "(home k + t) mod N = (e + 1 + (?o + t)) mod N" for t
    using offset_home(1)[OF e(1) home_less[of k]] by (metis mod_add_left_eq add.assoc)
  have rl: "?r l = Some (k, v)" using l(2) by (simp add: unroll_def)
  have "?o \<le> l" using gaps_belowD(1)[OF g l(1) rl] .
  then have "(home k + (l - ?o)) mod N = ?j" using at[of "l - ?o"] by simp
  then have "\<not> l - ?o < d" using d unfolding free_at_def by auto
  then have q: "?o + d \<le> l" using \<open>?o \<le> l\<close> by linarith
  have line: "\<forall>x < N. unroll N e ?s x = (?r(l := None)) x" using unroll_upd[OF e(1) l(1)] .
  have free: "(?r(l := None)) (?o + d) = None" "\<And>x. ?o \<le> x \<Longrightarrow> x < ?o + d \<Longrightarrow> (?r(l := None)) x \<noteq> None"
  proof -
    have *: "(?r(l := None)) (?o + t) = ?s ((home k + t) mod N)" if "t \<le> d" for t
      using line q l(1) that at[of t] by (auto simp: unroll_def)
    show "(?r(l := None)) (?o + d) = None" using *[of d] d by (simp add: free_at_def)
    show "(?r(l := None)) x \<noteq> None" if "?o \<le> x" "x < ?o + d" for x
    proof -
      have "x - ?o < d" "?o + (x - ?o) = x" using that by linarith+
      then show ?thesis using *[of "x - ?o"] d unfolding free_at_def by (metis less_imp_le)
    qed
  qed
  have "gaps_below N (\<lambda>k. offset N e (home k)) (Suc l) (?r(l := None, ?o + d \<mapsto> (k, v)))"
    using gaps_move[OF g l(1) rl, of "?o + d"] q free by simp
  moreover have "\<forall>x < N. unroll N e (?s((home k + d) mod N \<mapsto> (k, v))) x = (?r(l := None, ?o + d \<mapsto> (k, v))) x"
    using unroll_upd[OF e(1), of "?o + d" ?s "Some (k, v)"] line q l(1) at[of d] by simp
  ultimately show "gaps_below N (\<lambda>k. offset N e (home k)) (Suc l) (unroll N e (?s((home k + d) mod N \<mapsto> (k, v))))"
    by (auto intro: gaps_below_cong[rotated])
  have "l \<noteq> N - 1" using l(2) e by auto
  then show "(home k + d) mod N \<noteq> e" using line_inj[of "?o + d" "N - 1" "e + 1"] q l(1) at[of d] e(1) by auto
qed

end

end
