(* ===== verification/Byte_Int_Map.thy ===== *)
theory Byte_Int_Map
  imports Probing
begin

text \<open>
  The open-addressing hash map from byte keys to integers of \<^verbatim>\<open>src/pool/byte_int_map.go\<close>, which the
  dictionary encoders and the symbol table are built on: linear probing over slots that double when three
  quarters are in use, and a deletion that moves the entries after the freed slot.

  The hash \<open>xxh3\<close> is a parameter. The probing loops have no bound in the code, so they are partial
  functions here: \<open>None\<close> is a loop that does not end, and an index outside the slots is \<open>Panics\<close>. The three
  slices of a map are made together and have one length, so the bounds check is on \<^verbatim>\<open>hashes\<close>; a nil key
  and an empty one are the same key.
\<close>

unbundle bit_operations_syntax

datatype 'a outcome = Returns 'a | Panics

definition thn :: "'a outcome option \<Rightarrow> ('a \<Rightarrow> 'b outcome option) \<Rightarrow> 'b outcome option" where
  "thn m f = Option.bind m (\<lambda>x. case x of Returns y \<Rightarrow> f y | Panics \<Rightarrow> Some Panics)"

lemma thn_simps [simp]: "thn (Some (Returns x)) f = f x" "thn None f = None" "thn (Some Panics) f = Some Panics"
  by (simp_all add: thn_def)

lemma thn_mono [partial_function_mono]:
  assumes "mono_option B" "\<And>y. mono_option (\<lambda>f. C y f)"
  shows "mono_option (\<lambda>f. thn (B f) (\<lambda>y. C y f))"
  unfolding thn_def
proof (rule bind_mono[OF assms(1)])
  fix x show "mono_option (\<lambda>f. case x of Returns y \<Rightarrow> C y f | Panics \<Rightarrow> Some Panics)"
    by (cases x) (simp_all add: assms(2) option.const_mono)
qed

record ByteIntMap =
  bm_keys :: "bytes list"
  bm_values :: "int list"
  bm_hashes :: "u64 list" \<comment> \<open>zero marks an empty slot\<close>
  bm_mask :: u64
  bm_count :: int
  bm_used :: int
  bm_growAt :: int

definition zero_ByteIntMap :: ByteIntMap where
  "zero_ByteIntMap = \<lparr>bm_keys = [], bm_values = [], bm_hashes = [], bm_mask = 0, bm_count = 0, bm_used = 0, bm_growAt = 0\<rparr>"

definition empty_slots :: "nat \<Rightarrow> ByteIntMap" where
  "empty_slots n = \<lparr>bm_keys = replicate n [], bm_values = replicate n 0, bm_hashes = replicate n 0,
     bm_mask = of_nat (n - 1), bm_count = 0, bm_used = 0, bm_growAt = int (n * 3 div 4)\<rparr>"

definition bm_Reset :: "ByteIntMap \<Rightarrow> ByteIntMap" where
  "bm_Reset m = m\<lparr>bm_hashes := map (\<lambda>_. 0) (bm_hashes m), bm_keys := map (\<lambda>_. []) (bm_keys m), bm_count := 0, bm_used := 0\<rparr>"

text \<open>What the pool hands out is either fresh, the zero value, or a map that was put back.\<close>

definition NewByteIntMap :: "ByteIntMap \<Rightarrow> ByteIntMap" where
  "NewByteIntMap pooled = (if bm_keys pooled = [] then pooled\<lparr>bm_keys := replicate 32 [], bm_values := replicate 32 0,
       bm_hashes := replicate 32 0, bm_mask := 31, bm_growAt := 24\<rparr> else bm_Reset pooled)"

definition bm_Len :: "ByteIntMap \<Rightarrow> int" where
  "bm_Len m = bm_count m"

definition hashKey :: "(bytes \<Rightarrow> u64) \<Rightarrow> bytes \<Rightarrow> u64" where
  "hashKey xxh3 b = (let h = xxh3 b in if h = 0 then 1 else h)"

datatype probe = Free nat | Found nat

text \<open>The loop of \<^verbatim>\<open>Get\<close>, \<^verbatim>\<open>Put\<close>, \<^verbatim>\<open>PutOrGet\<close> and \<^verbatim>\<open>Delete\<close>: the slot that ends it.\<close>

partial_function (option) find_slot :: "ByteIntMap \<Rightarrow> u64 \<Rightarrow> bytes \<Rightarrow> u64 \<Rightarrow> probe outcome option" where
  "find_slot m h b i =
     (if length (bm_hashes m) \<le> unat i then Some Panics
      else
        (let sh = bm_hashes m ! unat i in
         if sh = 0 then Some (Returns (Free (unat i)))
         else if sh = h \<and> bm_keys m ! unat i = b then Some (Returns (Found (unat i)))
         else find_slot m h b ((i + 1) AND bm_mask m)))"

text \<open>The loop of \<^verbatim>\<open>PutRaw\<close>.\<close>

partial_function (option) find_free :: "ByteIntMap \<Rightarrow> u64 \<Rightarrow> nat outcome option" where
  "find_free m i =
     (if length (bm_hashes m) \<le> unat i then Some Panics
      else if bm_hashes m ! unat i = 0 then Some (Returns (unat i))
      else find_free m ((i + 1) AND bm_mask m))"

definition fill_slot :: "ByteIntMap \<Rightarrow> nat \<Rightarrow> bytes \<Rightarrow> int \<Rightarrow> u64 \<Rightarrow> ByteIntMap" where
  "fill_slot m i b v h = m\<lparr>bm_keys := (bm_keys m)[i := b], bm_values := (bm_values m)[i := v], bm_hashes := (bm_hashes m)[i := h],
     bm_count := bm_count m + 1, bm_used := bm_used m + 1\<rparr>"

definition PutRaw :: "ByteIntMap \<Rightarrow> bytes \<Rightarrow> int \<Rightarrow> u64 \<Rightarrow> ByteIntMap outcome option" where
  "PutRaw m b v h = thn (find_free m (h AND bm_mask m)) (\<lambda>i. Some (Returns (fill_slot m i b v h)))"

fun put_slots :: "ByteIntMap \<Rightarrow> (u64 \<times> bytes \<times> int) list \<Rightarrow> ByteIntMap outcome option" where
  "put_slots m [] = Some (Returns m)"
| "put_slots m ((h, b, v) # es) = (if h \<noteq> 0 then thn (PutRaw m b v h) (\<lambda>m. put_slots m es) else put_slots m es)"

definition bm_grow :: "ByteIntMap \<Rightarrow> ByteIntMap outcome option" where
  "bm_grow m = put_slots (empty_slots (length (bm_hashes m) * 2)) (zip (bm_hashes m) (zip (bm_keys m) (bm_values m)))"

definition bm_Get :: "(bytes \<Rightarrow> u64) \<Rightarrow> ByteIntMap \<Rightarrow> bytes \<Rightarrow> (int \<times> bool) outcome option" where
  "bm_Get xxh3 m b =
     (let h = hashKey xxh3 b in
      thn (find_slot m h b (h AND bm_mask m)) (\<lambda>p. Some (Returns
        (case p of Free _ \<Rightarrow> (0, False) | Found i \<Rightarrow> (bm_values m ! i, True)))))"

definition make_room :: "ByteIntMap \<Rightarrow> ByteIntMap outcome option" where
  "make_room m = (if bm_used m + 1 > bm_growAt m then bm_grow m else Some (Returns m))"

definition bm_Put :: "(bytes \<Rightarrow> u64) \<Rightarrow> ByteIntMap \<Rightarrow> bytes \<Rightarrow> int \<Rightarrow> ((int \<times> bool) \<times> ByteIntMap) outcome option" where
  "bm_Put xxh3 m b v =
     thn (make_room m) (\<lambda>m.
       let h = hashKey xxh3 b in
       thn (find_slot m h b (h AND bm_mask m)) (\<lambda>p. Some (Returns
         (case p of
            Free i \<Rightarrow> ((v, False), fill_slot m i b v h)
          | Found i \<Rightarrow> ((bm_values m ! i, True), m\<lparr>bm_values := (bm_values m)[i := v]\<rparr>)))))"

definition PutOrGet :: "(bytes \<Rightarrow> u64) \<Rightarrow> ByteIntMap \<Rightarrow> bytes \<Rightarrow> int \<Rightarrow> ((int \<times> bool) \<times> ByteIntMap) outcome option" where
  "PutOrGet xxh3 m b v =
     thn (make_room m) (\<lambda>m.
       let h = hashKey xxh3 b in
       thn (find_slot m h b (h AND bm_mask m)) (\<lambda>p. Some (Returns
         (case p of
            Free i \<Rightarrow> ((v, False), fill_slot m i b v h)
          | Found i \<Rightarrow> ((bm_values m ! i, True), m)))))"

text \<open>The inner loop of \<^verbatim>\<open>Delete\<close>: every entry up to the next empty slot is taken out and put back.\<close>

partial_function (option) reinsert :: "ByteIntMap \<Rightarrow> u64 \<Rightarrow> ByteIntMap outcome option" where
  "reinsert m j =
     (if length (bm_hashes m) \<le> unat j then Some Panics
      else if bm_hashes m ! unat j = 0 then Some (Returns m)
      else
        (let k = bm_keys m ! unat j; v = bm_values m ! unat j; oldH = bm_hashes m ! unat j;
             m = m\<lparr>bm_keys := (bm_keys m)[unat j := []], bm_values := (bm_values m)[unat j := 0], bm_hashes := (bm_hashes m)[unat j := 0],
               bm_count := bm_count m - 1, bm_used := bm_used m - 1\<rparr>
         in thn (PutRaw m k v oldH) (\<lambda>m. reinsert m ((j + 1) AND bm_mask m))))"

definition bm_Delete :: "(bytes \<Rightarrow> u64) \<Rightarrow> ByteIntMap \<Rightarrow> bytes \<Rightarrow> (bool \<times> ByteIntMap) outcome option" where
  "bm_Delete xxh3 m b =
     (let h = hashKey xxh3 b in
      thn (find_slot m h b (h AND bm_mask m)) (\<lambda>p.
        case p of
          Free _ \<Rightarrow> Some (Returns (False, m))
        | Found i \<Rightarrow>
            (let m = m\<lparr>bm_keys := (bm_keys m)[i := []], bm_hashes := (bm_hashes m)[i := 0],
                bm_count := bm_count m - 1, bm_used := bm_used m - 1\<rparr>
             in thn (reinsert m ((of_nat i + 1) AND bm_mask m)) (\<lambda>m. Some (Returns (True, m))))))"

definition maxPooledSlots :: nat where "maxPooledSlots = 2 ^ 18"

definition PutBack :: "ByteIntMap \<Rightarrow> ByteIntMap" where
  "PutBack m = (if maxPooledSlots < length (bm_hashes m) then zero_ByteIntMap else m)"

definition ForEach :: "ByteIntMap \<Rightarrow> (bytes \<Rightarrow> int \<Rightarrow> 'a \<Rightarrow> 'a) \<Rightarrow> 'a \<Rightarrow> 'a" where
  "ForEach m fn x = foldl (\<lambda>x i. if bm_hashes m ! i \<noteq> 0 then fn (bm_keys m ! i) (bm_values m ! i) x else x) x [0..<length (bm_hashes m)]"

subsection \<open>Well-formed maps\<close>

definition bm_slot :: "ByteIntMap \<Rightarrow> nat \<Rightarrow> (bytes \<times> int) option" where
  "bm_slot m i = (if bm_hashes m ! i = 0 then None else Some (bm_keys m ! i, bm_values m ! i))"

definition bm_home :: "(bytes \<Rightarrow> u64) \<Rightarrow> nat \<Rightarrow> bytes \<Rightarrow> nat" where
  "bm_home xxh3 n b = unat (hashKey xxh3 b) mod n"

definition bm_shape :: "nat \<Rightarrow> ByteIntMap \<Rightarrow> bool" where
  "bm_shape k m \<longleftrightarrow> 2 \<le> k \<and> k \<le> 62 \<and> length (bm_hashes m) = 2 ^ k \<and> length (bm_keys m) = 2 ^ k \<and> length (bm_values m) = 2 ^ k \<and>
     bm_mask m = of_nat (2 ^ k - 1) \<and> bm_growAt m = int (2 ^ k * 3 div 4)"

definition occupied :: "ByteIntMap \<Rightarrow> nat set" where
  "occupied m = {i. i < length (bm_hashes m) \<and> bm_hashes m ! i \<noteq> 0}"

definition bm_table :: "(bytes \<Rightarrow> u64) \<Rightarrow> nat \<Rightarrow> ByteIntMap \<Rightarrow> bool" where
  "bm_table xxh3 k m \<longleftrightarrow> bm_shape k m \<and> bm_count m = bm_used m \<and> bm_used m = int (card (occupied m)) \<and>
     (\<forall>i \<in> occupied m. bm_hashes m ! i = hashKey xxh3 (bm_keys m ! i)) \<and> keyed_once (2 ^ k) (bm_slot m)"

definition bm_wf :: "(bytes \<Rightarrow> u64) \<Rightarrow> nat \<Rightarrow> ByteIntMap \<Rightarrow> bool" where
  "bm_wf xxh3 k m \<longleftrightarrow> bm_table xxh3 k m \<and> chained (2 ^ k) (bm_home xxh3 (2 ^ k)) (bm_slot m) \<and> bm_used m \<le> bm_growAt m"

definition bm_abs :: "ByteIntMap \<Rightarrow> bytes \<Rightarrow> int option" where
  "bm_abs m = table_map (length (bm_hashes m)) (bm_slot m)"

interpretation pr: probing "2 ^ k" "bm_home xxh3 (2 ^ k)" for k xxh3
  by unfold_locales (simp add: bm_home_def)

lemma bm_shapeD:
  assumes "bm_shape k m"
  shows "2 \<le> k" "k \<le> 62" "length (bm_hashes m) = 2 ^ k" "length (bm_keys m) = 2 ^ k" "length (bm_values m) = 2 ^ k"
    "bm_mask m = of_nat (2 ^ k - 1)" "bm_growAt m = int (2 ^ k * 3 div 4)"
  using assms by (simp_all add: bm_shape_def)

lemma hashKey_nz: "hashKey xxh3 b \<noteq> 0"
  by (simp add: hashKey_def Let_def)

lemma bm_slot_None: "bm_slot m i = None \<longleftrightarrow> bm_hashes m ! i = 0"
  by (simp add: bm_slot_def)

lemma bm_slot_Some: "bm_slot m i = Some (b, v) \<longleftrightarrow> bm_hashes m ! i \<noteq> 0 \<and> bm_keys m ! i = b \<and> bm_values m ! i = v"
  by (simp add: bm_slot_def)

lemma bm_slot_occupied: "i < length (bm_hashes m) \<Longrightarrow> i \<in> occupied m \<longleftrightarrow> bm_slot m i \<noteq> None"
  by (simp add: occupied_def bm_slot_def)

lemma occupied_finite [simp]: "finite (occupied m)"
  by (simp add: occupied_def)

subsection \<open>Indices\<close>

lemma slot_in_range [simp]: "\<not> 2 ^ k \<le> x mod 2 ^ k" for x :: nat
  by (simp add: not_le)

lemma mask_index:
  assumes "k \<le> 62"
  shows "unat (x AND of_nat (2 ^ k - 1) :: u64) = unat x mod 2 ^ k"
proof -
  have "(of_nat (2 ^ k - 1) :: u64) = mask k" by (simp add: mask_eq_exp_minus_1 of_nat_diff)
  then have "x AND of_nat (2 ^ k - 1) = take_bit k x" by (simp add: take_bit_eq_mask)
  then show ?thesis by (simp only: unsigned_take_bit_eq take_bit_nat_def)
qed

lemma next_index:
  assumes "k \<le> 62" "unat i = (p + t) mod 2 ^ k"
  shows "unat ((i + 1) AND of_nat (2 ^ k - 1) :: u64) = (p + Suc t) mod 2 ^ k"
proof -
  have "(2 :: nat) ^ k dvd 2 ^ 64" using assms(1) by (intro le_imp_power_dvd) simp
  then have "unat (i + 1) mod 2 ^ k = (unat i + 1) mod 2 ^ k" by (simp add: unat_word_ariths mod_mod_cancel)
  also have "\<dots> = (p + Suc t) mod 2 ^ k" using assms(2) by (simp add: mod_Suc_eq)
  finally show ?thesis using mask_index[OF assms(1), of "i + 1"] by simp
qed

subsection \<open>The loops end\<close>

lemma find_free_ends:
  assumes s: "bm_shape k m" and d: "free_at (2 ^ k) p (bm_slot m) d"
  shows "t \<le> d \<Longrightarrow> unat i = (p + t) mod 2 ^ k \<Longrightarrow> find_free m i = Some (Returns ((p + d) mod 2 ^ k))"
proof (induction "d - t" arbitrary: t i)
  case 0
  then have "bm_slot m (unat i) = None" "unat i = (p + d) mod 2 ^ k" using d by (simp_all add: free_at_def)
  then show ?case using bm_shapeD(3)[OF s] by (simp add: find_free.simps[of m i] bm_slot_None)
next
  case (Suc n)
  then have "t < d" by simp
  then have "bm_hashes m ! unat i \<noteq> 0" using d Suc.prems(2) by (simp add: free_at_def bm_slot_None del: not_None_eq)
  moreover have "find_free m ((i + 1) AND bm_mask m) = Some (Returns ((p + d) mod 2 ^ k))"
    using Suc next_index[OF bm_shapeD(2)[OF s] Suc.prems(2)] bm_shapeD(6)[OF s] by (intro Suc.hyps(1)[of "Suc t"]) simp_all
  ultimately show ?case using Suc.prems(2) bm_shapeD(3)[OF s] by (simp add: find_free.simps[of m i] bm_slot_None)
qed

lemma find_slot_free:
  assumes s: "bm_shape k m" and d: "free_at (2 ^ k) p (bm_slot m) d"
    and none: "\<And>i. i < 2 ^ k \<Longrightarrow> bm_hashes m ! i \<noteq> 0 \<Longrightarrow> bm_keys m ! i \<noteq> b"
  shows "t \<le> d \<Longrightarrow> unat i = (p + t) mod 2 ^ k \<Longrightarrow> find_slot m h b i = Some (Returns (Free ((p + d) mod 2 ^ k)))"
proof (induction "d - t" arbitrary: t i)
  case 0
  then have "bm_slot m (unat i) = None" "unat i = (p + d) mod 2 ^ k" using d by (simp_all add: free_at_def)
  then show ?case using bm_shapeD(3)[OF s] by (simp add: find_slot.simps[of m h b i] bm_slot_None)
next
  case (Suc n)
  then have "t < d" by simp
  then have "bm_hashes m ! unat i \<noteq> 0" using d Suc.prems(2) by (simp add: free_at_def bm_slot_None del: not_None_eq)
  then have "bm_hashes m ! unat i \<noteq> 0" "bm_keys m ! unat i \<noteq> b" using none[of "unat i"] Suc.prems(2) by (auto simp: bm_slot_None)
  moreover have "find_slot m h b ((i + 1) AND bm_mask m) = Some (Returns (Free ((p + d) mod 2 ^ k)))"
    using Suc next_index[OF bm_shapeD(2)[OF s] Suc.prems(2)] bm_shapeD(6)[OF s] by (intro Suc.hyps(1)[of "Suc t"]) simp_all
  ultimately show ?case using Suc.prems(2) bm_shapeD(3)[OF s] by (simp add: find_slot.simps[of m h b i])
qed

lemma find_slot_found:
  assumes s: "bm_shape k m" and d: "\<forall>t < u. bm_slot m ((p + t) mod 2 ^ k) \<noteq> None"
    and here: "bm_hashes m ! ((p + u) mod 2 ^ k) = h" "bm_keys m ! ((p + u) mod 2 ^ k) = b" "h \<noteq> 0"
    and once: "\<And>i. i < 2 ^ k \<Longrightarrow> bm_hashes m ! i \<noteq> 0 \<Longrightarrow> bm_keys m ! i = b \<Longrightarrow> i = (p + u) mod 2 ^ k"
  shows "t \<le> u \<Longrightarrow> unat i = (p + t) mod 2 ^ k \<Longrightarrow> find_slot m h b i = Some (Returns (Found ((p + u) mod 2 ^ k)))"
proof (induction "u - t" arbitrary: t i)
  case 0
  then have "unat i = (p + u) mod 2 ^ k" by simp
  then show ?case using here bm_shapeD(3)[OF s] by (simp add: find_slot.simps[of m h b i])
next
  case (Suc n)
  then have "t < u" by simp
  then have nz: "bm_hashes m ! unat i \<noteq> 0" using d Suc.prems(2) by (simp add: bm_slot_None del: not_None_eq)
  have rest: "find_slot m h b ((i + 1) AND bm_mask m) = Some (Returns (Found ((p + u) mod 2 ^ k)))"
    using Suc next_index[OF bm_shapeD(2)[OF s] Suc.prems(2)] bm_shapeD(6)[OF s] by (intro Suc.hyps(1)[of "Suc t"]) simp_all
  have "unat i < 2 ^ k" using Suc.prems(2) by simp
  then show ?case using once[OF _ nz] nz rest bm_shapeD(3)[OF s]
    by (cases "bm_keys m ! unat i = b") (simp_all add: find_slot.simps[of m h b i])
qed

subsection \<open>Filling and clearing a slot\<close>

lemma bm_tableD:
  assumes "bm_table xxh3 k m"
  shows "bm_shape k m" "bm_count m = bm_used m" "bm_used m = int (card (occupied m))" "keyed_once (2 ^ k) (bm_slot m)"
    "i < 2 ^ k \<Longrightarrow> bm_hashes m ! i \<noteq> 0 \<Longrightarrow> bm_hashes m ! i = hashKey xxh3 (bm_keys m ! i)"
  using assms by (auto simp: bm_table_def occupied_def bm_shape_def)

lemma has_room:
  assumes "bm_table xxh3 k m" "bm_used m < 2 ^ k"
  shows "\<exists>i < 2 ^ k. bm_slot m i = None"
proof (rule ccontr)
  assume "\<not> ?thesis"
  then have "occupied m = {..<2 ^ k}" using bm_shapeD(3)[OF bm_tableD(1)[OF assms(1)]] by (auto simp: occupied_def bm_slot_None)
  then show False using assms(2) bm_tableD(3)[OF assms(1)] by simp
qed

lemma bm_abs_table:
  "bm_table xxh3 k m \<Longrightarrow> bm_abs m b = Some v \<longleftrightarrow> (\<exists>i < 2 ^ k. bm_slot m i = Some (b, v))"
  "bm_table xxh3 k m \<Longrightarrow> bm_abs m b = None \<longleftrightarrow> (\<forall>i < 2 ^ k. bm_hashes m ! i \<noteq> 0 \<longrightarrow> bm_keys m ! i \<noteq> b)"
proof -
  assume t: "bm_table xxh3 k m"
  have n: "length (bm_hashes m) = 2 ^ k" using bm_shapeD(3)[OF bm_tableD(1)[OF t]] .
  show "bm_abs m b = Some v \<longleftrightarrow> (\<exists>i < 2 ^ k. bm_slot m i = Some (b, v))"
    unfolding bm_abs_def n by (rule table_map_Some[OF bm_tableD(4)[OF t]])
  show "bm_abs m b = None \<longleftrightarrow> (\<forall>i < 2 ^ k. bm_hashes m ! i \<noteq> 0 \<longrightarrow> bm_keys m ! i \<noteq> b)"
    unfolding bm_abs_def n using table_map_None[OF bm_tableD(4)[OF t], of b] by (auto simp: bm_slot_Some)
qed

lemma fill_slot_props:
  fixes v :: int
  assumes t: "bm_table xxh3 k m" and i: "i < 2 ^ k" "bm_slot m i = None" and b: "bm_abs m b = None"
  defines "m' \<equiv> fill_slot m i b v (hashKey xxh3 b)"
  shows "bm_slot m' = (bm_slot m)(i \<mapsto> (b, v))" "bm_table xxh3 k m'" "bm_used m' = bm_used m + 1" "bm_growAt m' = bm_growAt m"
    "bm_abs m' = (bm_abs m)(b \<mapsto> v)"
proof -
  note sh = bm_tableD(1)[OF t]
  note len = bm_shapeD(3,4,5)[OF sh]
  show slot: "bm_slot m' = (bm_slot m)(i \<mapsto> (b, v))"
    using len i(1) hashKey_nz by (auto simp: m'_def fill_slot_def bm_slot_def nth_list_update)
  have len': "length (bm_hashes m') = 2 ^ k" using len by (simp add: m'_def fill_slot_def)
  have occ: "occupied m' = insert i (occupied m)"
    using len i(1) hashKey_nz by (auto simp: m'_def fill_slot_def occupied_def nth_list_update)
  have new: "i \<notin> occupied m" using i(2) by (simp add: occupied_def bm_slot_None)
  have absent: "j = i" if "j < 2 ^ k" "bm_slot m j = Some (b, w)" for j w
    using that b bm_abs_table(1)[OF t, of b w] by auto
  have once: "keyed_once (2 ^ k) (bm_slot m')" unfolding slot using bm_tableD(4)[OF t] absent by (rule keyed_once_put)
  have "bm_hashes m' ! j = hashKey xxh3 (bm_keys m' ! j)" if "j \<in> occupied m'" for j
    using that bm_tableD(5)[OF t, of j] len i(1) by (auto simp: occ occupied_def m'_def fill_slot_def nth_list_update)
  moreover have "bm_shape k m'" using sh by (simp add: bm_shape_def m'_def fill_slot_def)
  ultimately show "bm_table xxh3 k m'" using once occ new bm_tableD(2,3)[OF t] by (simp add: bm_table_def m'_def fill_slot_def)
  show "bm_used m' = bm_used m + 1" "bm_growAt m' = bm_growAt m" by (simp_all add: m'_def fill_slot_def)
  show "bm_abs m' = (bm_abs m)(b \<mapsto> v)" unfolding bm_abs_def slot len' len(1)
    by (rule table_map_put[OF bm_tableD(4)[OF t] i(1)]) (use absent i(2) in auto)
qed

lemma clear_slot_props:
  assumes t: "bm_table xxh3 k m" and j: "j < 2 ^ k" "bm_slot m j = Some (b, v)"
    and vs: "length vs = 2 ^ k" "\<forall>i. i \<noteq> j \<longrightarrow> vs ! i = bm_values m ! i"
  defines "m' \<equiv> m\<lparr>bm_keys := (bm_keys m)[j := []], bm_values := vs, bm_hashes := (bm_hashes m)[j := 0],
      bm_count := bm_count m - 1, bm_used := bm_used m - 1\<rparr>"
  shows "bm_slot m' = (bm_slot m)(j := None)" "bm_table xxh3 k m'" "bm_used m' = bm_used m - 1" "bm_growAt m' = bm_growAt m"
    "bm_abs m' = (bm_abs m)(b := None)"
proof -
  note sh = bm_tableD(1)[OF t]
  note len = bm_shapeD(3,4,5)[OF sh]
  show slot: "bm_slot m' = (bm_slot m)(j := None)"
    using len j(1) vs(2) by (auto simp: m'_def bm_slot_def nth_list_update)
  have occ: "occupied m' = occupied m - {j}" using len j(1) by (auto simp: m'_def occupied_def nth_list_update)
  have old: "j \<in> occupied m" using j len by (simp add: occupied_def bm_slot_Some)
  have once: "keyed_once (2 ^ k) (bm_slot m')" unfolding slot by (rule keyed_once_clear[OF bm_tableD(4)[OF t]])
  have "bm_hashes m' ! i = hashKey xxh3 (bm_keys m' ! i)" if "i \<in> occupied m'" for i
  proof -
    from that have "i \<noteq> j" "i < 2 ^ k" "bm_hashes m ! i \<noteq> 0" unfolding occ using len by (auto simp: occupied_def)
    then show ?thesis using bm_tableD(5)[OF t, of i] by (simp add: m'_def)
  qed
  moreover have "bm_shape k m'" using sh vs(1) by (simp add: bm_shape_def m'_def)
  moreover have "int (card (occupied m - {j})) = int (card (occupied m)) - 1"
    using old by (metis card_Suc_Diff1 occupied_finite of_nat_Suc add_diff_cancel_left')
  moreover show used: "bm_used m' = bm_used m - 1" "bm_growAt m' = bm_growAt m" by (simp_all add: m'_def)
  moreover have "bm_count m' = bm_count m - 1" by (simp add: m'_def)
  ultimately show "bm_table xxh3 k m'" unfolding bm_table_def occ using once bm_tableD(2,3)[OF t] by (simp add: occ[symmetric])
  have len': "length (bm_hashes m') = 2 ^ k" using len by (simp add: m'_def)
  show "bm_abs m' = (bm_abs m)(b := None)" unfolding bm_abs_def slot len' len(1)
    by (rule table_map_clear[OF bm_tableD(4)[OF t] j])
qed

subsection \<open>Searching\<close>

lemma home_index: "bm_shape k m \<Longrightarrow> unat (hashKey xxh3 b AND bm_mask m) = (bm_home xxh3 (2 ^ k) b + 0) mod 2 ^ k"
  using mask_index[OF bm_shapeD(2), of k m "hashKey xxh3 b"] bm_shapeD(6)[of k m] by (simp add: bm_home_def)

lemma bm_wfD:
  assumes "bm_wf xxh3 k m"
  shows "bm_table xxh3 k m" "bm_shape k m" "chained (2 ^ k) (bm_home xxh3 (2 ^ k)) (bm_slot m)" "bm_used m \<le> bm_growAt m" "bm_used m < 2 ^ k"
proof -
  show w: "bm_table xxh3 k m" "chained (2 ^ k) (bm_home xxh3 (2 ^ k)) (bm_slot m)" "bm_used m \<le> bm_growAt m"
    using assms by (simp_all add: bm_wf_def)
  then show s: "bm_shape k m" by (simp add: bm_tableD)
  have "2 ^ k * 3 div 4 < (2 :: nat) ^ k" by (simp add: div_less_iff_less_mult)
  then have "int (2 ^ k * 3 div 4) < 2 ^ k" by (metis of_nat_less_iff of_nat_numeral of_nat_power)
  then show "bm_used m < 2 ^ k" using w(3) bm_shapeD(7)[OF s] by linarith
qed

lemma search_absent:
  assumes w: "bm_table xxh3 k m" "bm_used m < 2 ^ k" and b: "bm_abs m b = None"
  obtains d where "free_at (2 ^ k) (bm_home xxh3 (2 ^ k) b) (bm_slot m) d"
    "find_slot m (hashKey xxh3 b) b (hashKey xxh3 b AND bm_mask m) = Some (Returns (Free ((bm_home xxh3 (2 ^ k) b + d) mod 2 ^ k)))"
proof -
  note sh = bm_tableD(1)[OF w(1)]
  obtain d where d: "free_at (2 ^ k) (bm_home xxh3 (2 ^ k) b) (bm_slot m) d"
    using pr.first_free[OF pr.home_less has_room[OF w]] by blast
  moreover have "find_slot m (hashKey xxh3 b) b (hashKey xxh3 b AND bm_mask m) = Some (Returns (Free ((bm_home xxh3 (2 ^ k) b + d) mod 2 ^ k)))"
    using b bm_abs_table(2)[OF w(1), of b] by (intro find_slot_free[OF sh d _ _ home_index[OF sh]]) auto
  ultimately show ?thesis by (rule that)
qed

lemma search_present:
  assumes w: "bm_wf xxh3 k m" and b: "bm_abs m b = Some v"
  obtains i where "i < 2 ^ k" "bm_slot m i = Some (b, v)"
    "find_slot m (hashKey xxh3 b) b (hashKey xxh3 b AND bm_mask m) = Some (Returns (Found i))"
proof -
  note t = bm_wfD(1)[OF w]
  note sh = bm_wfD(2)[OF w]
  obtain i where i: "i < 2 ^ k" "bm_slot m i = Some (b, v)" using b bm_abs_table(1)[OF t] by blast
  obtain d where d: "free_at (2 ^ k) (bm_home xxh3 (2 ^ k) b) (bm_slot m) d"
    using pr.first_free[OF pr.home_less has_room[OF t bm_wfD(5)[OF w]]] by blast
  from pr.found_before_free[OF bm_wfD(3)[OF w] d i] obtain u where u: "u < d" "i = (bm_home xxh3 (2 ^ k) b + u) mod 2 ^ k" by blast
  have "find_slot m (hashKey xxh3 b) b (hashKey xxh3 b AND bm_mask m) = Some (Returns (Found ((bm_home xxh3 (2 ^ k) b + u) mod 2 ^ k)))"
  proof (rule find_slot_found[OF sh _ _ _ hashKey_nz _ _ home_index[OF sh]])
    show "\<forall>t < u. bm_slot m ((bm_home xxh3 (2 ^ k) b + t) mod 2 ^ k) \<noteq> None" using d u(1) by (simp add: free_at_def)
    show "bm_hashes m ! ((bm_home xxh3 (2 ^ k) b + u) mod 2 ^ k) = hashKey xxh3 b"
      "bm_keys m ! ((bm_home xxh3 (2 ^ k) b + u) mod 2 ^ k) = b"
      using i u(2) bm_tableD(5)[OF t i(1)] by (auto simp: bm_slot_Some)
    show "j = (bm_home xxh3 (2 ^ k) b + u) mod 2 ^ k" if "j < 2 ^ k" "bm_hashes m ! j \<noteq> 0" "bm_keys m ! j = b" for j
      using keyed_onceD[OF bm_tableD(4)[OF t] that(1) i(1) _ i(2)] that u(2) by (auto simp: bm_slot_Some)
  qed simp
  then show ?thesis using that[OF i] u(2) by simp
qed

lemma PutRaw_ends:
  assumes "bm_shape k m" "free_at (2 ^ k) (bm_home xxh3 (2 ^ k) b) (bm_slot m) d"
  shows "PutRaw m b v (hashKey xxh3 b) = Some (Returns (fill_slot m ((bm_home xxh3 (2 ^ k) b + d) mod 2 ^ k) b v (hashKey xxh3 b)))"
  using find_free_ends[OF assms _ home_index[OF assms(1)]] by (simp add: PutRaw_def)

text \<open>A new key in a map with room: the slot the search ends at keeps every chain.\<close>

lemma insert_wf:
  fixes v :: int
  assumes w: "bm_wf xxh3 k m" "bm_used m + 1 \<le> bm_growAt m" and b: "bm_abs m b = None"
    and d: "free_at (2 ^ k) (bm_home xxh3 (2 ^ k) b) (bm_slot m) d"
  defines "m' \<equiv> fill_slot m ((bm_home xxh3 (2 ^ k) b + d) mod 2 ^ k) b v (hashKey xxh3 b)"
  shows "bm_wf xxh3 k m'" "bm_abs m' = (bm_abs m)(b \<mapsto> v)" "bm_used m' = bm_used m + 1" "bm_growAt m' = bm_growAt m"
proof -
  note f = fill_slot_props[OF bm_wfD(1)[OF w(1)] _ _ b, of "(bm_home xxh3 (2 ^ k) b + d) mod 2 ^ k" v, folded m'_def]
  have i: "(bm_home xxh3 (2 ^ k) b + d) mod 2 ^ k < 2 ^ k" "bm_slot m ((bm_home xxh3 (2 ^ k) b + d) mod 2 ^ k) = None"
    using d by (simp_all add: free_at_def)
  show "bm_abs m' = (bm_abs m)(b \<mapsto> v)" "bm_used m' = bm_used m + 1" "bm_growAt m' = bm_growAt m" using f(3,4,5)[OF i] by simp_all
  then show "bm_wf xxh3 k m'" using f(2)[OF i] w(2) pr.insert_chained[OF bm_wfD(3)[OF w(1)] d, of v] f(1)[OF i] by (simp add: bm_wf_def)
qed

subsection \<open>Growing\<close>

definition live :: "u64 \<times> bytes \<times> int \<Rightarrow> bool" where
  "live e \<longleftrightarrow> fst e \<noteq> 0"

lemma put_slots_wf:
  assumes "bm_wf xxh3 k m" "\<forall>e \<in> set es. live e \<longrightarrow> fst e = hashKey xxh3 (fst (snd e)) \<and> bm_abs m (fst (snd e)) = None"
    "distinct (map (\<lambda>e. fst (snd e)) (filter live es))" "bm_used m + int (length (filter live es)) \<le> bm_growAt m"
  shows "\<exists>m'. put_slots m es = Some (Returns m') \<and> bm_wf xxh3 k m' \<and> bm_used m' = bm_used m + int (length (filter live es)) \<and>
    (\<forall>b v. bm_abs m' b = Some v \<longleftrightarrow> bm_abs m b = Some v \<or> (\<exists>h. (h, b, v) \<in> set es \<and> h \<noteq> 0))"
  using assms
proof (induction es arbitrary: m)
  case (Cons e es)
  obtain h b v where e: "e = (h, b, v)" by (cases e) auto
  show ?case
  proof (cases "h = 0")
    case True
    then have "\<not> live e" "put_slots m (e # es) = put_slots m es" using e by (simp_all add: live_def)
    moreover have "(\<exists>h. (h, b', v') \<in> set (e # es) \<and> h \<noteq> 0) \<longleftrightarrow> (\<exists>h. (h, b', v') \<in> set es \<and> h \<noteq> 0)" for b' v'
      using True e by auto
    ultimately show ?thesis using Cons.IH[OF Cons.prems(1)] Cons.prems(2,3,4) by simp
  next
    case False
    have lv: "live e" using e False by (simp add: live_def)
    have h: "h = hashKey xxh3 b" "bm_abs m b = None" using Cons.prems(2) e False by (auto simp: live_def)
    have room: "bm_used m + 1 \<le> bm_growAt m" using Cons.prems(4) e False by (simp add: live_def)
    from search_absent[OF bm_wfD(1,5)[OF Cons.prems(1)] h(2)] obtain d where
      d: "free_at (2 ^ k) (bm_home xxh3 (2 ^ k) b) (bm_slot m) d" by metis
    define m1 where "m1 = fill_slot m ((bm_home xxh3 (2 ^ k) b + d) mod 2 ^ k) b v (hashKey xxh3 b)"
    note i = insert_wf[OF Cons.prems(1) room h(2) d, of v, folded m1_def]
    have "PutRaw m b v h = Some (Returns m1)" unfolding h(1) m1_def by (rule PutRaw_ends[OF bm_wfD(2)[OF Cons.prems(1)] d])
    then have step: "put_slots m (e # es) = put_slots m1 es" using e False by simp
    have "\<forall>e \<in> set es. live e \<longrightarrow> fst e = hashKey xxh3 (fst (snd e)) \<and> bm_abs m1 (fst (snd e)) = None"
      using Cons.prems(2,3) e False by (auto simp: i(2) live_def image_iff) blast
    moreover have "distinct (map (\<lambda>e. fst (snd e)) (filter live es))" "bm_used m1 + int (length (filter live es)) \<le> bm_growAt m1"
      using Cons.prems(3,4) lv i(3,4) by simp_all
    ultimately obtain m' where m': "put_slots m1 es = Some (Returns m')" "bm_wf xxh3 k m'"
      "bm_used m' = bm_used m1 + int (length (filter live es))"
      "\<forall>b v. bm_abs m' b = Some v \<longleftrightarrow> bm_abs m1 b = Some v \<or> (\<exists>h. (h, b, v) \<in> set es \<and> h \<noteq> 0)"
      using Cons.IH[OF i(1)] by blast
    have "bm_abs m1 b' = Some v' \<longleftrightarrow> bm_abs m b' = Some v' \<or> b' = b \<and> v' = v" for b' v' using h(2) by (auto simp: i(2))
    then show ?thesis using m' step e False i(3) lv by auto
  qed
qed auto

lemma empty_slots_wf: "2 \<le> k \<Longrightarrow> k \<le> 62 \<Longrightarrow> bm_wf xxh3 k (empty_slots (2 ^ k))" "bm_abs (empty_slots n) = Map.empty"
proof -
  have slot: "bm_slot (empty_slots n) i = None" if "i < n" for i n using that by (simp add: bm_slot_None empty_slots_def)
  have occ: "occupied (empty_slots n) = {}" for n by (auto simp: occupied_def empty_slots_def)
  show "bm_wf xxh3 k (empty_slots (2 ^ k))" if "2 \<le> k" "k \<le> 62"
    using that slot[where n = "2 ^ k"] occ[of "2 ^ k"]
    by (auto simp: bm_wf_def bm_table_def bm_shape_def keyed_once_def chained_def) (simp_all add: empty_slots_def)
  have "List.map_filter (bm_slot (empty_slots n)) [0..<n] = []" using slot[of _ n] by (induction n) (simp_all add: map_filter_def)
  then show "bm_abs (empty_slots n) = Map.empty" by (simp add: bm_abs_def table_map_def) (simp add: empty_slots_def)
qed

lemma zip_slots:
  assumes "bm_shape k m"
  shows "zip (bm_hashes m) (zip (bm_keys m) (bm_values m)) = map (\<lambda>i. (bm_hashes m ! i, bm_keys m ! i, bm_values m ! i)) [0..<2 ^ k]"
  using bm_shapeD(3,4,5)[OF assms] by (intro nth_equalityI) simp_all

lemma grow_wf:
  assumes w: "bm_wf xxh3 k m" and k: "k \<le> 61"
  shows "\<exists>m'. bm_grow m = Some (Returns m') \<and> bm_wf xxh3 (Suc k) m' \<and> bm_used m' = bm_used m \<and> bm_abs m' = bm_abs m"
proof -
  let ?es = "zip (bm_hashes m) (zip (bm_keys m) (bm_values m))" and ?m0 = "empty_slots (2 ^ Suc k)"
  note t = bm_wfD(1)[OF w]
  note sh = bm_wfD(2)[OF w]
  note es = zip_slots[OF sh]
  have live: "filter live ?es = map (\<lambda>i. (bm_hashes m ! i, bm_keys m ! i, bm_values m ! i)) (filter (\<lambda>i. bm_hashes m ! i \<noteq> 0) [0..<2 ^ k])"
    by (simp add: es filter_map live_def comp_def)
  have "set (filter (\<lambda>i. bm_hashes m ! i \<noteq> 0) [0..<2 ^ k]) = occupied m" using bm_shapeD(3)[OF sh] by (auto simp: occupied_def)
  then have cnt: "int (length (filter live ?es)) = bm_used m"
    unfolding live length_map using bm_tableD(3)[OF t] distinct_card[of "filter (\<lambda>i. bm_hashes m ! i \<noteq> 0) [0..<2 ^ k]"] by simp
  have m0: "bm_wf xxh3 (Suc k) ?m0" using k bm_shapeD(1)[OF sh] by (intro empty_slots_wf(1)) simp_all
  have "\<forall>e \<in> set ?es. live e \<longrightarrow> fst e = hashKey xxh3 (fst (snd e)) \<and> bm_abs ?m0 (fst (snd e)) = None"
    unfolding es using bm_tableD(5)[OF t] by (auto simp: live_def empty_slots_wf(2))
  moreover have "distinct (map (\<lambda>e. fst (snd e)) (filter live ?es))"
  proof -
    have "inj_on (\<lambda>i. bm_keys m ! i) (set (filter (\<lambda>i. bm_hashes m ! i \<noteq> 0) [0..<2 ^ k]))"
      by (rule inj_onI, rule keyed_onceD[OF bm_tableD(4)[OF t]]) (auto simp: bm_slot_Some)
    then show ?thesis unfolding live by (simp add: distinct_map comp_def)
  qed
  moreover have "bm_used ?m0 + int (length (filter live ?es)) \<le> bm_growAt ?m0"
  proof -
    have "(2 :: nat) ^ k * 3 div 4 \<le> 2 ^ Suc k * 3 div 4" by (intro div_le_mono) simp
    then have "int (2 ^ k * 3 div 4) \<le> int (2 ^ Suc k * 3 div 4)" by linarith
    then show ?thesis using cnt bm_wfD(4)[OF w] bm_shapeD(7)[OF sh] by (simp only: empty_slots_def ByteIntMap.simps)
  qed
  ultimately obtain m' where m': "put_slots ?m0 ?es = Some (Returns m')" "bm_wf xxh3 (Suc k) m'"
    "bm_used m' = bm_used ?m0 + int (length (filter live ?es))"
    "\<forall>b v. bm_abs m' b = Some v \<longleftrightarrow> bm_abs ?m0 b = Some v \<or> (\<exists>h. (h, b, v) \<in> set ?es \<and> h \<noteq> 0)"
    using put_slots_wf[OF m0] by blast
  have "bm_abs m' b = bm_abs m b" for b
  proof -
    have "(\<exists>h. (h, b, v) \<in> set ?es \<and> h \<noteq> 0) \<longleftrightarrow> bm_abs m b = Some v" for v
      unfolding es bm_abs_table(1)[OF t] by (auto simp: bm_slot_Some image_iff) (metis atLeastLessThan_iff le0)
    then have "bm_abs m' b = Some v \<longleftrightarrow> bm_abs m b = Some v" for v using m'(4) by (simp add: empty_slots_wf(2))
    then show ?thesis by (metis not_Some_eq)
  qed
  moreover have "bm_grow m = Some (Returns m')" using m'(1) bm_shapeD(3)[OF sh] by (simp add: bm_grow_def mult.commute)
  ultimately show ?thesis using m'(2,3) cnt by (auto simp: empty_slots_def)
qed

lemma make_room_wf:
  assumes w: "bm_wf xxh3 k m" and k: "k \<le> 61"
  shows "\<exists>k' m'. make_room m = Some (Returns m') \<and> bm_wf xxh3 k' m' \<and>
    (k' = k \<or> 3 * 2 ^ k' \<le> 8 * (bm_used m + 1)) \<and> bm_abs m' = bm_abs m \<and> bm_used m' + 1 \<le> bm_growAt m' \<and> bm_used m' = bm_used m"
proof (cases "bm_used m + 1 > bm_growAt m")
  case True
  from grow_wf[OF assms] obtain m' where m': "bm_grow m = Some (Returns m')" "bm_wf xxh3 (Suc k) m'" "bm_used m' = bm_used m" "bm_abs m' = bm_abs m"
    by blast
  have "4 \<le> (2 :: nat) ^ k" using power_increasing[OF bm_shapeD(1)[OF bm_wfD(2)[OF w]], of "2 :: nat"] by simp
  then have "2 ^ k * 3 div 4 + 1 \<le> (2 :: nat) ^ Suc k * 3 div 4" by simp
  then have "int (2 ^ k * 3 div 4) + 1 \<le> int (2 ^ Suc k * 3 div 4)" by linarith
  then have "bm_used m' + 1 \<le> bm_growAt m'"
    using m'(3) bm_wfD(4)[OF w] bm_shapeD(7)[OF bm_wfD(2)[OF w]] bm_shapeD(7)[OF bm_wfD(2)[OF m'(2)]] by linarith
  moreover have "3 * 2 ^ Suc k \<le> 8 * (bm_used m + 1)"
  proof -
    obtain c where "(2 :: nat) ^ k = 4 * c" using le_imp_power_dvd[OF bm_shapeD(1)[OF bm_wfD(2)[OF w]], of "2 :: nat"] by auto
    moreover from this have "(2 :: int) ^ k = 4 * int c" by (metis of_nat_mult of_nat_numeral of_nat_power)
    ultimately show ?thesis using True bm_shapeD(7)[OF bm_wfD(2)[OF w]] by simp
  qed
  ultimately show ?thesis using m' True unfolding make_room_def by auto
next
  case False
  then show ?thesis using w by (auto simp: make_room_def)
qed

subsection \<open>The operations\<close>

lemma Get_wf:
  assumes w: "bm_wf xxh3 k m"
  shows "bm_Get xxh3 m b = Some (Returns (case bm_abs m b of None \<Rightarrow> (0, False) | Some v \<Rightarrow> (v, True)))"
proof (cases "bm_abs m b")
  case None
  from search_absent[OF bm_wfD(1,5)[OF w] None] obtain d where
    "find_slot m (hashKey xxh3 b) b (hashKey xxh3 b AND bm_mask m) = Some (Returns (Free ((bm_home xxh3 (2 ^ k) b + d) mod 2 ^ k)))" by metis
  then show ?thesis using None by (simp add: bm_Get_def)
next
  case (Some v)
  from search_present[OF w Some] obtain i where "bm_slot m i = Some (b, v)"
    "find_slot m (hashKey xxh3 b) b (hashKey xxh3 b AND bm_mask m) = Some (Returns (Found i))" by metis
  then show ?thesis using Some by (simp add: bm_Get_def bm_slot_Some)
qed

lemma overwrite_wf:
  fixes v :: int
  assumes w: "bm_wf xxh3 k m" and i: "i < 2 ^ k" "bm_slot m i = Some (b, old)"
  defines "m' \<equiv> m\<lparr>bm_values := (bm_values m)[i := v]\<rparr>"
  shows "bm_wf xxh3 k m'" "bm_abs m' = (bm_abs m)(b \<mapsto> v)"
proof -
  note t = bm_wfD(1)[OF w]
  note len = bm_shapeD(3,4,5)[OF bm_wfD(2)[OF w]]
  have slot: "bm_slot m' = (bm_slot m)(i \<mapsto> (b, v))" 
    by (rule ext) (use len i in \<open>auto simp: m'_def bm_slot_def nth_list_update split: if_splits\<close>)
  have only: "j = i" if "j < 2 ^ k" "bm_slot m j = Some (b, u)" for j u using keyed_onceD[OF bm_tableD(4)[OF t] that(1) i(1) that(2) i(2)] .
  have "keyed_once (2 ^ k) (bm_slot m')" unfolding slot using bm_tableD(4)[OF t] only by (rule keyed_once_put)
  moreover have "occupied m' = occupied m" by (simp add: occupied_def m'_def)
  moreover have "bm_shape k m'" using bm_wfD(2)[OF w] by (simp add: bm_shape_def m'_def)
  ultimately have "bm_table xxh3 k m'" using t by (simp add: bm_table_def m'_def)
  moreover have "chained (2 ^ k) (bm_home xxh3 (2 ^ k)) (bm_slot m')"
    unfolding chained_def
  proof (intro allI impI)
    fix j k' v' assume j: "j < 2 ^ k" "bm_slot m' j = Some (k', v')"
    obtain u where "bm_slot m j = Some (k', u)" using j i(2) unfolding slot by (cases "j = i") auto
    then obtain d where "d < 2 ^ k" "j = (bm_home xxh3 (2 ^ k) k' + d) mod 2 ^ k" "\<forall>t < d. bm_slot m ((bm_home xxh3 (2 ^ k) k' + t) mod 2 ^ k) \<noteq> None"
      using bm_wfD(3)[OF w] j(1) unfolding chained_def by blast
    then show "\<exists>d < 2 ^ k. j = (bm_home xxh3 (2 ^ k) k' + d) mod 2 ^ k \<and> (\<forall>t < d. bm_slot m' ((bm_home xxh3 (2 ^ k) k' + t) mod 2 ^ k) \<noteq> None)"
      unfolding slot by (intro exI[of _ d]) auto
  qed
  ultimately show "bm_wf xxh3 k m'" using bm_wfD(4)[OF w] by (simp add: bm_wf_def m'_def)
  have "length (bm_hashes m') = 2 ^ k" using len by (simp add: m'_def)
  then show "bm_abs m' = (bm_abs m)(b \<mapsto> v)" unfolding bm_abs_def slot len(1)
    using i(2) by (simp only:) (rule table_map_put[OF bm_tableD(4)[OF t] i(1) only], auto)
qed

lemma put_search:
  fixes v :: int
  assumes w: "bm_wf xxh3 k m" "k \<le> 61"
  shows "\<exists>k' m1 p. make_room m = Some (Returns m1) \<and> bm_wf xxh3 k' m1 \<and> (k' = k \<or> 3 * 2 ^ k' \<le> 8 * (bm_used m + 1)) \<and> bm_abs m1 = bm_abs m \<and> bm_used m1 = bm_used m \<and>
    find_slot m1 (hashKey xxh3 b) b (hashKey xxh3 b AND bm_mask m1) = Some (Returns p) \<and>
    (case bm_abs m b of
       None \<Rightarrow> \<exists>i. p = Free i \<and> bm_wf xxh3 k' (fill_slot m1 i b v (hashKey xxh3 b)) \<and> bm_abs (fill_slot m1 i b v (hashKey xxh3 b)) = (bm_abs m)(b \<mapsto> v)
     | Some old \<Rightarrow> \<exists>i. p = Found i \<and> i < 2 ^ k' \<and> bm_slot m1 i = Some (b, old))"
proof -
  from make_room_wf[OF w] obtain k' m1 where m1: "make_room m = Some (Returns m1)" "bm_wf xxh3 k' m1" "k' = k \<or> 3 * 2 ^ k' \<le> 8 * (bm_used m + 1)" "bm_abs m1 = bm_abs m"
    "bm_used m1 + 1 \<le> bm_growAt m1" "bm_used m1 = bm_used m" by blast
  show ?thesis
  proof (cases "bm_abs m b")
    case None
    then have n1: "bm_abs m1 b = None" by (simp add: m1(4))
    from search_absent[OF bm_wfD(1,5)[OF m1(2)] n1] obtain d where d: "free_at (2 ^ k') (bm_home xxh3 (2 ^ k') b) (bm_slot m1) d"
      "find_slot m1 (hashKey xxh3 b) b (hashKey xxh3 b AND bm_mask m1) = Some (Returns (Free ((bm_home xxh3 (2 ^ k') b + d) mod 2 ^ k')))" .
    then show ?thesis using m1 None insert_wf[OF m1(2,5) n1 d(1), of v] by auto
  next
    case (Some old)
    then have "bm_abs m1 b = Some old" by (simp add: m1(4))
    from search_present[OF m1(2) this] obtain i where "i < 2 ^ k'" "bm_slot m1 i = Some (b, old)"
      "find_slot m1 (hashKey xxh3 b) b (hashKey xxh3 b AND bm_mask m1) = Some (Returns (Found i))" .
    then show ?thesis using m1 Some by auto
  qed
qed

lemma Put_wf:
  assumes w: "bm_wf xxh3 k m" "k \<le> 61"
  shows "\<exists>k' m'. bm_Put xxh3 m b v = Some (Returns ((case bm_abs m b of None \<Rightarrow> (v, False) | Some old \<Rightarrow> (old, True)), m')) \<and>
    bm_wf xxh3 k' m' \<and> (k' = k \<or> 3 * 2 ^ k' \<le> 8 * (bm_used m + 1)) \<and> bm_used m' \<le> bm_used m + 1 \<and> bm_abs m' = (bm_abs m)(b \<mapsto> v)"
proof -
  from put_search[OF w, of b v] obtain k' m1 p where p: "make_room m = Some (Returns m1)" "bm_wf xxh3 k' m1" "k' = k \<or> 3 * 2 ^ k' \<le> 8 * (bm_used m + 1)" "bm_abs m1 = bm_abs m"
    "bm_used m1 = bm_used m" "find_slot m1 (hashKey xxh3 b) b (hashKey xxh3 b AND bm_mask m1) = Some (Returns p)"
    "case bm_abs m b of
       None \<Rightarrow> \<exists>i. p = Free i \<and> bm_wf xxh3 k' (fill_slot m1 i b v (hashKey xxh3 b)) \<and> bm_abs (fill_slot m1 i b v (hashKey xxh3 b)) = (bm_abs m)(b \<mapsto> v)
     | Some old \<Rightarrow> \<exists>i. p = Found i \<and> i < 2 ^ k' \<and> bm_slot m1 i = Some (b, old)" by blast
  show ?thesis
  proof (cases "bm_abs m b")
    case None
    then show ?thesis using p by (auto simp: bm_Put_def fill_slot_def)
  next
    case (Some old)
    with p(7) obtain i where i: "p = Found i" "i < 2 ^ k'" "bm_slot m1 i = Some (b, old)" by auto
    from overwrite_wf[OF p(2) i(2,3), of v] show ?thesis using p(1,3,4,5,6) i Some by (auto simp: bm_Put_def bm_slot_Some)
  qed
qed

lemma PutOrGet_wf:
  assumes w: "bm_wf xxh3 k m" "k \<le> 61"
  shows "\<exists>k' m'. PutOrGet xxh3 m b v = Some (Returns ((case bm_abs m b of None \<Rightarrow> (v, False) | Some old \<Rightarrow> (old, True)), m')) \<and>
    bm_wf xxh3 k' m' \<and> (k' = k \<or> 3 * 2 ^ k' \<le> 8 * (bm_used m + 1)) \<and> bm_used m' \<le> bm_used m + 1 \<and> bm_abs m' = (case bm_abs m b of None \<Rightarrow> (bm_abs m)(b \<mapsto> v) | Some _ \<Rightarrow> bm_abs m)"
proof -
  from put_search[OF w, of b v] show ?thesis
    by (cases "bm_abs m b") (auto simp: PutOrGet_def bm_slot_Some fill_slot_def)
qed

subsection \<open>Deleting\<close>

definition reinserting :: "(bytes \<Rightarrow> u64) \<Rightarrow> nat \<Rightarrow> nat \<Rightarrow> nat \<Rightarrow> ByteIntMap \<Rightarrow> bool" where
  "reinserting xxh3 k e l m \<longleftrightarrow> bm_table xxh3 k m \<and> bm_slot m e = None \<and>
     gaps_below (2 ^ k) (\<lambda>b. offset (2 ^ k) e (bm_home xxh3 (2 ^ k) b)) l (unroll (2 ^ k) e (bm_slot m))"

lemma reinsert_moves:
  assumes e: "e < 2 ^ k" and r: "reinserting xxh3 k e l m" and l: "l < 2 ^ k" "bm_slot m ((e + 1 + l) mod 2 ^ k) = Some (b, v)"
  defines "j \<equiv> (e + 1 + l) mod 2 ^ k"
  defines "m1 \<equiv> m\<lparr>bm_keys := (bm_keys m)[j := []], bm_values := (bm_values m)[j := 0], bm_hashes := (bm_hashes m)[j := 0],
      bm_count := bm_count m - 1, bm_used := bm_used m - 1\<rparr>"
  shows "\<exists>m'. PutRaw m1 b v (bm_hashes m ! j) = Some (Returns m') \<and> reinserting xxh3 k e (Suc l) m' \<and> bm_abs m' = bm_abs m \<and> bm_used m' = bm_used m"
proof -
  have t: "bm_table xxh3 k m" and ee: "bm_slot m e = None" using r by (simp_all add: reinserting_def)
  have j: "j < 2 ^ k" "bm_slot m j = Some (b, v)" using l(2) by (simp_all add: j_def)
  have h: "bm_hashes m ! j = hashKey xxh3 b" using bm_tableD(5)[OF t j(1)] j(2) by (simp add: bm_slot_Some)
  have vs: "length ((bm_values m)[j := 0]) = 2 ^ k" "\<forall>i. i \<noteq> j \<longrightarrow> (bm_values m)[j := 0] ! i = bm_values m ! i"
    using bm_shapeD(5)[OF bm_tableD(1)[OF t]] by simp_all
  have c: "bm_slot m1 = (bm_slot m)(j := None)" "bm_table xxh3 k m1" "bm_used m1 = bm_used m - 1" "bm_growAt m1 = bm_growAt m"
    "bm_abs m1 = (bm_abs m)(b := None)" unfolding m1_def by (rule clear_slot_props[OF t j vs])+
  have free: "\<exists>i < 2 ^ k. bm_slot m1 i = None" using j(1) by (auto simp: c(1))
  obtain d where d: "free_at (2 ^ k) (bm_home xxh3 (2 ^ k) b) (bm_slot m1) d"
    using pr.first_free[OF pr.home_less free] by blast
  define q where "q = (bm_home xxh3 (2 ^ k) b + d) mod 2 ^ k"
  define m' where "m' = fill_slot m1 q b v (hashKey xxh3 b)"
  have q: "q < 2 ^ k" "bm_slot m1 q = None" using d by (simp_all add: q_def free_at_def)
  have gone: "bm_abs m1 b = None" by (simp add: c(5))
  note f = fill_slot_props[OF c(2) q gone, of v, folded m'_def]
  have "reinserting xxh3 k e (Suc l) m'"
    using r pr.reinsert_step[OF e ee l _ d[unfolded c(1) j_def]] f(1,2)
    unfolding reinserting_def f(1) c(1) by (auto simp: q_def j_def)
  moreover have "PutRaw m1 b v (bm_hashes m ! j) = Some (Returns m')"
    unfolding h m'_def q_def by (rule PutRaw_ends[OF bm_tableD(1)[OF c(2)] d])
  moreover have "bm_abs m' = bm_abs m"
  proof -
    have "bm_abs m b = Some v" using j bm_abs_table(1)[OF t] by blast
    then show ?thesis using f(5) c(5) by auto
  qed
  ultimately show ?thesis using f(3) c(3) by auto
qed

lemma reinsert_ends:
  assumes "e < 2 ^ k" "reinserting xxh3 k e l m" "l < 2 ^ k" "unat i = (e + 1 + l) mod 2 ^ k"
  shows "\<exists>m' l'. reinsert m i = Some (Returns m') \<and> l' < 2 ^ k \<and> reinserting xxh3 k e l' m' \<and> bm_slot m' ((e + 1 + l') mod 2 ^ k) = None \<and>
    bm_abs m' = bm_abs m \<and> bm_used m' = bm_used m"
  using assms(2-)
proof (induction "2 ^ k - l" arbitrary: l i m rule: less_induct)
  case less
  note t = less.prems(1)[unfolded reinserting_def, THEN conjunct1]
  note sh = bm_tableD(1)[OF t]
  let ?j = "(e + 1 + l) mod 2 ^ k"
  show ?case
  proof (cases "bm_slot m ?j")
    case None
    then have "reinsert m i = Some (Returns m)" using less.prems(3) bm_shapeD(3)[OF sh] by (simp add: reinsert.simps[of m i] bm_slot_None)
    then show ?thesis using less.prems None by blast
  next
    case (Some y)
    then obtain b v where y: "bm_slot m ?j = Some (b, v)" by (cases y) simp
    have "(e + 1 + (2 ^ k - 1)) mod 2 ^ k = e" using assms(1) by simp
    then have "l \<noteq> 2 ^ k - 1" using y less.prems(1) by (auto simp: reinserting_def)
    then have l: "Suc l < 2 ^ k" using less.prems(2) by linarith
    from reinsert_moves[OF assms(1) less.prems(1,2) y] obtain m' where
      m': "PutRaw (m\<lparr>bm_keys := (bm_keys m)[?j := []], bm_values := (bm_values m)[?j := 0], bm_hashes := (bm_hashes m)[?j := 0],
        bm_count := bm_count m - 1, bm_used := bm_used m - 1\<rparr>) b v (bm_hashes m ! ?j) = Some (Returns m')"
      "reinserting xxh3 k e (Suc l) m'" "bm_abs m' = bm_abs m" "bm_used m' = bm_used m" by blast
    have "bm_mask m' = bm_mask m" using bm_shapeD(6)[OF sh] m'(2) bm_shapeD(6)[OF bm_tableD(1)] by (auto simp: reinserting_def)
    then have "reinsert m i = reinsert m' ((i + 1) AND bm_mask m')"
      using y m'(1) less.prems(3) bm_shapeD(3)[OF sh] by (simp add: reinsert.simps[of m i] bm_slot_Some)
    moreover have "unat ((i + 1) AND bm_mask m') = (e + 1 + Suc l) mod 2 ^ k"
      using next_index[OF bm_shapeD(2)[OF sh] less.prems(3)] bm_shapeD(6)[OF sh] \<open>bm_mask m' = bm_mask m\<close> by simp
    moreover have "2 ^ k - Suc l < 2 ^ k - l" using l by simp
    ultimately show ?thesis using less.hyps[OF _ m'(2) l] m'(3,4) by auto
  qed
qed

lemma Delete_present:
  assumes w: "bm_wf xxh3 k m" and i: "i < 2 ^ k" "bm_slot m i = Some (b, v)"
  defines "m1 \<equiv> m\<lparr>bm_keys := (bm_keys m)[i := []], bm_hashes := (bm_hashes m)[i := 0],
      bm_count := bm_count m - 1, bm_used := bm_used m - 1\<rparr>"
  shows "\<exists>m'. reinsert m1 ((of_nat i + 1) AND bm_mask m1) = Some (Returns m') \<and> bm_wf xxh3 k m' \<and> bm_used m' = bm_used m - 1 \<and>
    bm_abs m' = (bm_abs m)(b := None)"
proof -
  note t = bm_wfD(1)[OF w]
  note sh = bm_wfD(2)[OF w]
  have "m1 = m\<lparr>bm_keys := (bm_keys m)[i := []], bm_values := bm_values m, bm_hashes := (bm_hashes m)[i := 0],
      bm_count := bm_count m - 1, bm_used := bm_used m - 1\<rparr>" by (simp add: m1_def)
  then have c: "bm_slot m1 = (bm_slot m)(i := None)" "bm_table xxh3 k m1" "bm_used m1 = bm_used m - 1" "bm_growAt m1 = bm_growAt m"
      "bm_abs m1 = (bm_abs m)(b := None)"
    using clear_slot_props[OF t i, of "bm_values m"] bm_shapeD(5)[OF sh] by simp_all
  obtain e where e: "e < 2 ^ k" "bm_slot m e = None" using has_room[OF t bm_wfD(5)[OF w]] by blast
  define l where "l = offset (2 ^ k) e i"
  have l: "(e + 1 + l) mod 2 ^ k = i" "l < 2 ^ k"
    using pr.offset_home(1)[OF e(1) i(1)] pr.offset_home(2) by (simp_all add: l_def)
  have "(e + 1 + (2 ^ k - 1)) mod 2 ^ k = e" using e(1) by simp
  then have "l \<noteq> 2 ^ k - 1" using l(1) e(2) i(2) by auto
  then have Suc: "Suc l < 2 ^ k" using l(2) by linarith
  have "gaps_below (2 ^ k) (\<lambda>b. offset (2 ^ k) e (bm_home xxh3 (2 ^ k) b)) (Suc l) (unroll (2 ^ k) e (bm_slot m1))"
  proof (rule gaps_below_cong)
    show "gaps_below (2 ^ k) (\<lambda>b. offset (2 ^ k) e (bm_home xxh3 (2 ^ k) b)) (Suc l) ((unroll (2 ^ k) e (bm_slot m))(l := None))"
      using pr.chained_line[where s = "bm_slot m", OF e] bm_wfD(3)[OF w] by (intro gaps_clear) simp
    show "((unroll (2 ^ k) e (bm_slot m))(l := None)) x = unroll (2 ^ k) e (bm_slot m1) x" if "x < 2 ^ k" for x
      using pr.unroll_upd[OF e(1) l(2), of "bm_slot m" None, unfolded l(1)] that by (simp add: c(1) del: fun_upd_apply)
  qed
  then have r: "reinserting xxh3 k e (Suc l) m1" using c(1,2) e(2) by (simp add: reinserting_def)
  have "i < 2 ^ 64" using i(1) power_increasing[OF bm_shapeD(2)[OF sh], of "2 :: nat"] by simp
  then have "unat (of_nat i :: u64) = (e + 1 + l) mod 2 ^ k" using l(1) by (simp add: unsigned_of_nat take_bit_nat_eq_self)
  from next_index[OF bm_shapeD(2)[OF sh] this]
  have "unat ((of_nat i + 1) AND bm_mask m1) = (e + 1 + Suc l) mod 2 ^ k" using bm_shapeD(6)[OF sh] by (simp add: m1_def)
  from reinsert_ends[OF e(1) r Suc this] obtain m' l' where
    m': "reinsert m1 ((of_nat i + 1) AND bm_mask m1) = Some (Returns m')" "reinserting xxh3 k e l' m'" "bm_slot m' ((e + 1 + l') mod 2 ^ k) = None"
    "bm_abs m' = bm_abs m1" "bm_used m' = bm_used m1" by blast
  have t': "bm_table xxh3 k m'" "bm_slot m' e = None" using m'(2) by (simp_all add: reinserting_def)
  have "gaps_below (2 ^ k) (\<lambda>b. offset (2 ^ k) e (bm_home xxh3 (2 ^ k) b)) 0 (unroll (2 ^ k) e (bm_slot m'))"
    using m'(2,3) by (intro gaps_closed[of _ _ l']) (simp_all add: reinserting_def unroll_def)
  then have "chained (2 ^ k) (bm_home xxh3 (2 ^ k)) (bm_slot m')" using pr.chained_line[where s = "bm_slot m'", OF e(1) t'(2)] by simp
  moreover have "bm_used m' \<le> bm_growAt m'"
    using m'(5) c(3) bm_wfD(4)[OF w] bm_shapeD(7)[OF sh] bm_shapeD(7)[OF bm_tableD(1)[OF t'(1)]] by linarith
  ultimately show ?thesis using m'(1,4,5) c(3,5) t'(1) by (auto simp: bm_wf_def)
qed

lemma Delete_wf:
  assumes w: "bm_wf xxh3 k m"
  shows "\<exists>m'. bm_Delete xxh3 m b = Some (Returns (bm_abs m b \<noteq> None, m')) \<and> bm_wf xxh3 k m' \<and> bm_used m' \<le> bm_used m \<and>
    bm_abs m' = (bm_abs m)(b := None)"
proof (cases "bm_abs m b")
  case None
  from search_absent[OF bm_wfD(1,5)[OF w] None] obtain d where
    "find_slot m (hashKey xxh3 b) b (hashKey xxh3 b AND bm_mask m) = Some (Returns (Free ((bm_home xxh3 (2 ^ k) b + d) mod 2 ^ k)))" by metis
  then show ?thesis using None w by (auto simp: bm_Delete_def)
next
  case (Some v)
  from search_present[OF w Some] obtain i where i: "i < 2 ^ k" "bm_slot m i = Some (b, v)"
    "find_slot m (hashKey xxh3 b) b (hashKey xxh3 b AND bm_mask m) = Some (Returns (Found i))" by metis
  from Delete_present[OF w i(1,2)] i(3) Some show ?thesis by (auto simp: bm_Delete_def)
qed

subsection \<open>Reuse and iteration\<close>

lemma Reset_wf:
  assumes "bm_wf xxh3 k m"
  shows "bm_wf xxh3 k (bm_Reset m)" "bm_abs (bm_Reset m) = Map.empty" "bm_used (bm_Reset m) = 0"
proof -
  have slot: "bm_slot (bm_Reset m) i = None" if "i < length (bm_hashes m)" for i using that by (simp add: bm_slot_None bm_Reset_def)
  have occ: "occupied (bm_Reset m) = {}" by (auto simp: occupied_def bm_Reset_def)
  have sh: "bm_shape k (bm_Reset m)" using bm_wfD(2)[OF assms] by (simp add: bm_shape_def bm_Reset_def)
  have n: "length (bm_hashes m) = 2 ^ k" using bm_shapeD(3)[OF bm_wfD(2)[OF assms]] .
  show u: "bm_used (bm_Reset m) = 0" by (simp add: bm_Reset_def)
  moreover have "bm_count (bm_Reset m) = 0" "bm_growAt (bm_Reset m) = bm_growAt m" by (simp_all add: bm_Reset_def)
  moreover have "0 \<le> bm_growAt m" using bm_shapeD(7)[OF bm_wfD(2)[OF assms]] by simp
  ultimately show "bm_wf xxh3 k (bm_Reset m)" using slot occ sh n
    by (auto simp: bm_wf_def bm_table_def keyed_once_def chained_def)
  have "List.map_filter (bm_slot (bm_Reset m)) [0..<length (bm_hashes m)] = []" using slot by (auto simp: map_filter_def filter_empty_conv)
  then show "bm_abs (bm_Reset m) = Map.empty" by (simp add: bm_abs_def table_map_def) (simp add: bm_Reset_def)
qed

text \<open>What the pool may hold: nothing, or a map that \<^verbatim>\<open>PutBack\<close> did not find too large.\<close>

definition recycled :: "(bytes \<Rightarrow> u64) \<Rightarrow> ByteIntMap \<Rightarrow> bool" where
  "recycled xxh3 m \<longleftrightarrow> m = zero_ByteIntMap \<or> (\<exists>k \<le> 18. bm_wf xxh3 k m)"

lemma PutBack_recycled: "bm_wf xxh3 k m \<Longrightarrow> recycled xxh3 (PutBack m)"
proof -
  assume w: "bm_wf xxh3 k m"
  have "k \<le> 18" if "\<not> maxPooledSlots < length (bm_hashes m)"
  proof -
    have "(2 :: nat) ^ k \<le> 2 ^ 18" using that bm_shapeD(3)[OF bm_wfD(2)[OF w]] by (simp only: maxPooledSlots_def not_less)
    then show ?thesis by (rule power_le_imp_le_exp[rotated]) simp
  qed
  then show ?thesis using w by (auto simp: recycled_def PutBack_def)
qed

lemma NewByteIntMap_wf:
  assumes "recycled xxh3 pooled"
  shows "\<exists>k \<le> 18. bm_wf xxh3 k (NewByteIntMap pooled) \<and> bm_abs (NewByteIntMap pooled) = Map.empty \<and> bm_used (NewByteIntMap pooled) = 0"
proof (cases "pooled = zero_ByteIntMap")
  case True
  then have "NewByteIntMap pooled = empty_slots (2 ^ 5)" by (simp add: NewByteIntMap_def zero_ByteIntMap_def empty_slots_def)
  then show ?thesis using empty_slots_wf(1)[of 5 xxh3] empty_slots_wf(2)[of "2 ^ 5"]
    by (intro exI[of _ 5]) (simp, simp add: empty_slots_def)
next
  case False
  then obtain k where k: "k \<le> 18" "bm_wf xxh3 k pooled" using assms by (auto simp: recycled_def)
  then have "bm_keys pooled \<noteq> []" using bm_shapeD(4)[OF bm_wfD(2)[OF k(2)]] by auto
  then show ?thesis using Reset_wf[OF k(2)] k(1) by (auto simp: NewByteIntMap_def)
qed

lemma ForEach_pairs: "ForEach m (\<lambda>b v xs. xs @ [(b, v)]) [] = List.map_filter (bm_slot m) [0..<length (bm_hashes m)]"
proof -
  have "foldl (\<lambda>x i. if bm_hashes m ! i \<noteq> 0 then x @ [(bm_keys m ! i, bm_values m ! i)] else x) xs [0..<n] = xs @ List.map_filter (bm_slot m) [0..<n]" for xs n
    by (induction n) (simp_all add: map_filter_def bm_slot_def)
  then show ?thesis by (simp add: ForEach_def)
qed

subsection \<open>Any sequence of operations\<close>

datatype bm_op = OpGet bytes | OpPut bytes int | OpPutOrGet bytes int | OpDelete bytes

fun bm_step :: "(bytes \<Rightarrow> u64) \<Rightarrow> ByteIntMap \<Rightarrow> bm_op \<Rightarrow> ((int \<times> bool) \<times> ByteIntMap) outcome option" where
  "bm_step xxh3 m (OpGet b) = thn (bm_Get xxh3 m b) (\<lambda>a. Some (Returns (a, m)))"
| "bm_step xxh3 m (OpPut b v) = bm_Put xxh3 m b v"
| "bm_step xxh3 m (OpPutOrGet b v) = PutOrGet xxh3 m b v"
| "bm_step xxh3 m (OpDelete b) = thn (bm_Delete xxh3 m b) (\<lambda>(ok, m). Some (Returns ((0, ok), m)))"

fun bm_run :: "(bytes \<Rightarrow> u64) \<Rightarrow> ByteIntMap \<Rightarrow> bm_op list \<Rightarrow> ((int \<times> bool) list \<times> ByteIntMap) outcome option" where
  "bm_run xxh3 m [] = Some (Returns ([], m))"
| "bm_run xxh3 m (op # ops) =
     thn (bm_step xxh3 m op) (\<lambda>(a, m). thn (bm_run xxh3 m ops) (\<lambda>(as, m). Some (Returns (a # as, m))))"

text \<open>The same on a finite map.\<close>

fun map_step :: "(bytes \<Rightarrow> int option) \<Rightarrow> bm_op \<Rightarrow> (int \<times> bool) \<times> (bytes \<Rightarrow> int option)" where
  "map_step f (OpGet b) = (case f b of None \<Rightarrow> (0, False) | Some v \<Rightarrow> (v, True), f)"
| "map_step f (OpPut b v) = (case f b of None \<Rightarrow> (v, False) | Some old \<Rightarrow> (old, True), f(b \<mapsto> v))"
| "map_step f (OpPutOrGet b v) = (case f b of None \<Rightarrow> ((v, False), f(b \<mapsto> v)) | Some old \<Rightarrow> ((old, True), f))"
| "map_step f (OpDelete b) = ((0, f b \<noteq> None), f(b := None))"

fun map_run :: "(bytes \<Rightarrow> int option) \<Rightarrow> bm_op list \<Rightarrow> (int \<times> bool) list \<times> (bytes \<Rightarrow> int option)" where
  "map_run f [] = ([], f)"
| "map_run f (op # ops) = (let (a, f) = map_step f op; (as, f) = map_run f ops in (a # as, f))"

lemma bm_step_wf:
  assumes "bm_wf xxh3 k m" "k \<le> 61"
  shows "\<exists>k' m'. bm_step xxh3 m op = Some (Returns (fst (map_step (bm_abs m) op), m')) \<and> bm_wf xxh3 k' m' \<and>
    bm_abs m' = snd (map_step (bm_abs m) op) \<and> (k' = k \<or> 3 * 2 ^ k' \<le> 8 * (bm_used m + 1)) \<and> bm_used m' \<le> bm_used m + 1"
proof (cases op)
  case (OpGet b)
  then show ?thesis using Get_wf[OF assms(1), of b] assms(1) by auto
next
  case (OpPut b v)
  then show ?thesis using Put_wf[OF assms, of b v] by auto
next
  case (OpPutOrGet b v)
  then show ?thesis using PutOrGet_wf[OF assms, of b v] by (cases "bm_abs m b") auto
next
  case (OpDelete b)
  from Delete_wf[OF assms(1), of b] obtain m' where "bm_Delete xxh3 m b = Some (Returns (bm_abs m b \<noteq> None, m'))" "bm_wf xxh3 k m'"
    "bm_used m' \<le> bm_used m" "bm_abs m' = (bm_abs m)(b := None)" by blast
  then show ?thesis using OpDelete by (intro exI[of _ k] exI[of _ m']) auto
qed

lemma bm_run_wf:
  assumes "bm_wf xxh3 k m" "bm_used m \<le> n" "k \<le> 18 \<or> 3 * 2 ^ k \<le> 8 * n" "n + int (length ops) \<le> 2 ^ 58"
  shows "\<exists>k' m'. bm_run xxh3 m ops = Some (Returns (fst (map_run (bm_abs m) ops), m')) \<and> bm_wf xxh3 k' m' \<and> bm_abs m' = snd (map_run (bm_abs m) ops)"
  using assms
proof (induction ops arbitrary: k m n)
  case (Cons op ops)
  have "k \<le> 61"
  proof (rule ccontr)
    assume "\<not> k \<le> 61"
    then have "(2 :: int) ^ 62 \<le> 2 ^ k" by (intro power_increasing) simp_all
    then show False using Cons.prems(3,4) \<open>\<not> k \<le> 61\<close> by simp
  qed
  from bm_step_wf[OF Cons.prems(1) this, of op] obtain k' m' where
    s: "bm_step xxh3 m op = Some (Returns (fst (map_step (bm_abs m) op), m'))" "bm_wf xxh3 k' m'" "bm_abs m' = snd (map_step (bm_abs m) op)"
      "k' = k \<or> 3 * 2 ^ k' \<le> 8 * (bm_used m + 1)" "bm_used m' \<le> bm_used m + 1" by blast
  have "bm_used m' \<le> n + 1" using s(5) Cons.prems(2) by linarith
  moreover have "k' \<le> 18 \<or> 3 * 2 ^ k' \<le> 8 * (n + 1)" using s(4) Cons.prems(2,3) by auto
  moreover have "(n + 1) + int (length ops) \<le> 2 ^ 58" using Cons.prems(4) by simp
  ultimately obtain k'' m'' where
    "bm_run xxh3 m' ops = Some (Returns (fst (map_run (bm_abs m') ops), m''))" "bm_wf xxh3 k'' m''" "bm_abs m'' = snd (map_run (bm_abs m') ops)"
    using Cons.IH[OF s(2)] by blast
  then show ?case using s(1,3) by (auto simp: case_prod_unfold Let_def)
qed auto

lemma Len_wf: "bm_wf xxh3 k m \<Longrightarrow> bm_Len m = int (card (dom (bm_abs m)))"
proof -
  assume w: "bm_wf xxh3 k m"
  note t = bm_wfD(1)[OF w]
  have n: "length (bm_hashes m) = 2 ^ k" using bm_shapeD(3)[OF bm_wfD(2)[OF w]] .
  have "bij_betw (\<lambda>i. bm_keys m ! i) (occupied m) (dom (bm_abs m))"
  proof (rule bij_betw_imageI)
    show "inj_on (\<lambda>i. bm_keys m ! i) (occupied m)"
      by (rule inj_onI, rule keyed_onceD[OF bm_tableD(4)[OF t]]) (auto simp: occupied_def n bm_slot_Some)
    have "b \<in> dom (bm_abs m) \<longleftrightarrow> (\<exists>i < 2 ^ k. bm_hashes m ! i \<noteq> 0 \<and> bm_keys m ! i = b)" for b
      using bm_abs_table(2)[OF t, of b] by (auto simp: domIff)
    then have "dom (bm_abs m) = {b. \<exists>i < 2 ^ k. bm_hashes m ! i \<noteq> 0 \<and> bm_keys m ! i = b}" by blast
    then show "(\<lambda>i. bm_keys m ! i) ` occupied m = dom (bm_abs m)" by (auto simp: occupied_def n)
  qed
  then show ?thesis using bm_tableD(2,3)[OF t] by (simp add: bm_Len_def bij_betw_same_card)
qed





end
